(* ===== verification/Corey_Prelude.thy ===== *)
theory Corey_Prelude
  imports Main "HOL-Library.Word" "HOL-Library.Multiset"
begin

text \<open>
  Shared vocabulary of the development: the kernel's error codes and the result type of
  every fallible operation, the rounding macros of \<^verbatim>\<open>inc/intmacro.h\<close>, the checked arithmetic
  of \<^verbatim>\<open>inc/safeint.h\<close>, and the generic lemmas on words, lists and multisets that the
  component theories use.
\<close>

unbundle bit_operations_syntax

named_theorems layout_consts \<open>sizes and counts fixed by the C structure layouts\<close>
named_theorems inv_intros \<open>preservation rules of the component invariants\<close>

type_synonym u8 = "8 word"
type_synonym u32 = "32 word"
type_synonym u64 = "64 word"
type_synonym kobject_id = u64

subsection \<open>Error codes and results\<close>

text \<open>The error numbers of \<^verbatim>\<open>inc/error.h\<close>, in the order of the enumeration.\<close>

datatype jos_error =
    E_UNSPEC | E_INVAL | E_NO_MEM | E_RESTART | E_NOT_FOUND | E_PERM | E_BUSY
  | E_NO_SPACE | E_AGAIN | E_IO | E_BAD_TYPE | E_EXISTS | E_RANGE

text \<open>
  A C function that returns \<open>0\<close> or a negative error number returns \<open>Ok\<close> or \<open>Err\<close>; a failed
  \<^verbatim>\<open>assert\<close> and a call of \<^verbatim>\<open>panic\<close> stop the machine and are the third outcome.
\<close>

datatype 'a result = Ok 'a | Err jos_error | Panic

primrec is_ok :: "'a result \<Rightarrow> bool" where
  "is_ok (Ok x) = True"
| "is_ok (Err e) = False"
| "is_ok Panic = False"

text \<open>
  Sequencing of operations on a state: an error or a panic ends the caller too, with the state
  it left behind.
\<close>

definition bind_r :: "'a result \<times> 's \<Rightarrow> ('a \<Rightarrow> 's \<Rightarrow> 'b result \<times> 's) \<Rightarrow> 'b result \<times> 's" where
  "bind_r rs f = (case rs of (r, s) \<Rightarrow> (case r of Ok x \<Rightarrow> f x s | Err e \<Rightarrow> (Err e, s) | Panic \<Rightarrow> (Panic, s)))"

lemma bind_r_simps [simp]:
  "bind_r (Ok x, s) f = f x s"
  "bind_r (Err e, s) f = (Err e, s)"
  "bind_r (Panic, s) f = (Panic, s)"
  by (simp_all add: bind_r_def)

lemma bind_r_Ok_iff: "bind_r rs f = (Ok y, t) \<longleftrightarrow> (\<exists>x s. rs = (Ok x, s) \<and> f x s = (Ok y, t))"
  by (cases rs; cases "fst rs") auto

lemma bind_r_cong [fundef_cong]:
  "rs = rs' \<Longrightarrow> (\<And>x s. rs' = (Ok x, s) \<Longrightarrow> f x s = g x s) \<Longrightarrow> bind_r rs f = bind_r rs' g"
  by (cases rs'; cases "fst rs'") auto

text \<open>The number a system call hands back for an error: the negated enumeration value.\<close>

primrec errno :: "jos_error \<Rightarrow> int" where
  "errno E_UNSPEC = 1"
| "errno E_INVAL = 2"
| "errno E_NO_MEM = 3"
| "errno E_RESTART = 4"
| "errno E_NOT_FOUND = 5"
| "errno E_PERM = 6"
| "errno E_BUSY = 7"
| "errno E_NO_SPACE = 8"
| "errno E_AGAIN = 9"
| "errno E_IO = 10"
| "errno E_BAD_TYPE = 11"
| "errno E_EXISTS = 12"
| "errno E_RANGE = 13"

subsection \<open>Rounding and checked arithmetic on machine words\<close>

definition ROUNDDOWN :: "u64 \<Rightarrow> u64 \<Rightarrow> u64" where
  "ROUNDDOWN a n = a - a mod n"

definition ROUNDUP :: "u64 \<Rightarrow> u64 \<Rightarrow> u64" where
  "ROUNDUP a n = ROUNDDOWN (a + n - 1) n"

text \<open>
  \<open>safe_add64\<close> and \<open>safe_mul64\<close> take the overflow flag and give back the flag and the wrapped
  result; they only ever set the flag.
\<close>

definition safe_add64 :: "bool \<Rightarrow> u64 \<Rightarrow> u64 \<Rightarrow> bool \<times> u64" where
  "safe_add64 overflow a b = (let r = a + b in (if r < a then True else overflow, r))"

definition safe_mul64 :: "bool \<Rightarrow> u64 \<Rightarrow> u64 \<Rightarrow> bool \<times> u64" where
  "safe_mul64 overflow a b =
     (let r = a * b in (if a \<noteq> 0 \<and> r div a \<noteq> b then True else overflow, r))"

definition PGSIZE :: u64 where
  "PGSIZE = 4096"

definition PGOFF :: "u64 \<Rightarrow> u64" where
  "PGOFF la = la AND 0xFFF"

text \<open>The overflow flag is raised exactly when the mathematical result does not fit.\<close>

lemma mod_sub_once: "m \<le> x \<Longrightarrow> x < 2 * m \<Longrightarrow> x mod m = x - (m::nat)"
  by (simp add: le_mod_geq)

lemma unat_less64: "unat (a::u64) < 18446744073709551616"
  by (rule order_less_le_trans [OF unsigned_less]) simp

lemma add64_wraps_iff: "(a::u64) + b < a \<longleftrightarrow> 2 ^ 64 \<le> unat a + unat b"
proof (cases "unat a + unat b < 2 ^ 64")
  case True
  then show ?thesis by (simp add: word_less_nat_alt unat_word_ariths)
next
  case False
  then have "(unat a + unat b) mod 2 ^ 64 = unat a + unat b - 2 ^ 64"
    using unat_less64 [of a] unat_less64 [of b] by (intro mod_sub_once) simp_all
  with False show ?thesis using unat_less64 [of b] by (simp add: word_less_nat_alt unat_word_ariths)
qed

lemma mul64_wraps_iff: "a \<noteq> 0 \<Longrightarrow> ((a::u64) * b) div a \<noteq> b \<longleftrightarrow> 2 ^ 64 \<le> unat a * unat b"
proof (cases "unat a * unat b < 2 ^ 64")
  case True
  assume "a \<noteq> 0"
  then have "0 < unat a" by (simp add: unat_gt_0)
  with True show ?thesis by (simp add: word_arith_nat_div unat_word_ariths)
next
  case False
  assume "a \<noteq> 0"
  have "unat b \<noteq> (unat a * unat b mod 2 ^ 64) div unat a"
  proof
    assume "unat b = (unat a * unat b mod 2 ^ 64) div unat a"
    then have "unat a * unat b \<le> unat a * unat b mod 2 ^ 64"
      by (metis div_times_less_eq_dividend mult.commute)
    moreover have "unat a * unat b mod 2 ^ 64 < 2 ^ 64" by simp
    ultimately show False using False by linarith
  qed
  then have "unat b \<noteq> unat ((a * b) div a)"
    by (simp add: unat_div unat_word_ariths)
  then have "(a * b) div a \<noteq> b" by auto
  with False show ?thesis by auto
qed

lemma safe_add64_overflow: "fst (safe_add64 ov a b) = (ov \<or> 2 ^ 64 \<le> unat a + unat b)"
  by (simp add: safe_add64_def Let_def add64_wraps_iff)

lemma safe_mul64_overflow: "fst (safe_mul64 ov a b) = (ov \<or> 2 ^ 64 \<le> unat a * unat b)"
  using mul64_wraps_iff [of a b] by (cases "a = 0") (auto simp: safe_mul64_def Let_def)

lemma unat_ROUNDDOWN: "0 < unat n \<Longrightarrow> unat (ROUNDDOWN a n) = unat a div unat n * unat n"
proof -
  have "a mod n \<le> a" by (simp add: word_le_nat_alt unat_mod)
  then have "unat (a - a mod n) = unat a - unat a mod unat n" by (simp only: unat_sub unat_mod)
  then show ?thesis by (simp only: ROUNDDOWN_def minus_mod_eq_div_mult)
qed

lemma unat_ROUNDUP:
  assumes "0 < unat n" "unat a + unat n \<le> 2 ^ 64"
  shows "unat (ROUNDUP a n) = (unat a + unat n - 1) div unat n * unat n"
proof -
  have "n \<ge> 1" using assms(1) by (metis unsigned_1 word_le_nat_alt Suc_leI One_nat_def)
  then have "unat (a + (n - 1)) = unat a + (unat n - 1)"
    using assms by (simp add: unat_word_ariths(1) unat_sub)
  then have "unat (a + n - 1) = unat a + unat n - 1"
    using assms by (simp add: add_diff_eq)
  with assms show ?thesis by (simp add: ROUNDUP_def unat_ROUNDDOWN)
qed

end
