(* ===== verification/Hashtable.thy ===== *)
theory Hashtable
  imports Corey_Prelude
begin

text \<open>
  The open-addressing hash table of \<^verbatim>\<open>lib/hashtable.c\<close>, used by the kernel's \<open>Map\<close> and by the
  file system's metadata cache.  The slots of a table live in one of three backings (a flat
  array, an array of pages, or whatever a callback returns); the model takes the backing's
  read and write of a slot as a record of two functions and states what the table relies on
  as the locale \<open>entry_store\<close>.
\<close>

subsection \<open>The hash function\<close>

text \<open>
  \<^verbatim>\<open>mix64\<close> is four rounds of three lines, one line per register, that differ in their
  shift amounts only.
\<close>

fun mix_round :: "nat \<Rightarrow> nat \<Rightarrow> nat \<Rightarrow> u64 \<times> u64 \<times> u64 \<Rightarrow> u64 \<times> u64 \<times> u64" where
  "mix_round r1 l2 r3 (a, b, c) =
     (let a = a - b; a = a - c; a = a XOR drop_bit r1 c;
          b = b - c; b = b - a; b = b XOR push_bit l2 a;
          c = c - a; c = c - b; c = c XOR drop_bit r3 b
      in (a, b, c))"

definition mix64 :: "u64 \<Rightarrow> u64 \<Rightarrow> u64 \<Rightarrow> u64 \<times> u64 \<times> u64" where
  "mix64 a b c =
     mix_round 12 18 22 (mix_round 35 49 11 (mix_round 38 23 5 (mix_round 43 9 8 (a, b, c))))"

text \<open>The loop over three-word blocks of the key, and what is left of the key after it.\<close>

fun hash2_blocks :: "u64 list \<Rightarrow> u64 \<times> u64 \<times> u64 \<Rightarrow> u64 list \<times> u64 \<times> u64 \<times> u64" where
  "hash2_blocks (k0 # k1 # k2 # k) (a, b, c) = hash2_blocks k (mix64 (a + k0) (b + k1) (c + k2))"
| "hash2_blocks k (a, b, c) = (k, a, b, c)"

definition hash2 :: "u64 list \<Rightarrow> u64 \<Rightarrow> u64" where
  "hash2 k level =
     (let (k', a, b, c) = hash2_blocks k (level, level, 0x9e3779b97f4a7c13);
          c = c + of_nat (length k);
          b = (if length k' = 2 then b + k' ! 1 else b);
          a = (if length k' = 2 \<or> length k' = 1 then a + k' ! 0 else a);
          (a, b, c) = mix64 a b c
      in c)"

definition TOMB :: u64 where
  "TOMB = 0xFFFFFFFFFFFFFFFF"

definition LEV :: u64 where
  "LEV = 0xDEADBEEF"

subsection \<open>Tables\<close>

record hashentry =
  he_key :: u64
  he_val :: u64

definition null_entry :: hashentry where
  "null_entry = \<lparr>he_key = 0, he_val = 0\<rparr>"

text \<open>How a backing reads and writes slot \<open>idx\<close>: what \<open>hash_ent\<close> of the code points to.\<close>

record 'b ent_ops =
  ent_get :: "'b \<Rightarrow> nat \<Rightarrow> hashentry"
  ent_set :: "'b \<Rightarrow> nat \<Rightarrow> hashentry \<Rightarrow> 'b"

record 'b hashtable =
  ht_back :: 'b
  ht_capacity :: int
  ht_size :: int

text \<open>The flat array (\<^verbatim>\<open>entry\<close>) and the array of pages (\<^verbatim>\<open>entry2\<close>) branches of \<open>hash_ent\<close>.\<close>

definition flat_ops :: "hashentry list ent_ops" where
  "flat_ops = \<lparr>ent_get = (\<lambda>b idx. b ! idx), ent_set = (\<lambda>b idx e. b[idx := e])\<rparr>"

definition paged_ops :: "nat \<Rightarrow> hashentry list list ent_ops" where
  "paged_ops pgents =
     \<lparr>ent_get = (\<lambda>b idx. b ! (idx div pgents) ! (idx mod pgents)),
      ent_set = (\<lambda>b idx e. b[idx div pgents := (b ! (idx div pgents))[idx mod pgents := e]])\<rparr>"

definition hash_ent :: "'b ent_ops \<Rightarrow> 'b hashtable \<Rightarrow> nat \<Rightarrow> hashentry" where
  "hash_ent ops t idx = ent_get ops (ht_back t) idx"

definition store_ent :: "'b ent_ops \<Rightarrow> 'b hashtable \<Rightarrow> nat \<Rightarrow> hashentry \<Rightarrow> 'b hashtable" where
  "store_ent ops t idx e = t\<lparr>ht_back := ent_set ops (ht_back t) idx e\<rparr>"

text \<open>The \<open>i\<close>-th slot probed for a key: unsigned 64-bit arithmetic, wrap-around included.\<close>

definition hash_probe :: "'b hashtable \<Rightarrow> u64 \<Rightarrow> nat \<Rightarrow> nat" where
  "hash_probe t key i = unat ((hash2 [key] LEV + of_nat i) mod of_int (ht_capacity t))"

definition key_hit :: "u64 \<Rightarrow> (u64 \<Rightarrow> bool) option \<Rightarrow> hashentry \<Rightarrow> bool" where
  "key_hit key skip e =
     (he_key e = key \<and> (case skip of None \<Rightarrow> True | Some f \<Rightarrow> \<not> f (he_val e)))"

subsection \<open>Operations\<close>

text \<open>
  The probing loop of \<open>hash_put_fn\<close>: \<open>n\<close> iterations are left, \<open>probe\<close> is the slot last looked
  at.  It ends at the first free slot or, when no slot was free, at the last one.
\<close>

fun hash_put_scan ::
  "'b ent_ops \<Rightarrow> 'b hashtable \<Rightarrow> u64 \<Rightarrow> (u64 \<Rightarrow> bool) option \<Rightarrow> nat \<Rightarrow> nat \<Rightarrow> nat \<Rightarrow> nat result"
where
  "hash_put_scan ops t key skip probe i 0 = Ok probe"
| "hash_put_scan ops t key skip probe i (Suc n) =
     (let probe = hash_probe t key i; e = hash_ent ops t probe in
      if he_key e = 0 \<or> he_key e = TOMB then Ok probe
      else if key_hit key skip e then Err E_INVAL
      else hash_put_scan ops t key skip probe (Suc i) n)"

definition hash_put_fn ::
  "'b ent_ops \<Rightarrow> 'b hashtable \<Rightarrow> u64 \<Rightarrow> u64 \<Rightarrow> (nat \<Rightarrow> u64 \<Rightarrow> u64) option
     \<Rightarrow> (u64 \<Rightarrow> bool) option \<Rightarrow> u64 result \<times> 'b hashtable"
where
  "hash_put_fn ops t key val val_fn skip =
     (if key = 0 \<or> key = TOMB then (Err E_INVAL, t)
      else if ht_size t = ht_capacity t then (Err E_NO_SPACE, t)
      else if ht_capacity t \<le> 0 then (Panic, t)
      else case hash_put_scan ops t key skip 0 0 (nat (ht_capacity t)) of
        Ok probe \<Rightarrow>
          (let oldkey = he_key (hash_ent ops t probe) in
           if oldkey \<noteq> key \<and> oldkey \<noteq> 0 \<and> oldkey \<noteq> TOMB then (Panic, t)
           else
             (let t' = (if oldkey \<noteq> key then t\<lparr>ht_size := ht_size t + 1\<rparr> else t);
                  val' = (case val_fn of None \<Rightarrow> val | Some f \<Rightarrow> f probe val)
              in (Ok val', store_ent ops t' probe \<lparr>he_key = key, he_val = val'\<rparr>)))
      | Err e \<Rightarrow> (Err e, t)
      | Panic \<Rightarrow> (Panic, t))"

definition hash_put ::
  "'b ent_ops \<Rightarrow> 'b hashtable \<Rightarrow> u64 \<Rightarrow> u64 \<Rightarrow> u64 result \<times> 'b hashtable"
where
  "hash_put ops t key val = hash_put_fn ops t key val None None"

fun hash_get_scan ::
  "'b ent_ops \<Rightarrow> 'b hashtable \<Rightarrow> u64 \<Rightarrow> (u64 \<Rightarrow> bool) option \<Rightarrow> nat \<Rightarrow> nat \<Rightarrow> u64 result"
where
  "hash_get_scan ops t key skip i 0 = Err E_NOT_FOUND"
| "hash_get_scan ops t key skip i (Suc n) =
     (let e = hash_ent ops t (hash_probe t key i) in
      if key_hit key skip e then Ok (he_val e)
      else if he_key e = 0 then Err E_NOT_FOUND
      else hash_get_scan ops t key skip (Suc i) n)"

definition hash_get_fn ::
  "'b ent_ops \<Rightarrow> 'b hashtable \<Rightarrow> u64 \<Rightarrow> (u64 \<Rightarrow> bool) option \<Rightarrow> u64 result"
where
  "hash_get_fn ops t key skip =
     (if key = 0 \<or> key = TOMB then Err E_INVAL
      else hash_get_scan ops t key skip 0 (nat (ht_capacity t)))"

definition hash_get :: "'b ent_ops \<Rightarrow> 'b hashtable \<Rightarrow> u64 \<Rightarrow> u64 result" where
  "hash_get ops t key = hash_get_fn ops t key None"

fun hash_del_scan ::
  "'b ent_ops \<Rightarrow> 'b hashtable \<Rightarrow> u64 \<Rightarrow> nat \<Rightarrow> nat \<Rightarrow> unit result \<times> 'b hashtable"
where
  "hash_del_scan ops t key i 0 = (Err E_NOT_FOUND, t)"
| "hash_del_scan ops t key i (Suc n) =
     (let probe = hash_probe t key i; e = hash_ent ops t probe in
      if he_key e = key then
        (Ok (), store_ent ops (t\<lparr>ht_size := ht_size t - 1\<rparr>) probe \<lparr>he_key = TOMB, he_val = 0\<rparr>)
      else if he_key e = 0 then (Err E_NOT_FOUND, t)
      else hash_del_scan ops t key (Suc i) n)"

definition hash_del :: "'b ent_ops \<Rightarrow> 'b hashtable \<Rightarrow> u64 \<Rightarrow> unit result \<times> 'b hashtable" where
  "hash_del ops t key =
     (if key = 0 \<or> key = TOMB then (Err E_INVAL, t)
      else hash_del_scan ops t key 0 (nat (ht_capacity t)))"

definition hash_init :: "nat \<Rightarrow> hashentry list hashtable" where
  "hash_init n = \<lparr>ht_back = replicate n null_entry, ht_capacity = int n, ht_size = 0\<rparr>"

text \<open>
  \<open>hash_init2\<close> and \<open>hash_init3\<close> take a backing whose slots hold anything and clear the first
  \<open>n\<close> of them through the backing's own access.
\<close>

definition clear_ents :: "'b ent_ops \<Rightarrow> 'b hashtable \<Rightarrow> nat \<Rightarrow> 'b hashtable" where
  "clear_ents ops t n = fold (\<lambda>i t. store_ent ops t i null_entry) [0..<n] t"

definition hash_init3 :: "'b ent_ops \<Rightarrow> 'b \<Rightarrow> nat \<Rightarrow> 'b hashtable" where
  "hash_init3 get arg n =
     clear_ents get \<lparr>ht_back = arg, ht_capacity = int n, ht_size = 0\<rparr> n"

definition hash_init2 :: "hashentry list list \<Rightarrow> nat \<Rightarrow> nat \<Rightarrow> hashentry list list hashtable" where
  "hash_init2 back n pgsize =
     clear_ents (paged_ops (pgsize div 16))
       \<lparr>ht_back = back, ht_capacity = int n, ht_size = 0\<rparr> n"

subsection \<open>Iteration\<close>

record hashiter =
  hi_index :: int
  hi_key :: u64
  hi_val :: u64

definition hashiter_init :: hashiter where
  "hashiter_init = \<lparr>hi_index = 0, hi_key = 0, hi_val = 0\<rparr>"

text \<open>\<open>n\<close> slots are left from index \<open>i\<close> on.\<close>

fun hashiter_scan :: "'b ent_ops \<Rightarrow> 'b hashtable \<Rightarrow> hashiter \<Rightarrow> nat \<Rightarrow> nat \<Rightarrow> bool \<times> hashiter" where
  "hashiter_scan ops t it i 0 = (False, it)"
| "hashiter_scan ops t it i (Suc n) =
     (let e = hash_ent ops t i in
      if he_key e \<noteq> 0 \<and> he_key e \<noteq> TOMB then
        (True, \<lparr>hi_index = int i + 1, hi_key = he_key e, hi_val = he_val e\<rparr>)
      else hashiter_scan ops t it (Suc i) n)"

definition hashiter_next :: "'b ent_ops \<Rightarrow> 'b hashtable \<Rightarrow> hashiter \<Rightarrow> bool \<times> hashiter" where
  "hashiter_next ops t it =
     hashiter_scan ops t it (nat (hi_index it)) (nat (ht_capacity t - hi_index it))"

subsection \<open>mix64 is reversible\<close>

fun unmix_round :: "nat \<Rightarrow> nat \<Rightarrow> nat \<Rightarrow> u64 \<times> u64 \<times> u64 \<Rightarrow> u64 \<times> u64 \<times> u64" where
  "unmix_round r1 l2 r3 (a, b, c) =
     (let c = (c XOR drop_bit r3 b) + b + a;
          b = (b XOR push_bit l2 a) + a + c;
          a = (a XOR drop_bit r1 c) + c + b
      in (a, b, c))"

definition unmix64 :: "u64 \<Rightarrow> u64 \<Rightarrow> u64 \<Rightarrow> u64 \<times> u64 \<times> u64" where
  "unmix64 a b c =
     unmix_round 43 9 8 (unmix_round 38 23 5 (unmix_round 35 49 11 (unmix_round 12 18 22 (a, b, c))))"

lemma xor_undo: "(x XOR y) XOR y = (x :: 'a::len word)"
  by (simp add: xor.assoc)

lemma unmix_round_mix_round: "unmix_round r1 l2 r3 (mix_round r1 l2 r3 s) = s"
  by (cases s) (simp add: Let_def xor_undo)

lemma mix_round_unmix_round: "mix_round r1 l2 r3 (unmix_round r1 l2 r3 s) = s"
  by (cases s) (simp add: Let_def xor_undo)

lemma unmix64_mix64: "(case mix64 a b c of (x, y, z) \<Rightarrow> unmix64 x y z) = (a, b, c)"
  by (simp add: mix64_def unmix64_def unmix_round_mix_round split_beta del: mix_round.simps unmix_round.simps)

lemma probe_mod:
  assumes "0 < ht_capacity t" "ht_capacity t dvd 2 ^ 64"
  shows "hash_probe t key i = (unat (hash2 [key] LEV) + i) mod nat (ht_capacity t)"
proof -
  obtain c where c: "ht_capacity t = int c"
    using assms(1) by (metis zero_less_imp_eq_int)
  with assms have c0: "0 < c" "int c dvd int (2 ^ 64)" by auto
  then have dv: "c dvd 2 ^ 64" by (simp only: int_dvd_int_iff)
  let ?s = "hash2 [key] LEV + of_nat i :: u64"
  have s: "unat ?s = (unat (hash2 [key] LEV) + i) mod 2 ^ 64"
    by (simp add: unat_word_ariths unat_of_nat mod_simps)
  have "hash_probe t key i = unat ?s mod unat (of_nat c :: u64)"
    by (simp add: hash_probe_def c unat_mod)
  also have "\<dots> = unat ?s mod c"
  proof (cases "c = 2 ^ 64")
    case True
    then have "(of_nat c :: u64) = 0" by simp
    moreover have "unat ?s < c" using True unsigned_less [of ?s] by simp
    ultimately show ?thesis by simp
  next
    case False
    with dv have "c < 2 ^ 64" by (auto dest: dvd_imp_le)
    then show ?thesis by (simp add: unat_of_nat)
  qed
  also have "\<dots> = (unat (hash2 [key] LEV) + i) mod c"
    unfolding s using dv by (rule mod_mod_cancel)
  finally show ?thesis by (simp add: c)
qed


lemma hash2_single: "hash2 [key] LEV = snd (snd (mix64 (LEV + key) LEV (0x9e3779b97f4a7c13 + 1)))"
  by (simp add: hash2_def case_prod_beta Let_def)

subsection \<open>The contract of a backing, and the table invariant\<close>

definition live :: "hashentry \<Rightarrow> bool" where
  "live e = (he_key e \<noteq> 0 \<and> he_key e \<noteq> TOMB)"

definition valid_key :: "u64 \<Rightarrow> bool" where
  "valid_key k = (k \<noteq> 0 \<and> k \<noteq> TOMB)"

definition ht_ents :: "'b ent_ops \<Rightarrow> 'b hashtable \<Rightarrow> hashentry list" where
  "ht_ents ops t = map (hash_ent ops t) [0..<nat (ht_capacity t)]"

definition ht_assocs :: "'b ent_ops \<Rightarrow> 'b hashtable \<Rightarrow> (u64 \<times> u64) list" where
  "ht_assocs ops t = map (\<lambda>e. (he_key e, he_val e)) (filter live (ht_ents ops t))"

definition ht_map :: "'b ent_ops \<Rightarrow> 'b hashtable \<Rightarrow> u64 \<rightharpoonup> u64" where
  "ht_map ops t = map_of (ht_assocs ops t)"

text \<open>
  Every live slot can be reached: it is the \<open>j\<close>-th probe of its own key for some \<open>j\<close>, and no
  earlier probe of that key meets a never-used slot, where a lookup would stop.
\<close>

definition chain_ok :: "'b ent_ops \<Rightarrow> 'b hashtable \<Rightarrow> bool" where
  "chain_ok ops t =
     (\<forall>j < nat (ht_capacity t). \<forall>key.
        he_key (hash_ent ops t (hash_probe t key j)) = key \<longrightarrow> valid_key key \<longrightarrow>
        (\<forall>l < j. he_key (hash_ent ops t (hash_probe t key l)) \<noteq> 0))"

definition ht_inv :: "'b ent_ops \<Rightarrow> ('b \<Rightarrow> nat \<Rightarrow> bool) \<Rightarrow> 'b hashtable \<Rightarrow> bool" where
  "ht_inv ops wfb t =
     (0 \<le> ht_capacity t \<and> (ht_capacity t = 0 \<or> ht_capacity t dvd 2 ^ 64) \<and>
      wfb (ht_back t) (nat (ht_capacity t)) \<and>
      ht_size t = int (length (ht_assocs ops t)) \<and>
      distinct (map fst (ht_assocs ops t)) \<and>
      chain_ok ops t)"

locale entry_store =
  fixes ops :: "'b ent_ops"
    and wfb :: "'b \<Rightarrow> nat \<Rightarrow> bool"
  assumes get_set_same: "wfb b n \<Longrightarrow> i < n \<Longrightarrow> ent_get ops (ent_set ops b i e) i = e"
    and get_set_other:
      "wfb b n \<Longrightarrow> i < n \<Longrightarrow> j < n \<Longrightarrow> i \<noteq> j \<Longrightarrow> ent_get ops (ent_set ops b i e) j = ent_get ops b j"
    and wfb_set: "wfb b n \<Longrightarrow> i < n \<Longrightarrow> wfb (ent_set ops b i e) n"

subsection \<open>Probe sequences and scans\<close>

lemma probe_less: "0 < ht_capacity t \<Longrightarrow> ht_capacity t dvd 2 ^ 64 \<Longrightarrow>
    hash_probe t key i < nat (ht_capacity t)"
  by (simp add: probe_mod)

lemma probe_inj:
  assumes "0 < ht_capacity t" "ht_capacity t dvd 2 ^ 64"
    and "i < nat (ht_capacity t)" "j < nat (ht_capacity t)"
    and "hash_probe t key i = hash_probe t key j"
  shows "i = j"
proof -
  let ?c = "nat (ht_capacity t)" and ?h = "unat (hash2 [key] LEV)"
  from assms have "(?h + i) mod ?c = (?h + j) mod ?c" by (simp add: probe_mod)
  then have "i mod ?c = j mod ?c" by (simp add: nat_mod_eq_iff)
  with assms(3,4) show ?thesis by simp
qed

lemma probe_surj:
  assumes "0 < ht_capacity t" "ht_capacity t dvd 2 ^ 64" "p < nat (ht_capacity t)"
  obtains j where "j < nat (ht_capacity t)" "hash_probe t key j = p"
proof -
  let ?C = "{..<nat (ht_capacity t)}"
  have "inj_on (hash_probe t key) ?C"
    using probe_inj [OF assms(1,2)] by (auto simp: inj_on_def)
  moreover have "hash_probe t key ` ?C \<subseteq> ?C"
    using probe_less [OF assms(1,2)] by auto
  ultimately have "hash_probe t key ` ?C = ?C"
    by (simp add: endo_inj_surj)
  with assms(3) have "p \<in> hash_probe t key ` ?C" by simp
  with that show thesis by auto
qed

lemma get_scan_found:
  "j < n \<Longrightarrow> key_hit key skip (hash_ent ops t (hash_probe t key (i + j))) \<Longrightarrow>
   (\<And>l. l < j \<Longrightarrow> he_key (hash_ent ops t (hash_probe t key (i + l))) \<noteq> 0 \<and>
        \<not> key_hit key skip (hash_ent ops t (hash_probe t key (i + l)))) \<Longrightarrow>
   hash_get_scan ops t key skip i n = Ok (he_val (hash_ent ops t (hash_probe t key (i + j))))"
proof (induction n arbitrary: i j)
  case 0
  then show ?case by simp
next
  case (Suc n)
  show ?case
  proof (cases j)
    case 0
    with Suc.prems show ?thesis by (simp add: Let_def)
  next
    case (Suc j')
    with Suc.prems(3)[of 0] have "he_key (hash_ent ops t (hash_probe t key i)) \<noteq> 0"
      "\<not> key_hit key skip (hash_ent ops t (hash_probe t key i))" by auto
    moreover have "hash_get_scan ops t key skip (Suc i) n =
        Ok (he_val (hash_ent ops t (hash_probe t key (Suc i + j'))))"
      using Suc.prems Suc by (intro Suc.IH) (auto, force+)
    ultimately show ?thesis using Suc by (simp add: Let_def)
  qed
qed

lemma get_scan_absent:
  "(\<And>l. l < n \<Longrightarrow> \<not> key_hit key skip (hash_ent ops t (hash_probe t key (i + l)))) \<Longrightarrow>
   hash_get_scan ops t key skip i n = Err E_NOT_FOUND"
proof (induction n arbitrary: i)
  case 0
  then show ?case by simp
next
  case (Suc n)
  have "hash_get_scan ops t key skip (Suc i) n = Err E_NOT_FOUND"
    using Suc.prems[of "Suc l" for l] by (intro Suc.IH) auto
  with Suc.prems[of 0] show ?case by (simp add: Let_def)
qed

lemma del_scan_found:
  "j < n \<Longrightarrow> he_key (hash_ent ops t (hash_probe t key (i + j))) = key \<Longrightarrow>
   (\<And>l. l < j \<Longrightarrow> he_key (hash_ent ops t (hash_probe t key (i + l))) \<noteq> 0 \<and>
        he_key (hash_ent ops t (hash_probe t key (i + l))) \<noteq> key) \<Longrightarrow>
   hash_del_scan ops t key i n =
     (Ok (), store_ent ops (t\<lparr>ht_size := ht_size t - 1\<rparr>) (hash_probe t key (i + j))
               \<lparr>he_key = TOMB, he_val = 0\<rparr>)"
proof (induction n arbitrary: i j)
  case 0
  then show ?case by simp
next
  case (Suc n)
  show ?case
  proof (cases j)
    case 0
    with Suc.prems show ?thesis by (simp add: Let_def)
  next
    case (Suc j')
    with Suc.prems(3)[of 0] have "he_key (hash_ent ops t (hash_probe t key i)) \<noteq> 0"
      "he_key (hash_ent ops t (hash_probe t key i)) \<noteq> key" by auto
    moreover have "hash_del_scan ops t key (Suc i) n =
        (Ok (), store_ent ops (t\<lparr>ht_size := ht_size t - 1\<rparr>) (hash_probe t key (Suc i + j'))
               \<lparr>he_key = TOMB, he_val = 0\<rparr>)"
      using Suc.prems Suc by (intro Suc.IH) (auto, force+)
    ultimately show ?thesis using Suc by (simp add: Let_def)
  qed
qed

lemma del_scan_absent:
  "(\<And>l. l < n \<Longrightarrow> he_key (hash_ent ops t (hash_probe t key (i + l))) \<noteq> key) \<Longrightarrow>
   hash_del_scan ops t key i n = (Err E_NOT_FOUND, t)"
proof (induction n arbitrary: i)
  case 0
  then show ?case by simp
next
  case (Suc n)
  have "hash_del_scan ops t key (Suc i) n = (Err E_NOT_FOUND, t)"
    using Suc.prems[of "Suc l" for l] by (intro Suc.IH) auto
  with Suc.prems[of 0] show ?case by (simp add: Let_def)
qed

lemma put_scan_free:
  "j < n \<Longrightarrow> \<not> live (hash_ent ops t (hash_probe t key (i + j))) \<Longrightarrow>
   (\<And>l. l < j \<Longrightarrow> live (hash_ent ops t (hash_probe t key (i + l))) \<and>
        \<not> key_hit key skip (hash_ent ops t (hash_probe t key (i + l)))) \<Longrightarrow>
   hash_put_scan ops t key skip p i n = Ok (hash_probe t key (i + j))"
proof (induction n arbitrary: i j p)
  case 0
  then show ?case by simp
next
  case (Suc n)
  show ?case
  proof (cases j)
    case 0
    with Suc.prems show ?thesis by (simp add: Let_def live_def)
  next
    case (Suc j')
    with Suc.prems(3)[of 0] have "live (hash_ent ops t (hash_probe t key i))"
      "\<not> key_hit key skip (hash_ent ops t (hash_probe t key i))" by auto
    moreover have "hash_put_scan ops t key skip (hash_probe t key i) (Suc i) n =
        Ok (hash_probe t key (Suc i + j'))"
      using Suc.prems Suc by (intro Suc.IH) (auto, force+)
    ultimately show ?thesis using Suc by (simp add: Let_def live_def)
  qed
qed

lemma put_scan_hit:
  "j < n \<Longrightarrow> key_hit key skip (hash_ent ops t (hash_probe t key (i + j))) \<Longrightarrow>
   (\<And>l. l \<le> j \<Longrightarrow> live (hash_ent ops t (hash_probe t key (i + l)))) \<Longrightarrow>
   (\<And>l. l < j \<Longrightarrow> \<not> key_hit key skip (hash_ent ops t (hash_probe t key (i + l)))) \<Longrightarrow>
   hash_put_scan ops t key skip p i n = Err E_INVAL"
proof (induction n arbitrary: i j p)
  case 0
  then show ?case by simp
next
  case (Suc n)
  show ?case
  proof (cases j)
    case 0
    with Suc.prems(2) Suc.prems(3)[of 0] show ?thesis by (simp add: Let_def live_def)
  next
    case (Suc j')
    have "live (hash_ent ops t (hash_probe t key i))"
      "\<not> key_hit key skip (hash_ent ops t (hash_probe t key i))"
      using Suc.prems(3)[of 0] Suc.prems(4)[of 0] Suc by auto
    moreover have "hash_put_scan ops t key skip (hash_probe t key i) (Suc i) n = Err E_INVAL"
      using Suc.prems(1,2) Suc.prems(3,4)[of "Suc l" for l] Suc
      by (intro Suc.IH [of j']) auto
    ultimately show ?thesis by (simp add: Let_def live_def)
  qed
qed

subsection \<open>The table as a finite map\<close>

lemma ht_capacity_store [simp]:
  "ht_capacity (store_ent ops t i e) = ht_capacity t" "ht_size (store_ent ops t i e) = ht_size t"
  by (simp_all add: store_ent_def)

lemma hash_probe_store [simp]: "hash_probe (store_ent ops t i e) = hash_probe t"
  by (intro ext) (simp add: hash_probe_def)

lemma hash_probe_size [simp]: "hash_probe (t\<lparr>ht_size := n\<rparr>) = hash_probe t"
  by (intro ext) (simp add: hash_probe_def)

lemma hash_ent_size [simp]: "hash_ent ops (t\<lparr>ht_size := n\<rparr>) = hash_ent ops t"
  by (intro ext) (simp add: hash_ent_def)

lemma ht_ents_size [simp]: "ht_ents ops (t\<lparr>ht_size := n\<rparr>) = ht_ents ops t"
  by (simp add: ht_ents_def)

lemma ht_assocs_size [simp]: "ht_assocs ops (t\<lparr>ht_size := n\<rparr>) = ht_assocs ops t"
  by (simp add: ht_assocs_def)

lemma set_ht_assocs:
  "(k, v) \<in> set (ht_assocs ops t) \<longleftrightarrow>
     (\<exists>p < nat (ht_capacity t). live (hash_ent ops t p) \<and>
        he_key (hash_ent ops t p) = k \<and> he_val (hash_ent ops t p) = v)"
  by (auto simp: ht_assocs_def ht_ents_def)

lemma ht_map_Some_iff:
  assumes "distinct (map fst (ht_assocs ops t))"
  shows "ht_map ops t k = Some v \<longleftrightarrow>
     (\<exists>p < nat (ht_capacity t). live (hash_ent ops t p) \<and>
        he_key (hash_ent ops t p) = k \<and> he_val (hash_ent ops t p) = v)"
  using assms by (simp add: ht_map_def set_ht_assocs [symmetric])

lemma ht_map_None_iff:
  "ht_map ops t k = None \<longleftrightarrow>
     (\<forall>p < nat (ht_capacity t). live (hash_ent ops t p) \<longrightarrow> he_key (hash_ent ops t p) \<noteq> k)"
  by (auto simp: ht_map_def map_of_eq_None_iff ht_assocs_def ht_ents_def image_image)

lemma live_valid_key: "live e \<longleftrightarrow> valid_key (he_key e)"
  by (simp add: live_def valid_key_def)

lemma map_of_insert_mid:
  "k \<notin> fst ` set as \<Longrightarrow> map_of (as @ (k, x) # bs) = (map_of (as @ bs))(k \<mapsto> x)"
  by (induction as) auto

lemma map_of_remove_mid:
  "k \<notin> fst ` set as \<Longrightarrow> k \<notin> fst ` set bs \<Longrightarrow>
   map_of (as @ bs) = (map_of (as @ (k, x) # bs))(k := None)"
proof (induction as)
  case Nil
  then show ?case by (auto simp: fun_eq_iff map_of_eq_None_iff)
qed auto

lemma filter_update:
  "i < length xs \<Longrightarrow>
   filter P (xs[i := e]) = filter P (take i xs) @ (if P e then [e] else []) @ filter P (drop (Suc i) xs)"
  by (simp add: upd_conv_take_nth_drop)

lemma filter_nth_split:
  "i < length xs \<Longrightarrow>
   filter P xs = filter P (take i xs) @ (if P (xs ! i) then [xs ! i] else []) @ filter P (drop (Suc i) xs)"
  using filter_update [of i xs P "xs ! i"] by simp

lemma ht_inv_capacity:
  assumes "ht_inv ops wfb t" "p < nat (ht_capacity t)"
  shows "0 < ht_capacity t" "ht_capacity t dvd 2 ^ 64"
  using assms by (auto simp: ht_inv_def)

lemma same_slot:
  assumes "distinct (map fst (ht_assocs ops t))"
    and "p < nat (ht_capacity t)" "q < nat (ht_capacity t)"
    and "live (hash_ent ops t p)" "he_key (hash_ent ops t p) = he_key (hash_ent ops t q)"
  shows "p = q"
proof (rule ccontr)
  assume "p \<noteq> q"
  define xs where "xs = ht_ents ops t"
  define a where "a = min p q"
  define b where "b = max p q"
  have ab: "a < b" "b < length xs" using \<open>p \<noteq> q\<close> assms(2,3) by (auto simp: a_def b_def xs_def ht_ents_def)
  have nth: "xs ! i = hash_ent ops t i" if "i < nat (ht_capacity t)" for i
    using that by (simp add: xs_def ht_ents_def)
  have lv: "live (xs ! a)" "live (xs ! b)" "he_key (xs ! a) = he_key (xs ! b)"
    using assms(2-5) by (auto simp: a_def b_def nth min_def max_def live_valid_key)
  have "xs ! b \<in> set (drop (Suc a) xs)"
    using ab by (auto simp: in_set_conv_nth intro!: exI [of _ "b - Suc a"])
  then have "he_key (xs ! b) \<in> he_key ` set (filter live (drop (Suc a) xs))"
    using lv by simp
  moreover have "distinct (map he_key (filter live xs))"
    using assms(1) by (simp add: ht_assocs_def xs_def comp_def)
  ultimately show False
    using lv ab filter_nth_split [of a xs live] by simp
qed

context entry_store
begin

lemma hash_ent_store:
  "wfb (ht_back t) n \<Longrightarrow> i < n \<Longrightarrow> j < n \<Longrightarrow>
   hash_ent ops (store_ent ops t i e) j = (if j = i then e else hash_ent ops t j)"
  by (simp add: hash_ent_def store_ent_def get_set_same get_set_other)

lemma ht_ents_store:
  assumes "wfb (ht_back t) (nat (ht_capacity t))" "i < nat (ht_capacity t)"
  shows "ht_ents ops (store_ent ops t i e) = (ht_ents ops t)[i := e]"
  using assms by (intro nth_equalityI) (auto simp: ht_ents_def hash_ent_store nth_list_update)

lemma get_present:
  assumes inv: "ht_inv ops wfb t" and v: "valid_key k" and m: "ht_map ops t k = Some v"
  shows "\<exists>j < nat (ht_capacity t).
     he_key (hash_ent ops t (hash_probe t k j)) = k \<and> he_val (hash_ent ops t (hash_probe t k j)) = v \<and>
     (\<forall>l < j. he_key (hash_ent ops t (hash_probe t k l)) \<noteq> 0 \<and> he_key (hash_ent ops t (hash_probe t k l)) \<noteq> k)"
proof -
  have d: "distinct (map fst (ht_assocs ops t))" using inv by (simp add: ht_inv_def)
  obtain p where p: "p < nat (ht_capacity t)" "live (hash_ent ops t p)"
    "he_key (hash_ent ops t p) = k" "he_val (hash_ent ops t p) = v"
    using m unfolding ht_map_Some_iff [OF d] by auto
  note cap = ht_inv_capacity [OF inv p(1)]
  obtain j where j: "j < nat (ht_capacity t)" "hash_probe t k j = p"
    using probe_surj [OF cap p(1)] by blast
  have "he_key (hash_ent ops t (hash_probe t k l)) \<noteq> 0 \<and> he_key (hash_ent ops t (hash_probe t k l)) \<noteq> k"
    if "l < j" for l
  proof
    show "he_key (hash_ent ops t (hash_probe t k l)) \<noteq> 0"
      using inv that j p(3) v by (auto simp: ht_inv_def chain_ok_def)
    show "he_key (hash_ent ops t (hash_probe t k l)) \<noteq> k"
    proof
      assume "he_key (hash_ent ops t (hash_probe t k l)) = k"
      then have "p = hash_probe t k l"
        using p probe_less [OF cap] by (intro same_slot [OF d]) auto
      with j that probe_inj [OF cap, of l j k] show False by auto
    qed
  qed
  with j p show ?thesis by (intro exI [of _ j]) auto
qed

lemma get_correct:
  assumes inv: "ht_inv ops wfb t" and v: "valid_key k"
  shows "hash_get ops t k = (case ht_map ops t k of None \<Rightarrow> Err E_NOT_FOUND | Some x \<Rightarrow> Ok x)"
proof (cases "ht_map ops t k")
  case None
  have "\<not> key_hit k None (hash_ent ops t (hash_probe t k (0 + l)))" if "l < nat (ht_capacity t)" for l
    using None v probe_less [OF ht_inv_capacity [OF inv that], of k l] unfolding ht_map_None_iff
    by (auto simp: key_hit_def live_valid_key)
  then have "hash_get_scan ops t k None 0 (nat (ht_capacity t)) = Err E_NOT_FOUND"
    by (rule get_scan_absent)
  with None v show ?thesis by (simp add: hash_get_def hash_get_fn_def valid_key_def)
next
  case (Some x)
  from get_present [OF inv v Some] obtain j where j: "j < nat (ht_capacity t)"
    "he_key (hash_ent ops t (hash_probe t k j)) = k" "he_val (hash_ent ops t (hash_probe t k j)) = x"
    "\<forall>l < j. he_key (hash_ent ops t (hash_probe t k l)) \<noteq> 0 \<and> he_key (hash_ent ops t (hash_probe t k l)) \<noteq> k"
    by blast
  then have "hash_get_scan ops t k None 0 (nat (ht_capacity t)) = Ok x"
    using get_scan_found [of j "nat (ht_capacity t)" k None ops t 0] by (simp add: key_hit_def)
  with Some v show ?thesis by (simp add: hash_get_def hash_get_fn_def valid_key_def)
qed

text \<open>A write of one slot, as seen through the association list of the live slots.\<close>

lemma assocs_store:
  assumes "wfb (ht_back t) (nat (ht_capacity t))" "i < nat (ht_capacity t)"
  shows "\<exists>as bs.
     ht_assocs ops t = as @ (if live (hash_ent ops t i)
        then [(he_key (hash_ent ops t i), he_val (hash_ent ops t i))] else []) @ bs \<and>
     ht_assocs ops (store_ent ops t i e) = as @ (if live e then [(he_key e, he_val e)] else []) @ bs"
proof -
  let ?f = "\<lambda>e. (he_key e, he_val e)" and ?xs = "ht_ents ops t"
  have i: "i < length ?xs" "?xs ! i = hash_ent ops t i" using assms(2) by (simp_all add: ht_ents_def)
  show ?thesis
    unfolding ht_assocs_def ht_ents_store [OF assms] filter_update [OF i(1)]
    by (subst filter_nth_split [OF i(1)], unfold i(2))
      (intro exI [of _ "map ?f (filter live (take i ?xs))"]
         exI [of _ "map ?f (filter live (drop (Suc i) ?xs))"], simp)
qed

text \<open>Writing a slot with a nonzero key cannot cut a probe chain of another key.\<close>

lemma chain_store:
  assumes "wfb (ht_back t) (nat (ht_capacity t))" "0 < ht_capacity t" "ht_capacity t dvd 2 ^ 64"
    and "chain_ok ops t" "p < nat (ht_capacity t)" "he_key e \<noteq> 0"
    and new: "valid_key (he_key e) \<Longrightarrow> \<exists>j < nat (ht_capacity t). p = hash_probe t (he_key e) j \<and>
           (\<forall>l < j. he_key (hash_ent ops t (hash_probe t (he_key e) l)) \<noteq> 0)"
  shows "chain_ok ops (store_ent ops t p e)"
  unfolding chain_ok_def
proof (intro allI impI)
  fix j key l
  let ?t = "store_ent ops t p e"
  assume j: "j < nat (ht_capacity ?t)" and l: "l < j" and v: "valid_key key"
    and k: "he_key (hash_ent ops ?t (hash_probe ?t key j)) = key"
  note pl = probe_less [OF assms(2,3)]
  note he = hash_ent_store [OF assms(1) assms(5) pl]
  show "he_key (hash_ent ops ?t (hash_probe ?t key l)) \<noteq> 0"
  proof (cases "hash_probe t key j = p")
    case True
    then have ke: "key = he_key e" using k hash_ent_store [OF assms(1) assms(5) assms(5)] by simp
    from new [folded ke, OF v] obtain j' where j': "j' < nat (ht_capacity t)" "p = hash_probe t key j'"
      "\<forall>l < j'. he_key (hash_ent ops t (hash_probe t key l)) \<noteq> 0" by blast
    have eq: "hash_probe t key j' = hash_probe t key j" using True j'(2) by (rule trans [symmetric])
    have "j' = j" by (rule probe_inj [OF assms(2,3) j'(1) _ eq]) (use j in simp)
    then show ?thesis using j'(3) l assms(6) by (simp add: he)
  next
    case False
    then have "he_key (hash_ent ops t (hash_probe t key j)) = key" using k by (simp add: he)
    then have "he_key (hash_ent ops t (hash_probe t key l)) \<noteq> 0"
      using assms(4) j l v by (auto simp: chain_ok_def)
    with assms(6) show ?thesis by (simp add: he)
  qed
qed

lemma free_slot_exists:
  assumes inv: "ht_inv ops wfb t" and "ht_size t < ht_capacity t"
  shows "\<exists>j < nat (ht_capacity t). \<not> live (hash_ent ops t (hash_probe t k j))"
proof (rule ccontr)
  assume neg: "\<not> ?thesis"
  have cap: "0 < ht_capacity t" "ht_capacity t dvd 2 ^ 64" using assms by (auto simp: ht_inv_def)
  have "live (hash_ent ops t p)" if p: "p < nat (ht_capacity t)" for p
    using probe_surj [OF cap p, of k] neg by blast
  then have "filter live (ht_ents ops t) = ht_ents ops t" by (auto simp: ht_ents_def)
  then have "length (ht_assocs ops t) = nat (ht_capacity t)" by (simp add: ht_assocs_def ht_ents_def)
  with assms cap show False by (simp add: ht_inv_def)
qed

lemma put_fresh:
  assumes inv: "ht_inv ops wfb t" and v: "valid_key k" and fresh: "ht_map ops t k = None"
    and room: "ht_size t < ht_capacity t"
  obtains t' where "hash_put ops t k x = (Ok x, t')" "ht_inv ops wfb t'"
    "ht_map ops t' = (ht_map ops t)(k \<mapsto> x)" "ht_size t' = ht_size t + 1"
    "ht_capacity t' = ht_capacity t"
proof -
  let ?c = "nat (ht_capacity t)" and ?p = "hash_probe t k"
  have cap: "0 < ht_capacity t" "ht_capacity t dvd 2 ^ 64" and w: "wfb (ht_back t) ?c"
    and ch: "chain_ok ops t" and sz: "ht_size t = int (length (ht_assocs ops t))"
    and d: "distinct (map fst (ht_assocs ops t))"
    using assms by (auto simp: ht_inv_def)
  note pl = probe_less [OF cap, of k]
  define j where "j = (LEAST j. \<not> live (hash_ent ops t (?p j)))"
  obtain j0 where j0: "j0 < ?c" "\<not> live (hash_ent ops t (?p j0))"
    using free_slot_exists [OF inv room] by blast
  have jf: "\<not> live (hash_ent ops t (?p j))" unfolding j_def by (rule LeastI [of _ j0]) (rule j0)
  have "j \<le> j0" unfolding j_def by (rule Least_le) (rule j0)
  with j0 have jc: "j < ?c" by simp
  have lv: "live (hash_ent ops t (?p l))" if "l < j" for l
    using not_less_Least [of l "\<lambda>j. \<not> live (hash_ent ops t (?p j))"] that by (auto simp: j_def)
  have nk: "he_key (hash_ent ops t (?p l)) \<noteq> k" for l
    using fresh v pl [of l] unfolding ht_map_None_iff by (auto simp: live_valid_key)
  have sc: "hash_put_scan ops t k None 0 0 ?c = Ok (?p j)"
    using put_scan_free [of j ?c ops t k 0 None 0] jc jf lv nk by (simp add: key_hit_def)
  let ?e = "\<lparr>he_key = k, he_val = x\<rparr>"
  define t' where "t' = store_ent ops (t\<lparr>ht_size := ht_size t + 1\<rparr>) (?p j) ?e"
  have "live ?e" using v by (simp add: live_valid_key)
  then obtain as bs where ab: "ht_assocs ops t = as @ bs" "ht_assocs ops t' = as @ (k, x) # bs"
    using assocs_store [of "t\<lparr>ht_size := ht_size t + 1\<rparr>" "?p j" ?e] w pl jf
    by (auto simp: t'_def)
  have fr: "k \<notin> fst ` set as" "k \<notin> fst ` set bs"
    using fresh by (auto simp: ht_map_def map_of_eq_None_iff ab(1) image_Un)
  have "hash_put ops t k x = (Ok x, t')"
    using sc room cap v jf nk [of j] by (simp add: hash_put_def hash_put_fn_def t'_def valid_key_def live_def Let_def)
  moreover have "chain_ok ops t'"
    unfolding t'_def
  proof (rule chain_store)
    show "chain_ok ops (t\<lparr>ht_size := ht_size t + 1\<rparr>)" using ch by (simp add: chain_ok_def)
    show "\<exists>j' < nat (ht_capacity (t\<lparr>ht_size := ht_size t + 1\<rparr>)).
        ?p j = hash_probe (t\<lparr>ht_size := ht_size t + 1\<rparr>) (he_key ?e) j' \<and>
        (\<forall>l < j'. he_key (hash_ent ops (t\<lparr>ht_size := ht_size t + 1\<rparr>)
           (hash_probe (t\<lparr>ht_size := ht_size t + 1\<rparr>) (he_key ?e) l)) \<noteq> 0)"
      using jc lv by (intro exI [of _ j]) (auto simp: live_def)
  qed (use w cap pl v in \<open>auto simp: valid_key_def\<close>)
  then have "ht_inv ops wfb t'"
    using cap w pl sz d ab fr wfb_set [OF w pl]
    by (simp add: ht_inv_def t'_def store_ent_def)
  moreover have "ht_map ops t' = (ht_map ops t)(k \<mapsto> x)"
    using fr unfolding ht_map_def ab by (intro map_of_insert_mid)
  ultimately show thesis using that by (simp add: t'_def)
qed

lemma del_present:
  assumes inv: "ht_inv ops wfb t" and v: "valid_key k" and m: "ht_map ops t k = Some x"
  obtains t' where "hash_del ops t k = (Ok (), t')" "ht_inv ops wfb t'"
    "ht_map ops t' = (ht_map ops t)(k := None)" "ht_size t' = ht_size t - 1"
    "ht_capacity t' = ht_capacity t"
proof -
  let ?c = "nat (ht_capacity t)" and ?p = "hash_probe t k" and ?tmb = "\<lparr>he_key = TOMB, he_val = 0\<rparr>"
  from get_present [OF inv v m] obtain j where j: "j < ?c"
    "he_key (hash_ent ops t (?p j)) = k" "he_val (hash_ent ops t (?p j)) = x"
    "\<forall>l < j. he_key (hash_ent ops t (?p l)) \<noteq> 0 \<and> he_key (hash_ent ops t (?p l)) \<noteq> k" by blast
  note cap = ht_inv_capacity [OF inv j(1)]
  have w: "wfb (ht_back t) ?c" and ch: "chain_ok ops t" and sz: "ht_size t = int (length (ht_assocs ops t))"
    and d: "distinct (map fst (ht_assocs ops t))" using inv by (auto simp: ht_inv_def)
  note pl = probe_less [OF cap, of k]
  define t' where "t' = store_ent ops (t\<lparr>ht_size := ht_size t - 1\<rparr>) (?p j) ?tmb"
  have "hash_del_scan ops t k 0 ?c = (Ok (), t')"
    using del_scan_found [of j ?c ops t k 0] j by (simp add: t'_def)
  then have "hash_del ops t k = (Ok (), t')" using v by (simp add: hash_del_def valid_key_def)
  moreover obtain as bs where ab: "ht_assocs ops t = as @ (k, x) # bs" "ht_assocs ops t' = as @ bs"
    using assocs_store [of "t\<lparr>ht_size := ht_size t - 1\<rparr>" "?p j" ?tmb] w pl j v
    by (auto simp: t'_def live_valid_key) (auto simp: valid_key_def)
  moreover have "chain_ok ops t'"
    unfolding t'_def
    by (rule chain_store) (use w cap pl ch in \<open>auto simp: valid_key_def TOMB_def chain_ok_def\<close>)
  then have "ht_inv ops wfb t'"
    using cap w sz d ab wfb_set [OF w pl] by (auto simp: ht_inv_def t'_def store_ent_def)
  moreover have "ht_map ops t' = (ht_map ops t)(k := None)"
    using d unfolding ht_map_def ab by (intro map_of_remove_mid) auto
  ultimately show thesis using that by (simp add: t'_def)
qed

lemma del_absent:
  assumes inv: "ht_inv ops wfb t" and v: "valid_key k" and m: "ht_map ops t k = None"
  shows "hash_del ops t k = (Err E_NOT_FOUND, t)"
proof -
  have "he_key (hash_ent ops t (hash_probe t k (0 + l))) \<noteq> k" if "l < nat (ht_capacity t)" for l
    using m v probe_less [OF ht_inv_capacity [OF inv that], of k l] unfolding ht_map_None_iff
    by (auto simp: live_valid_key)
  then show ?thesis using v del_scan_absent [of "nat (ht_capacity t)" ops t k 0]
    by (simp add: hash_del_def valid_key_def)
qed

lemma put_full: "ht_inv ops wfb t \<Longrightarrow> valid_key k \<Longrightarrow> ht_size t = ht_capacity t \<Longrightarrow>
    hash_put ops t k x = (Err E_NO_SPACE, t)"
  by (simp add: hash_put_def hash_put_fn_def valid_key_def)

lemma put_existing:
  assumes inv: "ht_inv ops wfb t" and v: "valid_key k" and m: "ht_map ops t k = Some y"
    and no_tomb: "\<And>p. p < nat (ht_capacity t) \<Longrightarrow> he_key (hash_ent ops t p) \<noteq> TOMB"
    and room: "ht_size t < ht_capacity t"
  shows "hash_put ops t k x = (Err E_INVAL, t)"
proof -
  let ?c = "nat (ht_capacity t)" and ?p = "hash_probe t k"
  from get_present [OF inv v m] obtain j where j: "j < ?c" "he_key (hash_ent ops t (?p j)) = k"
    "\<forall>l < j. he_key (hash_ent ops t (?p l)) \<noteq> 0 \<and> he_key (hash_ent ops t (?p l)) \<noteq> k" by blast
  note cap = ht_inv_capacity [OF inv j(1)]
  have "live (hash_ent ops t (?p (0 + l)))" if "l \<le> j" for l
    using that j v no_tomb [OF probe_less [OF cap, of k l]]
    by (cases "l = j") (auto simp: live_def valid_key_def)
  then have "hash_put_scan ops t k None 0 0 ?c = Err E_INVAL"
    using put_scan_hit [of j ?c k None ops t 0 0] j by (simp add: key_hit_def)
  with v room cap show ?thesis by (simp add: hash_put_def hash_put_fn_def valid_key_def)
qed

lemma clear_ents_spec:
  assumes "wfb (ht_back t) n" "m \<le> n"
  shows "wfb (ht_back (clear_ents ops t m)) n \<and>
     ht_capacity (clear_ents ops t m) = ht_capacity t \<and> ht_size (clear_ents ops t m) = ht_size t \<and>
     (\<forall>i < m. hash_ent ops (clear_ents ops t m) i = null_entry)"
  using assms(2)
proof (induction m)
  case 0
  then show ?case using assms(1) by (simp add: clear_ents_def)
next
  case (Suc m)
  let ?u = "clear_ents ops t m"
  have u: "clear_ents ops t (Suc m) = store_ent ops ?u m null_entry" by (simp add: clear_ents_def)
  from Suc have IH: "wfb (ht_back ?u) n" "\<forall>i < m. hash_ent ops ?u i = null_entry" by auto
  then have "\<forall>i < Suc m. hash_ent ops (store_ent ops ?u m null_entry) i = null_entry"
    using Suc.prems by (auto simp: hash_ent_store less_Suc_eq)
  moreover have "wfb (ht_back (store_ent ops ?u m null_entry)) n"
    using IH Suc.prems by (simp add: store_ent_def wfb_set)
  ultimately show ?case using Suc by (simp add: u)
qed

lemma empty_table_inv:
  assumes "wfb (ht_back t) n" "ht_capacity t = int n" "ht_size t = 0" "n = 0 \<or> int n dvd 2 ^ 64"
    and "\<forall>i < n. hash_ent ops t i = null_entry"
  shows "ht_inv ops wfb t \<and> ht_map ops t = Map.empty"
proof -
  have "filter live (ht_ents ops t) = []"
    using assms by (auto simp: ht_ents_def filter_empty_conv live_def null_entry_def)
  then have a: "ht_assocs ops t = []" by (simp add: ht_assocs_def)
  have "chain_ok ops t"
    unfolding chain_ok_def
  proof (intro allI impI)
    fix j key l
    assume "j < nat (ht_capacity t)" "he_key (hash_ent ops t (hash_probe t key j)) = key" "valid_key key"
    with assms probe_less [of t key j] show "he_key (hash_ent ops t (hash_probe t key l)) \<noteq> 0"
      by (auto simp: null_entry_def valid_key_def)
  qed
  with a assms show ?thesis by (auto simp: ht_inv_def ht_map_def)
qed

lemma init3_correct:
  assumes "wfb b n" "n = 0 \<or> int n dvd 2 ^ 64"
  shows "ht_inv ops wfb (hash_init3 ops b n) \<and> ht_map ops (hash_init3 ops b n) = Map.empty"
  using assms clear_ents_spec [of "\<lparr>ht_back = b, ht_capacity = int n, ht_size = 0\<rparr>" n n]
  by (intro empty_table_inv [of _ n]) (auto simp: hash_init3_def)

end

subsection \<open>The flat and the paged backing\<close>

definition flat_wf :: "hashentry list \<Rightarrow> nat \<Rightarrow> bool" where
  "flat_wf b n = (n \<le> length b)"

definition paged_wf :: "nat \<Rightarrow> hashentry list list \<Rightarrow> nat \<Rightarrow> bool" where
  "paged_wf pgents b n = (0 < pgents \<and> n \<le> pgents * length b \<and> (\<forall>pg \<in> set b. length pg = pgents))"

interpretation flat: entry_store flat_ops flat_wf
  by unfold_locales (auto simp: flat_ops_def flat_wf_def)

interpretation paged: entry_store "paged_ops pgents" "paged_wf pgents" for pgents
proof
  fix b :: "hashentry list list" and n i j e
  assume w: "paged_wf pgents b n" and i: "i < n"
  have pg: "k div pgents < length b" "k mod pgents < length (b ! (k div pgents))" if "k < n" for k
  proof -
    show l: "k div pgents < length b"
      using w that by (auto simp: paged_wf_def less_mult_imp_div_less mult.commute)
    show "k mod pgents < length (b ! (k div pgents))"
      using w l by (auto simp: paged_wf_def)
  qed
  show "ent_get (paged_ops pgents) (ent_set (paged_ops pgents) b i e) i = e"
    using pg [OF i] by (simp add: paged_ops_def)
  show "paged_wf pgents (ent_set (paged_ops pgents) b i e) n"
    using w pg [OF i] by (auto simp: paged_ops_def paged_wf_def all_set_conv_all_nth nth_list_update)
  assume j: "j < n" "i \<noteq> j"
  then have "i div pgents \<noteq> j div pgents \<or> i mod pgents \<noteq> j mod pgents"
    by (metis div_mult_mod_eq)
  then show "ent_get (paged_ops pgents) (ent_set (paged_ops pgents) b i e) j = ent_get (paged_ops pgents) b j"
    using pg [OF i] pg [OF j(1)] by (auto simp: paged_ops_def nth_list_update)
qed

subsection \<open>Iteration visits every live slot once\<close>

text \<open>
  The client loop \<open>while (hashiter_next(&iter))\<close>, collecting what it visits; \<open>n\<close> bounds the
  number of rounds.
\<close>

fun hash_iterate :: "'b ent_ops \<Rightarrow> 'b hashtable \<Rightarrow> hashiter \<Rightarrow> nat \<Rightarrow> (u64 \<times> u64) list" where
  "hash_iterate ops t it 0 = []"
| "hash_iterate ops t it (Suc n) =
     (let (more, it') = hashiter_next ops t it in
      if more then (hi_key it', hi_val it') # hash_iterate ops t it' n else [])"

lemma hashiter_scan_spec:
  "hashiter_scan ops t it i n =
     (case filter (\<lambda>p. live (hash_ent ops t p)) [i..<i + n] of
        [] \<Rightarrow> (False, it)
      | p # _ \<Rightarrow> (True, \<lparr>hi_index = int p + 1, hi_key = he_key (hash_ent ops t p),
                        hi_val = he_val (hash_ent ops t p)\<rparr>))"
proof (induction n arbitrary: i)
  case (Suc n)
  have "[i..<i + Suc n] = i # [Suc i..<Suc i + n]" by (simp add: upt_conv_Cons)
  then show ?case using Suc by (simp add: Let_def live_def)
qed simp

lemma filter_upt_tail:
  "filter P [i..<m] = p # ps \<Longrightarrow> i \<le> p \<and> p < m \<and> ps = filter P [Suc p..<m]"
proof (induction "m - i" arbitrary: i)
  case (Suc d)
  then have im: "i < m" by simp
  then have "[i..<m] = i # [Suc i..<m]" by (simp add: upt_conv_Cons)
  with Suc im show ?case by (cases "P i") (force simp: Suc_le_eq)+
qed simp

lemma hash_iterate_spec:
  "0 \<le> hi_index it \<Longrightarrow> ht_capacity t - hi_index it < int n \<Longrightarrow>
   hash_iterate ops t it n =
     map (\<lambda>p. (he_key (hash_ent ops t p), he_val (hash_ent ops t p)))
       (filter (\<lambda>p. live (hash_ent ops t p)) [nat (hi_index it)..<nat (ht_capacity t)])"
proof (induction n arbitrary: it)
  case 0
  then show ?case by simp
next
  case (Suc n)
  let ?i = "nat (hi_index it)" and ?L = "\<lambda>p. live (hash_ent ops t p)"
  have up: "filter ?L [?i..<?i + nat (ht_capacity t - hi_index it)] = filter ?L [?i..<nat (ht_capacity t)]"
    using Suc.prems(1) by (cases "hi_index it \<le> ht_capacity t") (auto simp: nat_add_distrib [symmetric])
  show ?case
  proof (cases "filter ?L [?i..<nat (ht_capacity t)]")
    case Nil
    then show ?thesis by (simp add: hashiter_next_def hashiter_scan_spec up Let_def)
  next
    case (Cons p ps)
    let ?it = "\<lparr>hi_index = int p + 1, hi_key = he_key (hash_ent ops t p), hi_val = he_val (hash_ent ops t p)\<rparr>"
    note ft = filter_upt_tail [OF Cons]
    have "hash_iterate ops t ?it n =
      map (\<lambda>p. (he_key (hash_ent ops t p), he_val (hash_ent ops t p)))
       (filter ?L [nat (hi_index ?it)..<nat (ht_capacity t)])"
      using ft Suc.prems by (intro Suc.IH) auto
    moreover have "nat (hi_index ?it) = Suc p" by simp
    ultimately show ?thesis
      using ft by (simp add: hashiter_next_def hashiter_scan_spec up Cons)
  qed
qed

lemma ht_assocs_alt:
  "ht_assocs ops t = map (\<lambda>p. (he_key (hash_ent ops t p), he_val (hash_ent ops t p)))
       (filter (\<lambda>p. live (hash_ent ops t p)) [0..<nat (ht_capacity t)])"
  by (simp add: ht_assocs_def ht_ents_def filter_map comp_def)

subsection \<open>Runs of operations against a finite map\<close>

text \<open>
  A client's calls in sequence, on the table and on the finite map it stands for.  A bounded
  map of \<open>cap\<close> keys is all the client may rely on; a put of a key that is present is left out
  of the contract (see \<open>disciplined\<close>), since the table does not always notice it.
\<close>

datatype hash_op = HGet u64 | HPut u64 u64 | HDel u64

fun hash_apply :: "'b ent_ops \<Rightarrow> hash_op \<Rightarrow> 'b hashtable \<Rightarrow> u64 result \<times> 'b hashtable" where
  "hash_apply ops (HGet k) t = (hash_get ops t k, t)"
| "hash_apply ops (HPut k v) t = hash_put ops t k v"
| "hash_apply ops (HDel k) t =
     (case hash_del ops t k of
        (Ok _, t') \<Rightarrow> (Ok 0, t') | (Err e, t') \<Rightarrow> (Err e, t') | (Panic, t') \<Rightarrow> (Panic, t'))"

fun map_apply :: "nat \<Rightarrow> hash_op \<Rightarrow> (u64 \<rightharpoonup> u64) \<Rightarrow> u64 result \<times> (u64 \<rightharpoonup> u64)" where
  "map_apply cap (HGet k) m =
     (if \<not> valid_key k then Err E_INVAL
      else case m k of None \<Rightarrow> Err E_NOT_FOUND | Some v \<Rightarrow> Ok v, m)"
| "map_apply cap (HPut k v) m =
     (if \<not> valid_key k then (Err E_INVAL, m)
      else if card (dom m) = cap then (Err E_NO_SPACE, m)
      else (Ok v, m(k \<mapsto> v)))"
| "map_apply cap (HDel k) m =
     (if \<not> valid_key k then (Err E_INVAL, m)
      else if m k = None then (Err E_NOT_FOUND, m)
      else (Ok 0, m(k := None)))"

fun hash_run :: "'b ent_ops \<Rightarrow> hash_op list \<Rightarrow> 'b hashtable \<Rightarrow> u64 result list \<times> 'b hashtable" where
  "hash_run ops [] t = ([], t)"
| "hash_run ops (a # as) t =
     (let (r, t') = hash_apply ops a t; (rs, t'') = hash_run ops as t' in (r # rs, t''))"

fun map_run :: "nat \<Rightarrow> hash_op list \<Rightarrow> (u64 \<rightharpoonup> u64) \<Rightarrow> u64 result list \<times> (u64 \<rightharpoonup> u64)" where
  "map_run cap [] m = ([], m)"
| "map_run cap (a # as) m =
     (let (r, m') = map_apply cap a m; (rs, m'') = map_run cap as m' in (r # rs, m''))"

fun disciplined_op :: "hash_op \<Rightarrow> (u64 \<rightharpoonup> u64) \<Rightarrow> bool" where
  "disciplined_op (HPut k v) m = (m k = None)"
| "disciplined_op _ m = True"

fun disciplined :: "nat \<Rightarrow> hash_op list \<Rightarrow> (u64 \<rightharpoonup> u64) \<Rightarrow> bool" where
  "disciplined cap [] m = True"
| "disciplined cap (a # as) m = (disciplined_op a m \<and> disciplined cap as (snd (map_apply cap a m)))"

lemma card_dom_ht_map:
  assumes "ht_inv ops wfb t"
  shows "int (card (dom (ht_map ops t))) = ht_size t" "ht_size t \<le> ht_capacity t"
proof -
  have "dom (ht_map ops t) = set (map fst (ht_assocs ops t))"
    by (simp add: ht_map_def dom_map_of_conv_image_fst)
  moreover have d: "distinct (map fst (ht_assocs ops t))" and s: "ht_size t = int (length (ht_assocs ops t))"
    and c: "0 \<le> ht_capacity t"
    using assms by (auto simp: ht_inv_def)
  ultimately show "int (card (dom (ht_map ops t))) = ht_size t"
    by (simp only: distinct_card) simp
  have "length (ht_assocs ops t) \<le> nat (ht_capacity t)"
    by (simp add: ht_assocs_def ht_ents_def le_trans [OF length_filter_le])
  then show "ht_size t \<le> ht_capacity t" using s c by simp
qed

lemma hash_invalid_key:
  "\<not> valid_key k \<Longrightarrow> hash_get ops t k = Err E_INVAL \<and> hash_put ops t k x = (Err E_INVAL, t) \<and>
     hash_del ops t k = (Err E_INVAL, t)"
  by (auto simp: valid_key_def hash_get_def hash_get_fn_def hash_put_def hash_put_fn_def hash_del_def)

context entry_store
begin

lemma apply_refines:
  assumes inv: "ht_inv ops wfb t" and d: "disciplined_op a (ht_map ops t)"
    and cap: "ht_capacity t = int cap"
  obtains t' where "hash_apply ops a t = (fst (map_apply cap a (ht_map ops t)), t')"
    "ht_inv ops wfb t'" "ht_map ops t' = snd (map_apply cap a (ht_map ops t))" "ht_capacity t' = int cap"
proof (cases a)
  case (HGet k)
  with that [of t] inv cap show thesis
    by (cases "valid_key k") (auto simp: get_correct hash_invalid_key)
next
  case (HPut k v)
  show thesis
  proof (cases "valid_key k \<and> card (dom (ht_map ops t)) \<noteq> cap")
    case True
    then have "ht_size t < ht_capacity t" using card_dom_ht_map [OF inv] cap by linarith
    with put_fresh [OF inv, of k v] True d HPut cap that show thesis by force
  next
    case False
    with that [of t] HPut inv cap card_dom_ht_map(1) [OF inv] show thesis
      by (cases "valid_key k") (auto simp: put_full hash_invalid_key)
  qed
next
  case (HDel k)
  show thesis
  proof (cases "valid_key k \<and> ht_map ops t k \<noteq> None")
    case True
    with del_present [OF inv, of k] HDel cap that show thesis by force
  next
    case False
    with that [of t] HDel inv cap show thesis
      by (cases "valid_key k") (auto simp: del_absent hash_invalid_key)
  qed
qed

lemma run_refines:
  "ht_inv ops wfb t \<Longrightarrow> ht_capacity t = int cap \<Longrightarrow> disciplined cap as (ht_map ops t) \<Longrightarrow>
   fst (hash_run ops as t) = fst (map_run cap as (ht_map ops t)) \<and>
   ht_inv ops wfb (snd (hash_run ops as t)) \<and>
   ht_map ops (snd (hash_run ops as t)) = snd (map_run cap as (ht_map ops t))"
proof (induction as arbitrary: t)
  case (Cons a as)
  from Cons.prems obtain t' where t': "hash_apply ops a t = (fst (map_apply cap a (ht_map ops t)), t')"
    "ht_inv ops wfb t'" "ht_map ops t' = snd (map_apply cap a (ht_map ops t))" "ht_capacity t' = int cap"
    using apply_refines [of t a cap] by auto
  with Cons.IH [of t'] Cons.prems show ?case by (auto simp: Let_def split: prod.splits)
qed simp

end

lemma flat_init_inv:
  "n = 0 \<or> int n dvd 2 ^ 64 \<Longrightarrow>
   ht_inv flat_ops flat_wf (hash_init n) \<and> ht_map flat_ops (hash_init n) = Map.empty"
  by (rule flat.empty_table_inv) (auto simp: hash_init_def flat_wf_def hash_ent_def flat_ops_def)

lemmas hash_scan_numeral =
  hash_put_scan.simps(2) [where n = "pred_numeral w" for w, folded numeral_eq_Suc]
  hash_get_scan.simps(2) [where n = "pred_numeral w" for w, folded numeral_eq_Suc]
  hash_del_scan.simps(2) [where n = "pred_numeral w" for w, folded numeral_eq_Suc]

subsection \<open>Properties\<close>

text \<open>
  C1: A table set up by \<open>hash_init\<close> with a power-of-two number of slots answers any sequence of
  \<open>hash_get\<close>, \<open>hash_put\<close> and \<open>hash_del\<close> calls as a finite map of at most that many keys does,
  error returns included, and never stops with a failed assertion; the calls may not put a key
  that is already present.
\<close>

theorem hash_run_refines_map:
  assumes "int n dvd 2 ^ 64" and "disciplined n as Map.empty"
  shows "fst (hash_run flat_ops as (hash_init n)) = fst (map_run n as Map.empty) \<and>
    ht_map flat_ops (snd (hash_run flat_ops as (hash_init n))) = snd (map_run n as Map.empty)"
  using flat.run_refines [of "hash_init n" n as] flat_init_inv [of n] assms
  by (auto simp: hash_init_def)

theorem hash_run_refines_map_witness:
  "fst (hash_run flat_ops [HPut 5 50, HGet 5, HPut 6 60, HDel 5, HGet 5, HPut 7 70, HPut 8 80, HGet 6, HGet 0] (hash_init 2)) =
     [Ok 50, Ok 50, Ok 60, Ok 0, Err E_NOT_FOUND, Ok 70, Err E_NO_SPACE, Ok 60, Err E_INVAL]"
  using hash_run_refines_map [of 2 "[HPut 5 50, HGet 5, HPut 6 60, HDel 5, HGet 5, HPut 7 70, HPut 8 80, HGet 6, HGet 0]"]
  by (simp add: valid_key_def TOMB_def del: hash_run.simps)

text \<open>
  C2: A loop over \<open>hashiter_next\<close> visits the live slots of a table in slot order, each once, for
  every backing; under the table invariant the pairs it sees are exactly the bindings of the
  map, with no key twice.
\<close>

theorem hashiter_enumerates:
  assumes "ht_inv ops wfb t" and "ht_capacity t < int n"
  shows "map_of (hash_iterate ops t hashiter_init n) = ht_map ops t \<and>
    distinct (map fst (hash_iterate ops t hashiter_init n)) \<and>
    int (length (hash_iterate ops t hashiter_init n)) = ht_size t"
proof -
  have "hash_iterate ops t hashiter_init n = ht_assocs ops t"
    using hash_iterate_spec [of hashiter_init t n ops] assms
    by (simp add: ht_assocs_alt hashiter_init_def)
  with assms show ?thesis by (simp add: ht_map_def ht_inv_def)
qed

theorem hashiter_enumerates_witness:
  "map_of (hash_iterate flat_ops (snd (hash_run flat_ops [HPut 7 70] (hash_init 1))) hashiter_init 2) = [7 \<mapsto> 70]"
proof -
  let ?t = "snd (hash_run flat_ops [HPut 7 70] (hash_init 1))"
  have i: "ht_inv flat_ops flat_wf (hash_init 1)" "ht_map flat_ops (hash_init 1) = Map.empty"
    using flat_init_inv [of 1] by simp_all
  have "ht_inv flat_ops flat_wf ?t" "ht_map flat_ops ?t = [7 \<mapsto> 70]"
    using flat.run_refines [OF i(1), of 1 "[HPut 7 70]"] i(2)
    by (simp_all add: hash_init_def valid_key_def TOMB_def del: hash_run.simps)
  moreover have "ht_capacity ?t = 1"
    by (simp add: hash_init_def hash_put_def hash_put_fn_def hash_probe_def hash_ent_def flat_ops_def
        null_entry_def TOMB_def store_ent_def)
  ultimately show ?thesis using hashiter_enumerates [of flat_ops flat_wf ?t 2] by simp
qed

text \<open>
  C3: \<open>hash_put\<close> stops at the first deleted slot without looking further, so it can store a key
  a second time: with keys 1 and 3, which start at the same slot of a two-slot table, putting
  both, deleting 1 and putting 3 again succeeds where a present key should be refused, and after
  one \<open>hash_del\<close> of 3 the old value is still found.
\<close>

definition dup_table :: "hashentry list hashtable" where
  "dup_table = snd (hash_run flat_ops [HPut 1 10, HPut 3 30, HDel 1] (hash_init 2))"

theorem hash_put_stores_key_twice:
  "fst (hash_run flat_ops [HGet 3, HPut 3 31, HGet 3, HDel 3, HGet 3] dup_table) =
     [Ok 30, Ok 31, Ok 31, Ok 0, Ok 30]"
proof -
  have h: "hash2 [1] LEV mod 2 = 0" "hash2 [3] LEV mod 2 = 0"
    "(hash2 [1] LEV + 1) mod 2 = 1" "(hash2 [3] LEV + 1) mod 2 = 1"
    by (subst hash2_single, simp add: mix64_def LEV_def Let_def)+
  show ?thesis
    by (simp add: hash_scan_numeral dup_table_def hash_init_def hash_put_def hash_put_fn_def hash_probe_def h hash_ent_def
        flat_ops_def key_hit_def store_ent_def null_entry_def TOMB_def hash_del_def hash_get_def hash_get_fn_def Let_def)
qed

end
