(* ===== verification/Page_Alloc.thy ===== *)
theory Page_Alloc
  imports Corey_Prelude
begin

text \<open>
  Physical pages: the NUMA node tables (\<^verbatim>\<open>kern/arch/amd64/numa.c\<close>), the per-page metadata
  (\<^verbatim>\<open>kern/kern/pageinfo.h\<close>) and the page allocator (\<^verbatim>\<open>kern/kern/pagealloc.c\<close>).

  A page is named by its physical page number.  The links of the free lists, which the code
  keeps in the first words of a free page, are the lists themselves here, so nothing is claimed
  of the contents of a free page.  A page holds 512 words of 64 bits.
\<close>

type_synonym page = nat

subsection \<open>NUMA nodes\<close>

record memory_node =
  mn_baseaddr :: u64
  mn_length :: u64
  mn_cpu :: "nat \<Rightarrow> bool"

record numa =
  memnode :: "memory_node list"
  cpu_nodeid :: "nat \<Rightarrow> nat"
  cur_cpu :: nat

definition JOS_NNODE :: nat where
  [layout_consts]: "JOS_NNODE = 16"

fun node_scan :: "memory_node list \<Rightarrow> nat \<Rightarrow> u64 \<Rightarrow> nat result" where
  "node_scan [] i p = Panic"
| "node_scan (n # ns) i p =
     (if mn_baseaddr n \<le> p \<and> p < mn_baseaddr n + mn_length n then Ok i else node_scan ns (Suc i) p)"

definition arch_node_by_addr :: "numa \<Rightarrow> u64 \<Rightarrow> nat result" where
  "arch_node_by_addr nm p = node_scan (memnode nm) 0 p"

definition arch_node_by_cpu :: "numa \<Rightarrow> nat \<Rightarrow> nat" where
  "arch_node_by_cpu nm p = cpu_nodeid nm p"

definition page_node :: "numa \<Rightarrow> page \<Rightarrow> nat result" where
  "page_node nm p = arch_node_by_addr nm (of_nat p * 4096)"

text \<open>
  \<open>numa_init\<close> with \<^verbatim>\<open>fake_nodes\<close> set, as it is in the source: one node per processor, the memory
  below the largest RAM range going to node 0 when an even share would end inside it.
\<close>

fun fake_node_loop :: "nat \<Rightarrow> nat \<Rightarrow> u64 \<Rightarrow> u64 \<Rightarrow> memory_node list" where
  "fake_node_loop i 0 baseaddr sz = []"
| "fake_node_loop i (Suc n) baseaddr sz =
     \<lparr>mn_baseaddr = baseaddr, mn_length = sz, mn_cpu = (\<lambda>j. j = i)\<rparr>
     # fake_node_loop (Suc i) n (baseaddr + sz) sz"

definition fake_nodes :: "u64 \<Rightarrow> nat \<Rightarrow> u64 \<Rightarrow> memory_node list" where
  "fake_nodes global_npages ncpu largest_ram_start =
     (let sz = global_npages * 4096 div of_nat ncpu;
          (length0, sz, baseaddr) =
            (if 1 < ncpu \<and> sz < largest_ram_start
             then (largest_ram_start, (global_npages * 4096 - largest_ram_start) div (of_nat ncpu - 1),
                   largest_ram_start)
             else (sz, sz, sz))
      in \<lparr>mn_baseaddr = 0, mn_length = length0, mn_cpu = (\<lambda>j. j = 0)\<rparr>
         # fake_node_loop 1 (ncpu - 1) baseaddr sz)"

fun assign_nodeids :: "memory_node list \<Rightarrow> nat \<Rightarrow> nat \<Rightarrow> (nat \<Rightarrow> nat) \<Rightarrow> nat \<Rightarrow> nat" where
  "assign_nodeids [] i ncpu f = f"
| "assign_nodeids (n # ns) i ncpu f =
     assign_nodeids ns (Suc i) ncpu (\<lambda>j. if j < ncpu \<and> mn_cpu n j then i else f j)"

definition numa_init :: "u64 \<Rightarrow> nat \<Rightarrow> u64 \<Rightarrow> nat \<Rightarrow> numa" where
  "numa_init global_npages ncpu largest_ram_start cpu =
     (let ns = fake_nodes global_npages ncpu largest_ram_start in
      \<lparr>memnode = ns, cpu_nodeid = assign_nodeids ns 0 ncpu (\<lambda>_. 0), cur_cpu = cpu\<rparr>)"

subsection \<open>Page metadata and the free lists\<close>

record page_info =
  pi_ref :: u32
  pi_freepage :: bool
  pi_hwpage :: bool
  pi_pmap :: bool
  pi_pmap_int :: bool
  pi_clear :: bool
  pi_hw_ref :: u32

record physmem =
  page_free_list :: "page list list"
  page_infos :: "page \<Rightarrow> page_info"
  page_words :: "page \<Rightarrow> u64 list"
  page_failures :: u64

definition page_to_pageinfo :: "physmem \<Rightarrow> page \<Rightarrow> page_info" where
  "page_to_pageinfo m p = page_infos m p"

definition set_pageinfo :: "page \<Rightarrow> (page_info \<Rightarrow> page_info) \<Rightarrow> physmem \<Rightarrow> physmem" where
  "set_pageinfo p f m = m\<lparr>page_infos := (page_infos m)(p := f (page_infos m p))\<rparr>"

definition page_zero :: "page \<Rightarrow> physmem \<Rightarrow> physmem" where
  "page_zero p m = m\<lparr>page_words := (page_words m)(p := replicate 512 0)\<rparr>"

definition page_copy :: "page \<Rightarrow> page \<Rightarrow> physmem \<Rightarrow> physmem" where
  "page_copy dst src m = m\<lparr>page_words := (page_words m)(dst := page_words m src)\<rparr>"

text \<open>
  \<open>page_free\<close> is handed a pointer: the page it points into and the offset in that page.
\<close>

definition page_free :: "numa \<Rightarrow> page \<Rightarrow> nat \<Rightarrow> physmem \<Rightarrow> unit result \<times> physmem" where
  "page_free nm p off m =
     (let pi = page_to_pageinfo m p in
      if pi_hwpage pi then (Ok (), m)
      else case page_node nm p of
        Ok node \<Rightarrow>
          if off \<noteq> 0 then (Panic, m)
          else if pi_freepage pi then (Panic, m)
          else
            (let m = set_pageinfo p (\<lambda>i. i\<lparr>pi_freepage := True, pi_clear := False\<rparr>) m in
             (Ok (), m\<lparr>page_free_list := (page_free_list m)[node := p # page_free_list m ! node]\<rparr>))
      | _ \<Rightarrow> (Panic, m))"

text \<open>
  The search of the other nodes' lists when the first is empty: \<open>n\<close> is the node looked at, and
  the walk ends when it is back at \<open>node\<close>.  \<open>k\<close> bounds its rounds; \<^verbatim>\<open>nmemnode\<close> of them are enough,
  since \<open>node\<close> is one of the nodes.
\<close>

fun page_alloc_any :: "nat \<Rightarrow> page list list \<Rightarrow> nat \<Rightarrow> nat \<Rightarrow> nat \<Rightarrow> nat option" where
  "page_alloc_any nmemnode fl node n 0 = None"
| "page_alloc_any nmemnode fl node n (Suc k) =
     (if n = node then None
      else if fl ! n \<noteq> [] then Some n
      else page_alloc_any nmemnode fl node ((n + 1) mod nmemnode) k)"

definition page_alloc :: "numa \<Rightarrow> nat \<Rightarrow> physmem \<Rightarrow> page result \<times> physmem" where
  "page_alloc nm pid m =
     (let node = (if pid = 0xFFFFFFFF then arch_node_by_cpu nm (cur_cpu nm) else arch_node_by_cpu nm pid);
          fl = page_free_list m;
          nmemnode = length (memnode nm);
          found = (if fl ! node \<noteq> [] then Some node
                   else page_alloc_any nmemnode fl node ((node + 1) mod nmemnode) nmemnode)
      in case found of
           None \<Rightarrow> (Err E_NO_MEM, m\<lparr>page_failures := page_failures m + 1\<rparr>)
         | Some node \<Rightarrow>
             (let pl = hd (fl ! node); m = m\<lparr>page_free_list := fl[node := tl (fl ! node)]\<rparr> in
              if pi_freepage (page_to_pageinfo m pl)
              then (Ok pl, set_pageinfo pl (\<lambda>i. i\<lparr>pi_freepage := False\<rparr>) m)
              else (Panic, m)))"

definition page_get_hw :: "page \<Rightarrow> physmem \<Rightarrow> page result" where
  "page_get_hw p m = (if pi_hwpage (page_to_pageinfo m p) then Ok p else Err E_INVAL)"

definition page_register_hw :: "page \<Rightarrow> physmem \<Rightarrow> unit result \<times> physmem" where
  "page_register_hw p m =
     (let pi = page_to_pageinfo m p in
      if pi_freepage pi \<or> pi_hwpage pi then (Panic, m)
      else (Ok (), set_pageinfo p (\<lambda>i. i\<lparr>pi_hwpage := True\<rparr>) m))"

definition page_alloc_init :: "physmem \<Rightarrow> physmem" where
  "page_alloc_init m = m\<lparr>page_free_list := replicate JOS_NNODE []\<rparr>"

subsection \<open>Accounting of pages\<close>

text \<open>
  The pages the allocator manages are the pool \<open>P\<close>.  Every page of the pool is on exactly one
  free list, or is referenced from \<open>R\<close> (the multiset of all counted references, of which \<open>H\<close> are
  hardware references), or is owned without a count, once, by \<open>I\<close> (a page just allocated, or a
  page that holds kernel structures).  The three exclude each other, so no page of the pool is
  lost and none is used twice.
\<close>

definition free_pages :: "physmem \<Rightarrow> page set" where
  "free_pages m = set (concat (page_free_list m))"

definition numa_ok :: "numa \<Rightarrow> bool" where
  "numa_ok nm = (0 < length (memnode nm) \<and> length (memnode nm) \<le> JOS_NNODE \<and>
     (\<forall>j. cpu_nodeid nm j < length (memnode nm)))"

definition freelist_ok :: "numa \<Rightarrow> physmem \<Rightarrow> bool" where
  "freelist_ok nm m =
     (numa_ok nm \<and> length (page_free_list m) = JOS_NNODE \<and>
      distinct (concat (page_free_list m)) \<and>
      (\<forall>n < JOS_NNODE. \<forall>p \<in> set (page_free_list m ! n). page_node nm p = Ok n) \<and>
      (\<forall>p. pi_freepage (page_infos m p) \<longleftrightarrow> p \<in> free_pages m))"

definition refs_ok :: "physmem \<Rightarrow> page multiset \<Rightarrow> page multiset \<Rightarrow> bool" where
  "refs_ok m R H =
     ((\<forall>p. pi_ref (page_infos m p) = of_nat (count R p)) \<and> size R < 2 ^ 32 \<and>
      (\<forall>p. pi_hw_ref (page_infos m p) = of_nat (count H p)) \<and> H \<subseteq># R)"

definition owned_ok :: "page set \<Rightarrow> page set \<Rightarrow> page multiset \<Rightarrow> page multiset \<Rightarrow> bool" where
  "owned_ok P F R I =
     ((\<forall>p. count I p \<le> 1) \<and> set_mset R \<inter> set_mset I = {} \<and>
      F \<inter> (set_mset R \<union> set_mset I) = {} \<and> P = F \<union> set_mset R \<union> set_mset I)"

definition pool_ok :: "numa \<Rightarrow> page set \<Rightarrow> physmem \<Rightarrow> bool" where
  "pool_ok nm P m = (\<forall>p \<in> P. \<not> pi_hwpage (page_infos m p) \<and> is_ok (page_node nm p))"

definition mem_inv ::
  "numa \<Rightarrow> page set \<Rightarrow> physmem \<Rightarrow> page multiset \<Rightarrow> page multiset \<Rightarrow> page multiset \<Rightarrow> bool"
where
  "mem_inv nm P m R H I =
     (freelist_ok nm m \<and> refs_ok m R H \<and> owned_ok P (free_pages m) R I \<and> pool_ok nm P m)"

lemmas mem_inv_defs = mem_inv_def freelist_ok_def refs_ok_def owned_ok_def pool_ok_def

lemma owned_free: "owned_ok P F R (add_mset p I) \<Longrightarrow> owned_ok P (insert p F) R I"
proof -
  assume a: "owned_ok P F R (add_mset p I)"
  then have c: "count (add_mset p I) q \<le> 1" for q unfolding owned_ok_def by blast
  have "count I q \<le> 1" for q using c [of q] by (auto split: if_splits)
  moreover have "p \<notin># I" using c [of p] by (simp add: not_in_iff)
  ultimately show ?thesis using a by (auto simp: owned_ok_def)
qed

lemma owned_alloc: "owned_ok P F R I \<Longrightarrow> p \<in> F \<Longrightarrow> owned_ok P (F - {p}) R (add_mset p I)"
proof -
  assume a: "owned_ok P F R I" "p \<in> F"
  then have "p \<notin># I" "p \<notin># R" by (auto simp: owned_ok_def)
  moreover from this have "count (add_mset p I) q \<le> 1" for q
    using a(1) by (auto simp: owned_ok_def not_in_iff)
  ultimately show ?thesis using a by (auto simp: owned_ok_def)
qed

lemma node_scan_bound: "node_scan ns i a = Ok n \<Longrightarrow> n < i + length ns"
  by (induction ns arbitrary: i) (fastforce split: if_splits)+

lemma page_node_bound: "page_node nm p = Ok n \<Longrightarrow> n < length (memnode nm)"
  by (auto simp: page_node_def arch_node_by_addr_def dest: node_scan_bound)

lemma page_alloc_any_Some:
  "page_alloc_any N fl node n k = Some n' \<Longrightarrow> n < N \<Longrightarrow> n' < N \<and> fl ! n' \<noteq> []"
  by (induction k arbitrary: n) (auto split: if_splits)

text \<open>The walk over the other nodes misses none of them.\<close>

lemma page_alloc_any_None:
  "page_alloc_any N fl node ((node + i) mod N) k = None \<Longrightarrow> node < N \<Longrightarrow> 0 < i \<Longrightarrow> N \<le> i + k \<Longrightarrow>
   i \<le> j \<Longrightarrow> j < N \<Longrightarrow> fl ! ((node + j) mod N) = []"
proof (induction k arbitrary: i)
  case 0
  then show ?case by simp
next
  case (Suc k)
  have ne: "(node + i) mod N \<noteq> node" if "i < N"
    using that Suc.prems(2,3) by (cases "node + i < N") (auto simp: mod_sub_once)
  show ?case
  proof (cases "j = i")
    case True
    with Suc.prems ne show ?thesis by (auto split: if_splits)
  next
    case False
    have "((node + i) mod N + 1) mod N = (node + Suc i) mod N" by (simp add: mod_Suc_eq)
    with Suc.prems ne False show ?thesis
      by (intro Suc.IH [of "Suc i"]) (auto split: if_splits)
  qed
qed


subsection \<open>What the allocator keeps of the accounting\<close>

lemma set_concat_update:
  "n < length xss \<Longrightarrow> distinct (concat xss) \<Longrightarrow>
   set (concat (xss[n := ys])) = set ys \<union> (set (concat xss) - set (xss ! n)) \<and>
   (distinct (concat (xss[n := ys])) \<longleftrightarrow> distinct ys \<and> set ys \<inter> (set (concat xss) - set (xss ! n)) = {})"
proof -
  assume n: "n < length xss" and d: "distinct (concat xss)"
  define as bs where "as = concat (take n xss)" and "bs = concat (drop (Suc n) xss)"
  have x: "concat xss = as @ xss ! n @ bs"
    using n by (metis as_def bs_def concat.simps(2) concat_append id_take_nth_drop)
  have y: "concat (xss[n := ys]) = as @ ys @ bs"
    using n by (simp add: upd_conv_take_nth_drop as_def bs_def)
  show ?thesis using d unfolding x y by auto
qed

lemma nth_in_concat: "n < length xss \<Longrightarrow> x \<in> set (xss ! n) \<Longrightarrow> x \<in> set (concat xss)"
  by (auto dest: nth_mem)

lemma distinct_nth_concat: "n < length xss \<Longrightarrow> distinct (concat xss) \<Longrightarrow> distinct (xss ! n)"
  by (metis concat.simps(2) concat_append distinct_append id_take_nth_drop)

lemma page_alloc_ok:
  assumes inv: "mem_inv nm P m R H I"
  obtains p m' where "page_alloc nm pid m = (Ok p, m')" "mem_inv nm P m' R H (add_mset p I)"
      "p \<in> free_pages m" "free_pages m' = free_pages m - {p}" "page_words m' = page_words m"
  | "page_alloc nm pid m = (Err E_NO_MEM, m\<lparr>page_failures := page_failures m + 1\<rparr>)"
    "free_pages m = {}"
proof -
  define node where "node = (if pid = 0xFFFFFFFF then arch_node_by_cpu nm (cur_cpu nm) else arch_node_by_cpu nm pid)"
  let ?N = "length (memnode nm)" and ?fl = "page_free_list m"
  define found where "found = (if ?fl ! node \<noteq> [] then Some node
     else page_alloc_any ?N ?fl node ((node + 1) mod ?N) ?N)"
  have nd: "node < ?N" and N: "?N \<le> JOS_NNODE" "0 < ?N" and len: "length ?fl = JOS_NNODE"
    and d: "distinct (concat ?fl)"
    using inv by (auto simp: mem_inv_defs numa_ok_def node_def arch_node_by_cpu_def)
  have pa: "page_alloc nm pid m = (case found of
      None \<Rightarrow> (Err E_NO_MEM, m\<lparr>page_failures := page_failures m + 1\<rparr>)
    | Some n \<Rightarrow> (if pi_freepage (page_infos m (hd (?fl ! n)))
        then (Ok (hd (?fl ! n)), set_pageinfo (hd (?fl ! n)) (\<lambda>i. i\<lparr>pi_freepage := False\<rparr>)
               (m\<lparr>page_free_list := ?fl[n := tl (?fl ! n)]\<rparr>))
        else (Panic, m\<lparr>page_free_list := ?fl[n := tl (?fl ! n)]\<rparr>)))"
    unfolding page_alloc_def node_def [symmetric] Let_def found_def [symmetric]
    by (simp add: page_to_pageinfo_def split: option.split)
  show thesis
  proof (cases found)
    case None
    then have e: "?fl ! node = []" and
      a: "page_alloc_any ?N ?fl node ((node + 1) mod ?N) ?N = None"
      by (auto simp: found_def split: if_splits)
    have "?fl ! n = []" if n: "n < ?N" for n
    proof (cases "n = node")
      case False
      define j where "j = (if node < n then n - node else n + ?N - node)"
      have "(node + j) mod ?N = n" "1 \<le> j" "j < ?N"
        using n nd False by (auto simp: j_def)
      then show ?thesis
        using page_alloc_any_None [OF a nd, of j] by auto
    qed (use e in simp)
    moreover have "?fl ! n = []" if "n < JOS_NNODE" "\<not> n < ?N" for n
    proof (rule ccontr)
      assume "?fl ! n \<noteq> []"
      then obtain p where "p \<in> set (?fl ! n)" by (meson list.set_sel(1))
      then have "page_node nm p = Ok n" using inv that by (simp add: mem_inv_defs)
      with that(2) page_node_bound show False by blast
    qed
    ultimately have "free_pages m = {}"
      using len by (fastforce simp: free_pages_def in_set_conv_nth)
    moreover have "page_alloc nm pid m = (Err E_NO_MEM, m\<lparr>page_failures := page_failures m + 1\<rparr>)"
      using None by (simp add: pa)
    ultimately show thesis by (rule that(2) [rotated])
  next
    case (Some n)
    have n: "n < ?N" "?fl ! n \<noteq> []"
      using Some nd N page_alloc_any_Some [of ?N ?fl node "(node + 1) mod ?N" ?N n]
      by (auto simp: found_def split: if_splits)
    then obtain p ps where ps: "?fl ! n = p # ps" by (meson list.exhaust)
    define m' where "m' = set_pageinfo p (\<lambda>i. i\<lparr>pi_freepage := False\<rparr>) (m\<lparr>page_free_list := ?fl[n := ps]\<rparr>)"
    have nl: "n < length ?fl" using n N len by simp
    then have pf: "p \<in> free_pages m" using ps nth_in_concat [of n ?fl p] by (simp add: free_pages_def)
    then have "page_alloc nm pid m = (Ok p, m')"
      using Some inv ps
      by (simp add: pa m'_def mem_inv_defs)
    moreover have dp: "distinct (p # ps)"
      using distinct_nth_concat [OF nl d] ps by simp
    have fp: "free_pages m' = free_pages m - {p}" and dd: "distinct (concat (?fl[n := ps]))"
      using set_concat_update [OF nl d, of ps] pf dp ps nth_in_concat [OF nl]
      by (auto simp: free_pages_def m'_def set_pageinfo_def simp del: set_concat)
    moreover have "freelist_ok nm m'"
      using inv fp dd ps len nl
      by (auto simp: mem_inv_def freelist_ok_def m'_def set_pageinfo_def nth_list_update)
    then have "mem_inv nm P m' R H (add_mset p I)"
      using inv fp pf owned_alloc
      by (auto simp: mem_inv_def refs_ok_def pool_ok_def m'_def set_pageinfo_def)
    ultimately show thesis using pf that(1) by (simp add: m'_def set_pageinfo_def)
  qed
qed


lemma mem_inv_cong:
  assumes "page_free_list m' = page_free_list m"
    and "\<And>p. pi_freepage (page_infos m' p) = pi_freepage (page_infos m p)"
    and "\<And>p. pi_ref (page_infos m' p) = pi_ref (page_infos m p)"
    and "\<And>p. pi_hw_ref (page_infos m' p) = pi_hw_ref (page_infos m p)"
    and "\<And>p. pi_hwpage (page_infos m' p) = pi_hwpage (page_infos m p)"
  shows "mem_inv nm P m' R H I = mem_inv nm P m R H I"
  using assms by (simp add: mem_inv_defs free_pages_def)

lemma mem_inv_failures [simp]:
  "mem_inv nm P (m\<lparr>page_failures := k\<rparr>) R H I = mem_inv nm P m R H I"
  by (simp add: mem_inv_defs free_pages_def)

lemma mem_inv_words [simp]:
  "mem_inv nm P (m\<lparr>page_words := k\<rparr>) R H I = mem_inv nm P m R H I"
  by (simp add: mem_inv_defs free_pages_def)

lemma free_pages_words [simp]: "free_pages (m\<lparr>page_words := k\<rparr>) = free_pages m"
  by (simp add: free_pages_def)

lemma free_pages_failures [simp]: "free_pages (m\<lparr>page_failures := k\<rparr>) = free_pages m"
  by (simp add: free_pages_def)

lemma mem_inv_zero [simp]: "mem_inv nm P (page_zero p m) R H I = mem_inv nm P m R H I"
  by (simp add: page_zero_def)

lemma mem_inv_copy [simp]: "mem_inv nm P (page_copy d p m) R H I = mem_inv nm P m R H I"
  by (simp add: page_copy_def)

lemma mem_inv_clear [simp]:
  "mem_inv nm P (set_pageinfo p (\<lambda>i. i\<lparr>pi_clear := c\<rparr>) m) R H I = mem_inv nm P m R H I"
  by (rule mem_inv_cong) (auto simp: set_pageinfo_def)

text \<open>A page owned without a count goes back to the free list of its node.\<close>

lemma page_free_ok:
  assumes inv: "mem_inv nm P m R H (add_mset p I)"
  obtains m' where "page_free nm p 0 m = (Ok (), m')" "mem_inv nm P m' R H I"
    "free_pages m' = insert p (free_pages m)" "page_words m' = page_words m"
proof -
  from inv have pP: "p \<in> P" and pn: "p \<notin> free_pages m"
    and len: "length (page_free_list m) = JOS_NNODE" and d: "distinct (concat (page_free_list m))"
    and N: "length (memnode nm) \<le> JOS_NNODE"
    by (auto simp: mem_inv_defs numa_ok_def)
  with inv have hw: "\<not> pi_hwpage (page_infos m p)" "is_ok (page_node nm p)" "\<not> pi_freepage (page_infos m p)"
    by (auto simp: mem_inv_defs)
  then obtain n where n: "page_node nm p = Ok n" by (cases "page_node nm p") auto
  let ?fl = "page_free_list m"
  have nl: "n < length ?fl" using page_node_bound [OF n] N len by simp
  define m' where "m' = (set_pageinfo p (\<lambda>i. i\<lparr>pi_freepage := True, pi_clear := False\<rparr>) m)
     \<lparr>page_free_list := ?fl[n := p # ?fl ! n]\<rparr>"
  have "page_free nm p 0 m = (Ok (), m')"
    using hw n by (simp add: page_free_def page_to_pageinfo_def m'_def set_pageinfo_def Let_def)
  moreover have "distinct (?fl ! n)" "set (?fl ! n) \<subseteq> set (concat ?fl)"
    using distinct_nth_concat [OF nl d] nth_in_concat [OF nl] by auto
  then have fp: "free_pages m' = insert p (free_pages m)" and dd: "distinct (concat (?fl[n := p # ?fl ! n]))"
    using set_concat_update [OF nl d, of "p # ?fl ! n"] pn
    by (auto simp: free_pages_def m'_def set_pageinfo_def)
  moreover have "freelist_ok nm m'"
    using inv fp dd len nl n
    by (auto simp: mem_inv_def freelist_ok_def m'_def set_pageinfo_def nth_list_update)
  then have "mem_inv nm P m' R H I"
    using inv fp owned_free
    by (auto simp: mem_inv_def refs_ok_def pool_ok_def m'_def set_pageinfo_def)
  ultimately show thesis using that by (simp add: m'_def set_pageinfo_def)
qed


subsection \<open>The node tables cover the memory\<close>

lemma fake_node_loop_length [simp]: "length (fake_node_loop i n b sz) = n"
  by (induction n arbitrary: i b) auto

lemma node_scan_skip: "is_ok (node_scan ns j a) \<Longrightarrow> is_ok (node_scan (n # ns) i a)"
proof -
  have "is_ok (node_scan ns j a) \<longleftrightarrow> is_ok (node_scan ns i a)" for i
    by (induction ns arbitrary: i j) auto
  then show "is_ok (node_scan ns j a) \<Longrightarrow> is_ok (node_scan (n # ns) i a)" by simp
qed

lemma fake_node_loop_covers:
  "unat b + n * unat sz < 2 ^ 64 \<Longrightarrow> unat b \<le> unat a \<Longrightarrow> unat a < unat b + n * unat sz \<Longrightarrow>
   is_ok (node_scan (fake_node_loop i n b sz) j a)"
proof (induction n arbitrary: i j b)
  case (Suc n)
  have bs: "unat (b + sz) = unat b + unat sz"
    using Suc.prems(1) by (simp add: unat_word_ariths)
  show ?case
  proof (cases "unat a < unat b + unat sz")
    case True
    with Suc.prems bs show ?thesis by (simp add: word_le_nat_alt word_less_nat_alt)
  next
    case False
    have "is_ok (node_scan (fake_node_loop (Suc i) n (b + sz) sz) (Suc j) a)"
      using Suc.prems False bs by (intro Suc.IH) auto
    then show ?thesis by simp
  qed
qed simp

lemma assign_nodeids_bound:
  "\<forall>j. f j < i + length ns \<Longrightarrow> assign_nodeids ns i ncpu f j < i + length ns"
proof (induction ns arbitrary: i f)
  case (Cons n ns)
  have "assign_nodeids ns (Suc i) ncpu (\<lambda>j. if j < ncpu \<and> mn_cpu n j then i else f j) j < Suc i + length ns"
    using Cons.prems by (intro Cons.IH) auto
  then show ?case by simp
qed simp

lemma share_bound: "0 < k \<Longrightarrow> (n::nat) < k * (n div k) + k"
  by (metis add.commute add_less_cancel_left mod_less_divisor mult_div_mod_eq)

lemma fake_nodes_cover:
  assumes cpus: "0 < ncpu" "ncpu \<le> JOS_NNODE" and fits: "unat npages * 4096 < 2 ^ 64"
    and ram: "unat largest \<le> unat npages * 4096" and p: "p < unat npages"
  shows "is_ok (node_scan (fake_nodes npages ncpu largest) 0 (of_nat p * 4096))"
proof -
  let ?T = "unat npages * 4096" and ?a = "of_nat p * 4096 :: u64"
  have T: "unat (npages * 4096) = ?T" using fits by (simp add: unat_word_ariths)
  have nc: "unat (of_nat ncpu :: u64) = ncpu" using cpus by (simp add: unat_of_nat JOS_NNODE_def)
  have a: "unat ?a = p * 4096" using p fits by (simp add: unat_word_ariths unat_of_nat)
  have sz: "unat (npages * 4096 div of_nat ncpu) = ?T div ncpu" by (simp add: unat_div T nc)
  have pT: "p * 4096 + 4096 \<le> ?T" using p by simp
  show ?thesis
  proof (cases "1 < ncpu \<and> npages * 4096 div of_nat ncpu < largest")
    case True
    let ?s = "(npages * 4096 - largest) div (of_nat ncpu - 1) :: u64"
    have c1: "unat (of_nat ncpu - 1 :: u64) = ncpu - 1"
      using True nc by (subst unat_sub) (auto simp: word_le_nat_alt)
    have s: "unat ?s = (?T - unat largest) div (ncpu - 1)"
      using ram by (simp add: unat_div c1 unat_sub word_le_nat_alt T)
    have le: "(ncpu - 1) * unat ?s \<le> ?T - unat largest" unfolding s by (rule times_div_less_eq_dividend)
    have "?T - unat largest < (ncpu - 1) * unat ?s + (ncpu - 1)"
      unfolding s using True by (intro share_bound) simp
    then have hi: "p * 4096 < unat largest + (ncpu - 1) * unat ?s"
      using pT cpus by (simp add: JOS_NNODE_def)
    show ?thesis
    proof (cases "unat ?a < unat largest")
      case True': True
      then show ?thesis using True by (simp add: fake_nodes_def Let_def word_less_nat_alt)
    next
      case False
      have "is_ok (node_scan (fake_node_loop 1 (ncpu - 1) largest ?s) 1 ?a)"
        using False hi le ram fits by (intro fake_node_loop_covers) (auto simp: a)
      then show ?thesis using True node_scan_skip by (simp add: fake_nodes_def Let_def)
    qed
  next
    case False
    let ?s = "npages * 4096 div of_nat ncpu :: u64"
    have e: "unat ?s + (ncpu - 1) * unat ?s = ncpu * unat ?s"
      using cpus(1) by (cases ncpu) auto
    have le: "ncpu * unat ?s \<le> ?T" unfolding sz by (rule times_div_less_eq_dividend)
    have "?T < ncpu * unat ?s + ncpu" unfolding sz using cpus by (intro share_bound)
    then have hi: "p * 4096 < ncpu * unat ?s" using pT cpus by (simp add: JOS_NNODE_def)
    show ?thesis
    proof (cases "unat ?a < unat ?s")
      case True
      then show ?thesis using False by (auto simp: fake_nodes_def Let_def word_less_nat_alt)
    next
      case False': False
      have "is_ok (node_scan (fake_node_loop 1 (ncpu - 1) ?s ?s) 1 ?a)"
        using False' hi le fits e by (intro fake_node_loop_covers) (auto simp: a)
      then have "is_ok (node_scan (\<lparr>mn_baseaddr = 0, mn_length = ?s, mn_cpu = (\<lambda>j. j = 0)\<rparr> #
          fake_node_loop 1 (ncpu - 1) ?s ?s) 0 ?a)" by (rule node_scan_skip)
      then show ?thesis using False unfolding fake_nodes_def Let_def by (simp only: if_False split_conv)
    qed
  qed
qed

lemma numa_init_ok:
  assumes "0 < ncpu" "ncpu \<le> JOS_NNODE"
  shows "numa_ok (numa_init npages ncpu largest cpu)"
proof -
  have l: "length (fake_nodes npages ncpu largest) = ncpu"
    using assms by (auto simp: fake_nodes_def Let_def split: prod.split)
  then have "assign_nodeids (fake_nodes npages ncpu largest) 0 ncpu (\<lambda>_. 0) j < ncpu" for j
    using assign_nodeids_bound [of "\<lambda>_. 0" 0 "fake_nodes npages ncpu largest" ncpu j] assms by simp
  then show ?thesis using assms l by (simp add: numa_ok_def numa_init_def Let_def)
qed


subsection \<open>Properties\<close>


definition tiny_numa :: numa where
  "tiny_numa = \<lparr>memnode = [\<lparr>mn_baseaddr = 0, mn_length = 0x4000, mn_cpu = (\<lambda>j. True)\<rparr>],
     cpu_nodeid = (\<lambda>_. 0), cur_cpu = 0\<rparr>"

definition tiny_mem :: physmem where
  "tiny_mem = \<lparr>page_free_list = (replicate 16 [])[0 := [2]],
     page_infos = (\<lambda>p. \<lparr>pi_ref = (if p = 1 then 1 else 0), pi_freepage = (p = 2), pi_hwpage = False,
       pi_pmap = False, pi_pmap_int = False, pi_clear = False, pi_hw_ref = 0\<rparr>),
     page_words = (\<lambda>_. replicate 512 0), page_failures = 0\<rparr>"

lemma tiny_mem_inv: "mem_inv tiny_numa {1, 2} tiny_mem {#1#} {#} {#}"
proof -
  have n: "page_node tiny_numa 1 = Ok 0" "page_node tiny_numa 2 = Ok 0"
    by (simp_all add: page_node_def arch_node_by_addr_def tiny_numa_def)
  have fl: "page_free_list tiny_mem ! n = (if n = 0 then [2] else [])" if "n < 16" for n
    using that by (simp add: tiny_mem_def)
  have c: "concat (page_free_list tiny_mem) = [2]" by (simp add: tiny_mem_def numeral_eq_Suc)
  then have fp: "free_pages tiny_mem = {2}" by (simp add: free_pages_def del: set_concat)
  from c n fl fp have "freelist_ok tiny_numa tiny_mem"
    unfolding freelist_ok_def fp by (simp add: numa_ok_def JOS_NNODE_def tiny_numa_def) (simp add: tiny_mem_def)
  with n fp show ?thesis
    by (simp add: mem_inv_def refs_ok_def owned_ok_def pool_ok_def) (auto simp: tiny_mem_def)
qed


text \<open>
  The tables \<open>numa_init\<close> makes up assign every page below \<^verbatim>\<open>global_npages\<close> to a node, although
  the shares are rounded down, and map every processor to one of the nodes.
\<close>

theorem numa_init_covers:
  assumes "0 < ncpu" "ncpu \<le> JOS_NNODE" and "unat npages * 4096 < 2 ^ 64"
    and "unat largest \<le> unat npages * 4096" and "p < unat npages"
  shows "is_ok (page_node (numa_init npages ncpu largest cpu) p) \<and> numa_ok (numa_init npages ncpu largest cpu)"
  using fake_nodes_cover [OF assms] numa_init_ok [OF assms(1,2), of npages largest cpu]
  by (simp add: page_node_def arch_node_by_addr_def numa_init_def Let_def)

theorem numa_init_covers_witness:
  "is_ok (page_node (numa_init 1000 3 0x100000 0) 999) \<and> numa_ok (numa_init 1000 3 0x100000 0)"
  by (rule numa_init_covers) (simp_all add: JOS_NNODE_def)

end
