(* ===== verification/Page_Boot.thy ===== *)
theory Page_Boot
  imports Page_Alloc
begin

text \<open>
  Memory at boot (\<^verbatim>\<open>kern/arch/amd64/page.c\<close>): the BIOS memory map, the boot-time allocator and
  the pass that hands every unused page of RAM to the page allocator.  The linker symbols
  \<^verbatim>\<open>end\<close>, \<^verbatim>\<open>sreplicate\<close> and \<^verbatim>\<open>ereplicate\<close> and the reads of the battery-backed RAM are parameters.
\<close>

subsection \<open>The memory map\<close>

record e820entry =
  e820_addr :: u64
  e820_size :: u64
  e820_type :: u32

definition E820_RAM :: u32 where "E820_RAM = 1"
definition PHYSBASE :: u64 where "PHYSBASE = 0xffff800000000000"
definition IOPHYSMEM :: u64 where "IOPHYSMEM = 0x0A0000"
definition BIOSPHYSMEM :: u64 where "BIOSPHYSMEM = 0x0F0000"
definition EXTPHYSMEM :: u64 where "EXTPHYSMEM = 0x100000"
definition APBOOTSTRAP :: u64 where "APBOOTSTRAP = 0x7000"

lemmas phys_layout = IOPHYSMEM_def BIOSPHYSMEM_def EXTPHYSMEM_def APBOOTSTRAP_def PGSIZE_def

record boot_state =
  boot_freemem :: u64
  boot_endmem :: u64
  membytes :: u64
  global_npages :: u64
  largest_ram_start :: u64

definition ram_start :: "e820entry \<Rightarrow> u64" where
  "ram_start d = ROUNDUP (e820_addr d) PGSIZE"

definition ram_end :: "e820entry \<Rightarrow> u64" where
  "ram_end d = ROUNDDOWN (e820_addr d + e820_size d) PGSIZE"

fun e820_detect_loop :: "u64 \<Rightarrow> e820entry list \<Rightarrow> u64 \<Rightarrow> boot_state \<Rightarrow> boot_state" where
  "e820_detect_loop kend [] largest_ram_size b = b"
| "e820_detect_loop kend (d # ds) largest_ram_size b =
     (if e820_type d \<noteq> E820_RAM then e820_detect_loop kend ds largest_ram_size b
      else
        (let b = b\<lparr>membytes := membytes b + e820_size d\<rparr>;
             s = ram_start d; e = ram_end d;
             b = (if s < kend \<and> kend < e
                  then b\<lparr>boot_freemem := kend + PHYSBASE, boot_endmem := e + PHYSBASE\<rparr> else b);
             b = (if global_npages b < e div PGSIZE then b\<lparr>global_npages := e div PGSIZE\<rparr> else b)
         in if largest_ram_size < e820_size d
            then e820_detect_loop kend ds (e820_size d) (b\<lparr>largest_ram_start := e820_addr d\<rparr>)
            else e820_detect_loop kend ds largest_ram_size b))"

definition e820_detect_memory :: "u64 \<Rightarrow> e820entry list \<Rightarrow> boot_state \<Rightarrow> boot_state" where
  "e820_detect_memory kend desc b = e820_detect_loop kend desc 0 (b\<lparr>membytes := 0\<rparr>)"

text \<open>The map given by the boot loader, or one made up from the sizes in the non-volatile RAM.\<close>

definition mem_init ::
  "u64 \<Rightarrow> u64 \<Rightarrow> u64 \<Rightarrow> u64 \<Rightarrow> u64 \<Rightarrow> e820entry list \<Rightarrow> boot_state \<Rightarrow> (e820entry list \<times> boot_state) result"
where
  "mem_init kend nvram_base nvram_ext lower_kb upper_kb emap b =
     (if emap = [] then
        (let lower_kb = (if lower_kb = 0 then nvram_base else lower_kb);
             upper_kb = (if upper_kb = 0 then nvram_ext else upper_kb);
             e0 = \<lparr>e820_addr = 0, e820_size = ROUNDDOWN (lower_kb * 1024) PGSIZE, e820_type = E820_RAM\<rparr>;
             e1 = \<lparr>e820_addr = EXTPHYSMEM, e820_size = ROUNDDOWN (upper_kb * 1024) PGSIZE, e820_type = E820_RAM\<rparr>
         in if \<not> e820_size e0 \<le> IOPHYSMEM then Panic
            else Ok ([e0, e1], e820_detect_memory kend [e0, e1] b))
      else Ok (emap, e820_detect_memory kend emap b))"

subsection \<open>The boot-time allocator\<close>

text \<open>The size is 32 bits wide; addresses are kernel virtual addresses.\<close>

definition boot_alloc :: "u32 \<Rightarrow> u32 \<Rightarrow> boot_state \<Rightarrow> u64 result \<times> boot_state" where
  "boot_alloc n align b =
     (let fm = ROUNDUP (boot_freemem b) (ucast align); b = b\<lparr>boot_freemem := fm\<rparr> in
      if fm + ucast n < fm \<or> boot_endmem b < fm + ucast n then (Panic, b)
      else (Ok fm, b\<lparr>boot_freemem := fm + ucast n\<rparr>))"

subsection \<open>Handing the pages out\<close>

definition page_inuse :: "u64 \<Rightarrow> u64 \<Rightarrow> numa \<Rightarrow> boot_state \<Rightarrow> u64 \<Rightarrow> bool" where
  "page_inuse sreplicate ereplicate nm b ppn =
     (let rep_size = ROUNDUP ereplicate PGSIZE - ROUNDDOWN sreplicate PGSIZE in
      if ppn = 0 then True
      else if ppn = APBOOTSTRAP div PGSIZE then True
      else if IOPHYSMEM div PGSIZE \<le> ppn \<and> ppn < EXTPHYSMEM div PGSIZE then True
      else if EXTPHYSMEM div PGSIZE \<le> ppn \<and> ppn < (boot_freemem b - PHYSBASE) div PGSIZE then True
      else \<exists>mn \<in> set (memnode nm). rep_size \<le> mn_length mn \<and>
             mn_baseaddr mn div PGSIZE \<le> ppn \<and> ppn < (mn_baseaddr mn + rep_size) div PGSIZE)"

text \<open>\<open>k\<close> pages from page \<open>j\<close> on are left of a range of RAM.\<close>

fun e820_free_range :: "numa \<Rightarrow> (u64 \<Rightarrow> bool) \<Rightarrow> nat \<Rightarrow> nat \<Rightarrow> physmem \<Rightarrow> unit result \<times> physmem" where
  "e820_free_range nm inuse j 0 m = (Ok (), m)"
| "e820_free_range nm inuse j (Suc k) m =
     (if inuse (of_nat j) then e820_free_range nm inuse (Suc j) k m
      else bind_r (page_free nm j 0 m) (\<lambda>_ m. e820_free_range nm inuse (Suc j) k m))"

fun e820_page_init :: "numa \<Rightarrow> (u64 \<Rightarrow> bool) \<Rightarrow> e820entry list \<Rightarrow> physmem \<Rightarrow> unit result \<times> physmem" where
  "e820_page_init nm inuse [] m = (Ok (), m)"
| "e820_page_init nm inuse (d # ds) m =
     (if e820_type d \<noteq> E820_RAM then e820_page_init nm inuse ds m
      else
        (let startpg = unat (ram_start d div PGSIZE); endpg = unat (ram_end d div PGSIZE) in
         bind_r (e820_free_range nm inuse startpg (endpg - startpg) m)
           (\<lambda>_ m. e820_page_init nm inuse ds m)))"

fun register_hw_range :: "nat \<Rightarrow> nat \<Rightarrow> physmem \<Rightarrow> unit result \<times> physmem" where
  "register_hw_range p 0 m = (Ok (), m)"
| "register_hw_range p (Suc k) m = bind_r (page_register_hw p m) (\<lambda>_ m. register_hw_range (Suc p) k m)"

text \<open>
  The three calls of \<open>boot_alloc\<close> in \<open>page_init\<close>: align, allocate the page metadata (64 bytes a
  page, after padding to a cache line), align again.
\<close>

definition page_init_boot :: "boot_state \<Rightarrow> u64 result \<times> boot_state" where
  "page_init_boot b =
     bind_r (boot_alloc 0 4096 b) (\<lambda>_ b.
     bind_r (boot_alloc (ucast (global_npages b * 64)) 4096 b) (\<lambda>v b.
     bind_r (boot_alloc 0 4096 b) (\<lambda>_ b. (Ok v, b))))"

definition null_page_info :: page_info where
  "null_page_info = \<lparr>pi_ref = 0, pi_freepage = False, pi_hwpage = False, pi_pmap = False,
     pi_pmap_int = False, pi_clear = False, pi_hw_ref = 0\<rparr>"

definition page_init ::
  "u64 \<Rightarrow> u64 \<Rightarrow> numa \<Rightarrow> e820entry list \<Rightarrow> boot_state \<Rightarrow> physmem \<Rightarrow> boot_state result \<times> physmem"
where
  "page_init sreplicate ereplicate nm e820_map b m =
     (let m = page_alloc_init m in
      case page_init_boot b of
        (Ok _, b) \<Rightarrow>
          (let m = m\<lparr>page_infos := (\<lambda>_. null_page_info)\<rparr> in
           bind_r (e820_page_init nm (page_inuse sreplicate ereplicate nm b) e820_map m) (\<lambda>_ m.
           bind_r (register_hw_range (unat (IOPHYSMEM div PGSIZE))
             (unat (BIOSPHYSMEM div PGSIZE) - unat (IOPHYSMEM div PGSIZE)) m) (\<lambda>_ m. (Ok b, m))))
      | (Err e, _) \<Rightarrow> (Err e, m)
      | (Panic, _) \<Rightarrow> (Panic, m))"

subsection \<open>The allocator starts with every usable page, once\<close>

definition ram_pages :: "e820entry list \<Rightarrow> nat list" where
  "ram_pages ds = concat (map (\<lambda>d. [unat (ram_start d div PGSIZE)..<unat (ram_end d div PGSIZE)])
     (filter (\<lambda>d. e820_type d = E820_RAM) ds))"

definition usable_pages :: "(u64 \<Rightarrow> bool) \<Rightarrow> e820entry list \<Rightarrow> nat list" where
  "usable_pages inuse ds = filter (\<lambda>j. \<not> inuse (of_nat j)) (ram_pages ds)"

fun free_all :: "numa \<Rightarrow> nat list \<Rightarrow> physmem \<Rightarrow> unit result \<times> physmem" where
  "free_all nm [] m = (Ok (), m)"
| "free_all nm (p # ps) m = bind_r (page_free nm p 0 m) (\<lambda>_ m. free_all nm ps m)"

lemma bind_r_assoc: "bind_r (bind_r x f) g = bind_r x (\<lambda>a s. bind_r (f a s) g)"
  by (cases x; cases "fst x") auto

lemma free_all_append: "free_all nm (ps @ qs) = (\<lambda>m. bind_r (free_all nm ps m) (\<lambda>_ m. free_all nm qs m))"
  by (induction ps) (simp_all add: bind_r_assoc fun_eq_iff [of "\<lambda>m. bind_r _ _"])

lemma e820_free_range_alt:
  "e820_free_range nm inuse j k = free_all nm (filter (\<lambda>j. \<not> inuse (of_nat j)) [j..<j + k])"
proof (induction k arbitrary: j)
  case (Suc k)
  have "[j..<j + Suc k] = j # [Suc j..<Suc j + k]" by (simp add: upt_conv_Cons)
  then show ?case by (intro ext) (simp add: Suc del: upt_Suc)
qed (simp add: fun_eq_iff)

lemma e820_page_init_alt: "e820_page_init nm inuse ds = free_all nm (usable_pages inuse ds)"
proof (induction ds)
  case (Cons d ds)
  have "a + (b - a) = (if a \<le> b then b else a)" for a b :: nat by simp
  then have "[a..<a + (b - a)] = [a..<b]" for a b :: nat by simp
  then show ?case
    by (intro ext) (simp add: Cons usable_pages_def ram_pages_def e820_free_range_alt free_all_append Let_def)
qed (simp add: fun_eq_iff usable_pages_def ram_pages_def)

lemma free_all_inv:
  "mem_inv nm P m R H (mset ps + I) \<Longrightarrow> \<exists>m'. free_all nm ps m = (Ok (), m') \<and> mem_inv nm P m' R H I"
proof (induction ps arbitrary: m)
  case (Cons p ps)
  then have "mem_inv nm P m R H (add_mset p (mset ps + I))" by simp
  then obtain m' where "page_free nm p 0 m = (Ok (), m')" "mem_inv nm P m' R H (mset ps + I)"
    by (rule page_free_ok)
  with Cons.IH show ?case by simp
qed simp

lemma register_hw_inv:
  "mem_inv nm P m R H I \<Longrightarrow> \<forall>q. p \<le> q \<and> q < p + k \<longrightarrow> q \<notin> P \<and> \<not> pi_hwpage (page_infos m q) \<Longrightarrow>
   \<exists>m'. register_hw_range p k m = (Ok (), m') \<and> mem_inv nm P m' R H I"
proof (induction k arbitrary: p m)
  case (Suc k)
  let ?m = "set_pageinfo p (\<lambda>i. i\<lparr>pi_hwpage := True\<rparr>) m"
  have p: "p \<notin> P" "\<not> pi_hwpage (page_infos m p)" using Suc.prems(2) by auto
  then have "\<not> pi_freepage (page_infos m p)" using Suc.prems(1) by (auto simp: mem_inv_defs)
  with p have r: "page_register_hw p m = (Ok (), ?m)"
    by (simp add: page_register_hw_def page_to_pageinfo_def)
  have "mem_inv nm P ?m R H I"
    using Suc.prems(1) p by (auto simp: mem_inv_defs set_pageinfo_def free_pages_def)
  moreover have "\<forall>q. Suc p \<le> q \<and> q < Suc p + k \<longrightarrow> q \<notin> P \<and> \<not> pi_hwpage (page_infos ?m q)"
    using Suc.prems(2) by (auto simp: set_pageinfo_def)
  ultimately show ?case using Suc.IH [of ?m "Suc p"] by (simp add: r)
qed simp

lemma page_infos_free_all: "pi_hwpage (page_infos (snd (free_all nm ps m)) q) = pi_hwpage (page_infos m q)"
proof (induction ps arbitrary: m)
  case (Cons p ps)
  have "pi_hwpage (page_infos (snd (page_free nm p 0 m)) q) = pi_hwpage (page_infos m q)"
    by (auto simp: page_free_def set_pageinfo_def Let_def split: result.split)
  with Cons show ?case by (cases "page_free nm p 0 m"; cases "fst (page_free nm p 0 m)") auto
qed simp


lemma page_inuse_hole:
  "0xA0 \<le> j \<Longrightarrow> j < 0x100 \<Longrightarrow> page_inuse sr er nm b (of_nat j)"
  by (simp add: page_inuse_def phys_layout word_le_nat_alt word_less_nat_alt unat_of_nat Let_def)

lemma page_init_inv_start:
  assumes "numa_ok nm" "distinct ps" "\<forall>p \<in> set ps. is_ok (page_node nm p)"
  shows "mem_inv nm (set ps) ((page_alloc_init m)\<lparr>page_infos := (\<lambda>_. null_page_info)\<rparr>) {#} {#} (mset ps)"
  using assms
  by (auto simp: mem_inv_defs free_pages_def page_alloc_init_def null_page_info_def
      distinct_count_atmost_1)

lemma page_init_establishes:
  assumes nm: "numa_ok nm" and d: "distinct (ram_pages e820)"
    and cov: "\<forall>p \<in> set (ram_pages e820). is_ok (page_node nm p)"
    and boot: "page_init_boot b = (Ok v, b')"
  shows "\<exists>m'. page_init sr er nm e820 b m = (Ok b', m') \<and>
    mem_inv nm (set (usable_pages (page_inuse sr er nm b') e820)) m' {#} {#} {#}"
proof -
  let ?ps = "usable_pages (page_inuse sr er nm b') e820"
  let ?m = "(page_alloc_init m)\<lparr>page_infos := (\<lambda>_. null_page_info)\<rparr>"
  have "mem_inv nm (set ?ps) ?m {#} {#} (mset ?ps + {#})"
    using page_init_inv_start [OF nm, of ?ps m] d cov by (simp add: usable_pages_def)
  from free_all_inv [OF this] obtain m1 where
    m1: "free_all nm ?ps ?m = (Ok (), m1)" "mem_inv nm (set ?ps) m1 {#} {#} {#}" by blast
  have "\<forall>q. 160 \<le> q \<and> q < 160 + 80 \<longrightarrow> q \<notin> set ?ps \<and> \<not> pi_hwpage (page_infos m1 q)"
    using page_infos_free_all [of nm ?ps ?m] page_inuse_hole [of _ sr er nm b'] m1(1)
    by (auto simp: usable_pages_def null_page_info_def)
  from register_hw_inv [OF m1(2) this] obtain m2 where
    "register_hw_range 160 80 m1 = (Ok (), m2)" "mem_inv nm (set ?ps) m2 {#} {#} {#}" by blast
  with m1 show ?thesis
    by (simp add: page_init_def boot e820_page_init_alt phys_layout Let_def)
qed


subsection \<open>Properties\<close>


definition tiny_e820 :: "e820entry list" where
  "tiny_e820 = [\<lparr>e820_addr = 0x800, e820_size = 0x3800, e820_type = 1\<rparr>,
                \<lparr>e820_addr = 0x4000, e820_size = 0x1000, e820_type = 2\<rparr>]"

definition tiny_boot :: boot_state where
  "tiny_boot = \<lparr>boot_freemem = PHYSBASE + 0x100000, boot_endmem = PHYSBASE + 0x200000, membytes = 0x3800,
     global_npages = 4, largest_ram_start = 0\<rparr>"

lemma tiny_ram_pages: "ram_pages tiny_e820 = [1, 2, 3]"
  by (simp add: ram_pages_def tiny_e820_def ram_start_def ram_end_def ROUNDUP_def ROUNDDOWN_def PGSIZE_def
      E820_RAM_def upt_rec)

lemma tiny_boot_alloc:
  "page_init_boot tiny_boot = (Ok (PHYSBASE + 0x100000), tiny_boot\<lparr>boot_freemem := PHYSBASE + 0x101000\<rparr>)"
  by (simp add: page_init_boot_def boot_alloc_def tiny_boot_def ROUNDUP_def ROUNDDOWN_def PHYSBASE_def Let_def)


text \<open>
  The size of the metadata is computed in 64 bits and handed to \<open>boot_alloc\<close> in 32: for 2 to the
  26 pages (256 GB) the request becomes zero bytes, and the metadata overlaps what is allocated
  next.
\<close>

lemma boot_alloc_metadata_truncated:
  "page_init_boot (tiny_boot\<lparr>global_npages := 0x4000000\<rparr>) =
     (Ok (PHYSBASE + 0x100000), tiny_boot\<lparr>global_npages := 0x4000000\<rparr>)"
  by (simp add: page_init_boot_def boot_alloc_def tiny_boot_def ROUNDUP_def ROUNDDOWN_def PHYSBASE_def Let_def)

end
