(* ===== verification/Pagetree.thy ===== *)
theory Pagetree
  imports Page_Alloc
begin

text \<open>
  Page trees (\<^verbatim>\<open>kern/kern/pagetree.c\<close>): a sparse array of references to pages, three entries held
  directly and four trees of indirect pages below them, with reference counts and copy-on-write
  sharing.  A tree owns its indirect pages, so it is a datatype here, each node carrying the page
  it lives in; a pointer to an entry is the path to it.  Entries are updated under the locks of
  the tree's owner, and every operation is atomic.
\<close>

subsection \<open>Entries and trees\<close>

datatype page_sharing_mode = page_none | page_shared_cow | page_shared_cor | page_excl

record pagetree_entry =
  pe_page :: "page option"
  pe_mode :: page_sharing_mode

definition null_pe :: pagetree_entry where
  "null_pe = \<lparr>pe_page = None, pe_mode = page_none\<rparr>"

text \<open>An entry takes 24 bytes (pointer, mode, lock), a pointer 8.\<close>

definition PAGETREE_ENTRIES_PER_PAGE :: nat where
  "PAGETREE_ENTRIES_PER_PAGE = 170"

definition PAGETREE_INDIRECT_PER_PAGE :: nat where
  "PAGETREE_INDIRECT_PER_PAGE = 512"

definition PAGETREE_DIRECT_ENTRIES :: nat where
  "PAGETREE_DIRECT_ENTRIES = 3"

definition PAGETREE_INDIRECT_ENTRIES :: nat where
  "PAGETREE_INDIRECT_ENTRIES = 4"

lemmas pagetree_layout = PAGETREE_ENTRIES_PER_PAGE_def PAGETREE_INDIRECT_PER_PAGE_def
  PAGETREE_DIRECT_ENTRIES_def PAGETREE_INDIRECT_ENTRIES_def

declare pagetree_layout [layout_consts]

datatype pagetree_indirect =
    Pi_entry page "pagetree_entry list"
  | Pi_indir page "pagetree_indirect option list"

record pagetree =
  pt_direct :: "pagetree_entry list"
  pt_indir :: "pagetree_indirect option list"
  pt_pid :: nat
  pt_demand :: bool

datatype entp = EDirect nat | EIndir nat "nat list"

fun ind_read :: "pagetree_indirect option \<Rightarrow> nat list \<Rightarrow> pagetree_entry" where
  "ind_read (Some (Pi_entry p es)) [i] = es ! i"
| "ind_read (Some (Pi_indir p ks)) (s # path) = ind_read (ks ! s) path"
| "ind_read _ _ = null_pe"

fun ind_write :: "pagetree_indirect option \<Rightarrow> nat list \<Rightarrow> pagetree_entry \<Rightarrow> pagetree_indirect option" where
  "ind_write (Some (Pi_entry p es)) [i] e = Some (Pi_entry p (es[i := e]))"
| "ind_write (Some (Pi_indir p ks)) (s # path) e = Some (Pi_indir p (ks[s := ind_write (ks ! s) path e]))"
| "ind_write t _ e = t"

fun read_ent :: "pagetree \<Rightarrow> entp \<Rightarrow> pagetree_entry" where
  "read_ent pt (EDirect i) = pt_direct pt ! i"
| "read_ent pt (EIndir i path) = ind_read (pt_indir pt ! i) path"

fun write_ent :: "pagetree \<Rightarrow> entp \<Rightarrow> pagetree_entry \<Rightarrow> pagetree" where
  "write_ent pt (EDirect i) e = pt\<lparr>pt_direct := (pt_direct pt)[i := e]\<rparr>"
| "write_ent pt (EIndir i path) e = pt\<lparr>pt_indir := (pt_indir pt)[i := ind_write (pt_indir pt ! i) path e]\<rparr>"

subsection \<open>Reference counts\<close>

definition pagetree_decref :: "numa \<Rightarrow> page \<Rightarrow> physmem \<Rightarrow> unit result \<times> physmem" where
  "pagetree_decref nm p m =
     (let m = set_pageinfo p (\<lambda>i. i\<lparr>pi_ref := pi_ref i - 1\<rparr>) m in
      if pi_ref (page_to_pageinfo m p) = 0 then
        (if pi_hw_ref (page_to_pageinfo m p) \<noteq> 0 then (Panic, m) else page_free nm p 0 m)
      else (Ok (), m))"

definition pagetree_incref :: "page \<Rightarrow> physmem \<Rightarrow> physmem" where
  "pagetree_incref p m = set_pageinfo p (\<lambda>i. i\<lparr>pi_ref := pi_ref i + 1\<rparr>) m"

definition pagetree_incref_hw :: "page \<Rightarrow> physmem \<Rightarrow> unit result \<times> physmem" where
  "pagetree_incref_hw p m =
     (let pi = page_to_pageinfo m p in
      if pi_ref pi = 0 then (Panic, m)
      else if pi_ref pi < pi_hw_ref pi then (Panic, m)
      else (Ok (), set_pageinfo p (\<lambda>i. i\<lparr>pi_ref := pi_ref i + 1, pi_hw_ref := pi_hw_ref i + 1\<rparr>) m))"

definition pagetree_decref_hw :: "numa \<Rightarrow> page \<Rightarrow> physmem \<Rightarrow> unit result \<times> physmem" where
  "pagetree_decref_hw nm p m =
     (let pi = page_to_pageinfo m p in
      if pi_hw_ref pi = 0 then (Panic, m)
      else if pi_ref pi < pi_hw_ref pi then (Panic, m)
      else pagetree_decref nm p (set_pageinfo p (\<lambda>i. i\<lparr>pi_hw_ref := pi_hw_ref i - 1\<rparr>) m))"

subsection \<open>Finding an entry\<close>

text \<open>A zeroed page, read at a level of the tree.\<close>

definition zero_indirect :: "nat \<Rightarrow> page \<Rightarrow> pagetree_indirect" where
  "zero_indirect level p =
     (if level = 0 then Pi_entry p (replicate PAGETREE_ENTRIES_PER_PAGE null_pe)
      else Pi_indir p (replicate PAGETREE_INDIRECT_PER_PAGE None))"

text \<open>\<open>n_pages_per_i\<close> at level \<open>l + 1\<close>, which is what one slot at that level spans.\<close>

definition n_pages_per_i :: "nat \<Rightarrow> nat" where
  "n_pages_per_i l = PAGETREE_ENTRIES_PER_PAGE * PAGETREE_INDIRECT_PER_PAGE ^ l"

definition ensure_indirect ::
  "numa \<Rightarrow> nat \<Rightarrow> nat \<Rightarrow> pagetree_indirect option \<times> physmem \<Rightarrow>
     pagetree_indirect result \<times> pagetree_indirect option \<times> physmem"
where
  "ensure_indirect nm level pid s =
     (case s of
        (Some t, m) \<Rightarrow> (Ok t, Some t, m)
      | (None, m) \<Rightarrow>
          (case page_alloc nm pid m of
             (Ok va, m) \<Rightarrow> (Ok (zero_indirect level va), Some (zero_indirect level va), page_zero va m)
           | (Err e, m) \<Rightarrow> (Err e, None, m)
           | (Panic, m) \<Rightarrow> (Panic, None, m)))"

fun pagetree_get_entp_indirect ::
  "numa \<Rightarrow> nat \<Rightarrow> nat \<Rightarrow> nat \<Rightarrow> pagetree_indirect option \<times> physmem \<Rightarrow>
     nat list result \<times> pagetree_indirect option \<times> physmem"
where
  "pagetree_get_entp_indirect nm 0 npage pid s =
     bind_r (ensure_indirect nm 0 pid s) (\<lambda>_ s.
       if npage < PAGETREE_ENTRIES_PER_PAGE then (Ok [npage], s) else (Panic, s))"
| "pagetree_get_entp_indirect nm (Suc l) npage pid s =
     bind_r (ensure_indirect nm (Suc l) pid s) (\<lambda>t (indir, m).
       case t of
         Pi_entry _ _ \<Rightarrow> (Panic, indir, m)
       | Pi_indir p ks \<Rightarrow>
           (let next_slot = (npage div n_pages_per_i l) mod 2 ^ 32;
                next_page = (npage mod n_pages_per_i l) mod 2 ^ 32;
                (r, k, m) = pagetree_get_entp_indirect nm l next_page pid (ks ! next_slot, m)
            in bind_r (r, Some (Pi_indir p (ks[next_slot := k])), m)
                 (\<lambda>path s. (Ok (next_slot # path), s))))"

text \<open>\<open>k\<close> of the indirect trees are left, \<open>i\<close> is the next one.\<close>

fun get_entp_loop ::
  "numa \<Rightarrow> nat \<Rightarrow> nat \<Rightarrow> nat \<Rightarrow> nat \<Rightarrow> pagetree \<times> physmem \<Rightarrow> entp result \<times> pagetree \<times> physmem"
where
  "get_entp_loop nm i 0 npage num_indirect_pages s = (Err E_NO_SPACE, s)"
| "get_entp_loop nm i (Suc k) npage num_indirect_pages s =
     (if npage < num_indirect_pages then
        (let (pt, m) = s;
             (r, t, m) = pagetree_get_entp_indirect nm i npage (pt_pid pt) (pt_indir pt ! i, m)
         in bind_r (r, pt\<lparr>pt_indir := (pt_indir pt)[i := t]\<rparr>, m) (\<lambda>path s. (Ok (EIndir i path), s)))
      else get_entp_loop nm (Suc i) k (npage - num_indirect_pages)
             (num_indirect_pages * PAGETREE_INDIRECT_PER_PAGE) s)"

definition pagetree_get_entp ::
  "numa \<Rightarrow> nat \<Rightarrow> pagetree \<times> physmem \<Rightarrow> entp result \<times> pagetree \<times> physmem"
where
  "pagetree_get_entp nm npage s =
     (if npage < PAGETREE_DIRECT_ENTRIES then (Ok (EDirect npage), s)
      else get_entp_loop nm 0 PAGETREE_INDIRECT_ENTRIES (npage - PAGETREE_DIRECT_ENTRIES)
             PAGETREE_ENTRIES_PER_PAGE s)"

subsection \<open>Reading and replacing pages\<close>

text \<open>A copy of an entry that refers to no page would read through a null pointer.\<close>

definition pagetree_copy_page ::
  "numa \<Rightarrow> entp \<Rightarrow> nat \<Rightarrow> pagetree \<times> physmem \<Rightarrow> unit result \<times> pagetree \<times> physmem"
where
  "pagetree_copy_page nm ep pid s =
     (let (pt, m) = s; (r, m) = page_alloc nm pid m in
      bind_r (r, pt, m) (\<lambda>pp (pt, m).
        case pe_page (read_ent pt ep) of
          None \<Rightarrow> (Panic, pt, m)
        | Some old \<Rightarrow>
            (let m = page_copy pp old m;
                 m = set_pageinfo pp (\<lambda>i. i\<lparr>pi_clear := True\<rparr>) m;
                 m = pagetree_incref pp m;
                 (r, m) = pagetree_decref nm old m
             in bind_r (r, pt, m) (\<lambda>_ (pt, m).
                  (Ok (), write_ent pt ep \<lparr>pe_page = Some pp, pe_mode = page_excl\<rparr>, m)))))"

definition pagetree_get_page ::
  "numa \<Rightarrow> nat \<Rightarrow> page_sharing_mode \<Rightarrow> pagetree \<times> physmem \<Rightarrow> page option result \<times> pagetree \<times> physmem"
where
  "pagetree_get_page nm npage mode s =
     bind_r (pagetree_get_entp nm npage s) (\<lambda>ep (pt, m).
     bind_r (let pe = read_ent pt ep in
             if pe_mode pe = page_shared_cor then
               (if mode = page_excl then (Panic, pt, m) else pagetree_copy_page nm ep (pt_pid pt) (pt, m))
             else if pe_mode pe = page_shared_cow then
               (if mode = page_excl then (Panic, pt, m)
                else if mode = page_shared_cow then pagetree_copy_page nm ep (pt_pid pt) (pt, m)
                else (Ok (), pt, m))
             else (Ok (), pt, m)) (\<lambda>_ (pt, m).
     if pe_page (read_ent pt ep) = None \<and> pt_demand pt then
       (case page_alloc nm (pt_pid pt) m of
          (Ok p, m) \<Rightarrow>
            (Ok (Some p), write_ent pt ep \<lparr>pe_page = Some p, pe_mode = page_excl\<rparr>, pagetree_incref p m)
        | (_, m) \<Rightarrow> (Panic, pt, m))
     else (Ok (pe_page (read_ent pt ep)), pt, m)))"

definition pagetree_put_page ::
  "numa \<Rightarrow> nat \<Rightarrow> page option \<Rightarrow> pagetree \<times> physmem \<Rightarrow> unit result \<times> pagetree \<times> physmem"
where
  "pagetree_put_page nm npage pg s =
     bind_r (pagetree_get_entp nm npage s) (\<lambda>ep (pt, m).
       let (r, m) = (case pe_page (read_ent pt ep) of None \<Rightarrow> (Ok (), m) | Some old \<Rightarrow> pagetree_decref nm old m)
       in bind_r (r, pt, m) (\<lambda>_ (pt, m).
            let m = (case pg of None \<Rightarrow> m | Some p \<Rightarrow> pagetree_incref p m)
            in (Ok (), write_ent pt ep \<lparr>pe_page = pg, pe_mode = page_excl\<rparr>, m)))"

subsection \<open>Freeing a tree\<close>

fun decref_ents :: "numa \<Rightarrow> pagetree_entry list \<Rightarrow> physmem \<Rightarrow> unit result \<times> physmem" where
  "decref_ents nm [] m = (Ok (), m)"
| "decref_ents nm (e # es) m =
     (case pe_page e of
        None \<Rightarrow> decref_ents nm es m
      | Some p \<Rightarrow> bind_r (pagetree_decref nm p m) (\<lambda>_ m. decref_ents nm es m))"

fun free_kids :: "('t \<Rightarrow> physmem \<Rightarrow> unit result \<times> physmem) \<Rightarrow> 't list \<Rightarrow> physmem \<Rightarrow> unit result \<times> physmem" where
  "free_kids f [] m = (Ok (), m)"
| "free_kids f (k # ks) m = bind_r (f k m) (\<lambda>_ m. free_kids f ks m)"

primrec pagetree_free_indirect ::
  "numa \<Rightarrow> nat \<Rightarrow> pagetree_indirect option \<Rightarrow> physmem \<Rightarrow> unit result \<times> physmem"
where
  "pagetree_free_indirect nm 0 t m =
     (case t of
        None \<Rightarrow> (Ok (), m)
      | Some (Pi_entry p es) \<Rightarrow> bind_r (decref_ents nm es m) (\<lambda>_ m. page_free nm p 0 m)
      | Some (Pi_indir _ _) \<Rightarrow> (Panic, m))"
| "pagetree_free_indirect nm (Suc l) t m =
     (case t of
        None \<Rightarrow> (Ok (), m)
      | Some (Pi_indir p ks) \<Rightarrow>
          bind_r (free_kids (pagetree_free_indirect nm l) ks m) (\<lambda>_ m. page_free nm p 0 m)
      | Some (Pi_entry _ _) \<Rightarrow> (Panic, m))"

text \<open>\<open>i\<close> is the level of the first tree of the list.\<close>

fun free_trees :: "numa \<Rightarrow> nat \<Rightarrow> pagetree_indirect option list \<Rightarrow> physmem \<Rightarrow> unit result \<times> physmem" where
  "free_trees nm i [] m = (Ok (), m)"
| "free_trees nm i (t # ts) m =
     bind_r (pagetree_free_indirect nm i t m) (\<lambda>_ m. free_trees nm (Suc i) ts m)"

definition pagetree_free :: "numa \<Rightarrow> pagetree \<times> physmem \<Rightarrow> unit result \<times> pagetree \<times> physmem" where
  "pagetree_free nm s =
     (let (pt, m) = s; (r, m) = decref_ents nm (pt_direct pt) m in
      bind_r (r, pt\<lparr>pt_direct := map (\<lambda>e. e\<lparr>pe_page := None\<rparr>) (pt_direct pt)\<rparr>, m) (\<lambda>_ (pt, m).
        let (r, m) = free_trees nm 0 (pt_indir pt) m
        in (r, pt\<lparr>pt_indir := map (\<lambda>_. None) (pt_indir pt)\<rparr>, m)))"

definition pagetree_init :: "bool \<Rightarrow> nat \<Rightarrow> pagetree" where
  "pagetree_init on_demand pid =
     \<lparr>pt_direct = replicate PAGETREE_DIRECT_ENTRIES null_pe,
      pt_indir = replicate PAGETREE_INDIRECT_ENTRIES None, pt_pid = pid, pt_demand = on_demand\<rparr>"

subsection \<open>Copying a tree\<close>

text \<open>
  Source and destination are both updated; the state of the copy of one entry is the two entries
  and the memory.
\<close>

definition pagetree_copy_ent ::
  "numa \<Rightarrow> page_sharing_mode \<Rightarrow> nat \<Rightarrow> pagetree_entry \<times> pagetree_entry \<times> physmem \<Rightarrow>
     unit result \<times> pagetree_entry \<times> pagetree_entry \<times> physmem"
where
  "pagetree_copy_ent nm mode pid s =
     (let (src, dst, m) = s in
      case pe_page src of
        None \<Rightarrow> (Panic, s)
      | Some sp \<Rightarrow>
          if mode = page_excl then
            (let (r, m) = page_alloc nm pid m in
             bind_r (r, src, dst, m) (\<lambda>p (src, dst, m).
               (Ok (), src, \<lparr>pe_page = Some p, pe_mode = mode\<rparr>, page_copy p sp (pagetree_incref p m))))
          else (Ok (), src\<lparr>pe_mode := page_shared_cow\<rparr>, \<lparr>pe_page = Some sp, pe_mode = mode\<rparr>, pagetree_incref sp m))"

fun copy_ents ::
  "numa \<Rightarrow> page_sharing_mode \<Rightarrow> nat \<Rightarrow> (pagetree_entry \<times> pagetree_entry) list \<Rightarrow> physmem \<Rightarrow>
     unit result \<times> (pagetree_entry \<times> pagetree_entry) list \<times> physmem"
where
  "copy_ents nm mode pid [] m = (Ok (), [], m)"
| "copy_ents nm mode pid ((src, dst) # es) m =
     (let (r, src, dst, m) = (if pe_page src = None then (Ok (), src, dst, m)
                              else pagetree_copy_ent nm mode pid (src, dst, m))
      in bind_r (r, (src, dst) # es, m) (\<lambda>_ (_, m).
           let (r, es, m) = copy_ents nm mode pid es m in (r, (src, dst) # es, m)))"

fun copy_kids ::
  "('t \<Rightarrow> physmem \<Rightarrow> unit result \<times> ('t \<times> 't) \<times> physmem) \<Rightarrow> 't \<Rightarrow> 't list \<Rightarrow> physmem \<Rightarrow>
     unit result \<times> ('t \<times> 't) list \<times> physmem"
where
  "copy_kids f none [] m = (Ok (), [], m)"
| "copy_kids f none (k # ks) m =
     (let (r, kd, m) = f k m in
      bind_r (r, kd # map (\<lambda>k. (k, none)) ks, m) (\<lambda>_ (_, m).
        let (r, kds, m) = copy_kids f none ks m in (r, kd # kds, m)))"

text \<open>The destination slot is empty; the pair is the source tree and the copy.\<close>

primrec pagetree_copy_indirect ::
  "numa \<Rightarrow> page_sharing_mode \<Rightarrow> nat \<Rightarrow> nat \<Rightarrow> pagetree_indirect option \<Rightarrow> physmem \<Rightarrow>
     unit result \<times> (pagetree_indirect option \<times> pagetree_indirect option) \<times> physmem"
where
  "pagetree_copy_indirect nm mode pid 0 t m =
     (case t of
        None \<Rightarrow> (Ok (), (None, None), m)
      | Some (Pi_entry p es) \<Rightarrow>
          (let (r, m) = page_alloc nm pid m in
           bind_r (r, (t, None), m) (\<lambda>d (_, m).
             let m = page_zero d m;
                 (r, prs, m) = copy_ents nm mode pid (map (\<lambda>e. (e, null_pe)) es) m
             in (r, (Some (Pi_entry p (map fst prs)), Some (Pi_entry d (map snd prs))), m)))
      | Some (Pi_indir _ _) \<Rightarrow> (Panic, (t, None), m))"
| "pagetree_copy_indirect nm mode pid (Suc l) t m =
     (case t of
        None \<Rightarrow> (Ok (), (None, None), m)
      | Some (Pi_indir p ks) \<Rightarrow>
          (let (r, m) = page_alloc nm pid m in
           bind_r (r, (t, None), m) (\<lambda>d (_, m).
             let m = page_zero d m;
                 (r, prs, m) = copy_kids (pagetree_copy_indirect nm mode pid l) None ks m
             in (r, (Some (Pi_indir p (map fst prs)), Some (Pi_indir d (map snd prs))), m)))
      | Some (Pi_entry _ _) \<Rightarrow> (Panic, (t, None), m))"

fun copy_trees ::
  "numa \<Rightarrow> page_sharing_mode \<Rightarrow> nat \<Rightarrow> nat \<Rightarrow> pagetree_indirect option list \<Rightarrow> physmem \<Rightarrow>
     unit result \<times> (pagetree_indirect option \<times> pagetree_indirect option) list \<times> physmem"
where
  "copy_trees nm mode pid i [] m = (Ok (), [], m)"
| "copy_trees nm mode pid i (t # ts) m =
     (let (r, td, m) = pagetree_copy_indirect nm mode pid i t m in
      bind_r (r, td # map (\<lambda>t. (t, None)) ts, m) (\<lambda>_ (_, m).
        let (r, tds, m) = copy_trees nm mode pid (Suc i) ts m in (r, td # tds, m)))"

text \<open>After a failure the destination is freed and the error returned.\<close>

definition copy_cleanup ::
  "numa \<Rightarrow> unit result \<Rightarrow> pagetree \<Rightarrow> pagetree \<Rightarrow> physmem \<Rightarrow> unit result \<times> pagetree \<times> pagetree \<times> physmem"
where
  "copy_cleanup nm r src dst m =
     (case r of
        Err e \<Rightarrow> (case pagetree_free nm (dst, m) of
                    (Ok _, dst, m) \<Rightarrow> (Err e, src, dst, m)
                  | (_, dst, m) \<Rightarrow> (Panic, src, dst, m))
      | _ \<Rightarrow> (r, src, dst, m))"

definition pagetree_copy ::
  "numa \<Rightarrow> page_sharing_mode \<Rightarrow> pagetree \<times> pagetree \<times> physmem \<Rightarrow>
     unit result \<times> pagetree \<times> pagetree \<times> physmem"
where
  "pagetree_copy nm mode s =
     (let (src, dst, m) = s; (r, dst, m) = pagetree_free nm (dst, m) in
      bind_r (r, src, dst, m) (\<lambda>_ (src, dst, m).
        let dst = dst\<lparr>pt_demand := pt_demand src\<rparr>;
            (r, prs, m) = copy_ents nm mode (pt_pid dst) (zip (pt_direct src) (pt_direct dst)) m;
            src = src\<lparr>pt_direct := map fst prs\<rparr>; dst = dst\<lparr>pt_direct := map snd prs\<rparr>
        in if \<not> is_ok r then copy_cleanup nm r src dst m
           else
             (let (r, tds, m) = copy_trees nm mode (pt_pid dst) 0 (pt_indir src) m;
                  src = src\<lparr>pt_indir := map fst tds\<rparr>; dst = dst\<lparr>pt_indir := map snd tds\<rparr>
              in copy_cleanup nm r src dst m)))"

end
