(* ===== verification/Pagetree_Inv.thy ===== *)
theory Pagetree_Inv
  imports Pagetree
begin

text \<open>
  Page trees keep the page accounting: what a tree refers to and which pages it is built of, and
  what finding, replacing, looking up and releasing entries does to the tree, to its lookup
  function and to the memory.
\<close>

subsection \<open>Reference counts and the accounting\<close>

lemma owned_incref: "owned_ok P F R (add_mset p I) \<Longrightarrow> owned_ok P F (add_mset p R) I"
proof -
  assume a: "owned_ok P F R (add_mset p I)"
  then have c: "count (add_mset p I) q \<le> 1" for q unfolding owned_ok_def by blast
  have "count I q \<le> 1" for q using c [of q] by (auto split: if_splits)
  moreover have "p \<notin># I" using c [of p] by (simp add: not_in_iff)
  ultimately show ?thesis using a by (auto simp: owned_ok_def)
qed

lemma incref_owned:
  assumes "mem_inv nm P m R H (add_mset p I)" "size R + 1 < 2 ^ 32"
  shows "mem_inv nm P (pagetree_incref p m) (add_mset p R) H I"
  using assms owned_incref [of P "free_pages m" R p I]
  by (auto simp: mem_inv_def freelist_ok_def refs_ok_def pool_ok_def pagetree_incref_def set_pageinfo_def
      free_pages_def intro: subset_mset.order_trans)

lemma incref_shared:
  assumes "mem_inv nm P m R H I" "p \<in># R" "size R + 1 < 2 ^ 32"
  shows "mem_inv nm P (pagetree_incref p m) (add_mset p R) H I"
  using assms
  by (auto simp: mem_inv_defs pagetree_incref_def set_pageinfo_def
      free_pages_def intro: subset_mset.order_trans)

lemma incref_frame [simp]:
  "page_words (pagetree_incref p m) = page_words m" "free_pages (pagetree_incref p m) = free_pages m"
  by (simp_all add: pagetree_incref_def set_pageinfo_def free_pages_def)

lemma decref_ok:
  assumes inv: "mem_inv nm P m (add_mset p R) H I" and H: "H \<subseteq># R"
  obtains m' where "pagetree_decref nm p m = (Ok (), m')" "mem_inv nm P m' R H I"
    "free_pages m' = (if p \<in># R then free_pages m else insert p (free_pages m))" "page_words m' = page_words m"
proof -
  let ?m = "set_pageinfo p (\<lambda>i. i\<lparr>pi_ref := pi_ref i - 1\<rparr>) m"
  have ref: "pi_ref (page_infos ?m q) = of_nat (count R q)" for q
    using inv by (auto simp: mem_inv_def refs_ok_def set_pageinfo_def)
  have "size R < 2 ^ 32" using inv by (simp add: mem_inv_defs)
  then have "count R p < 2 ^ 32" using count_le_size [of R p] by (rule order_le_less_trans [rotated])
  then have z: "(of_nat (count R p) :: u32) = 0 \<longleftrightarrow> p \<notin># R"
    using nat_dvd_not_less [of "count R p" "2 ^ 32"]
    by (cases "count R p = 0") (auto simp: word_of_nat_eq_0_iff not_in_iff)
  have fl: "freelist_ok nm ?m" "refs_ok ?m R H" "pool_ok nm P ?m" "free_pages ?m = free_pages m"
    using inv H ref by (auto simp: mem_inv_defs set_pageinfo_def free_pages_def)
  show thesis
  proof (cases "p \<in># R")
    case True
    then have "mem_inv nm P ?m R H I" using inv fl by (auto simp: mem_inv_def owned_ok_def)
    moreover have "pagetree_decref nm p m = (Ok (), ?m)"
      using True z ref [of p] by (simp add: pagetree_decref_def page_to_pageinfo_def)
    ultimately show thesis using True fl that by (simp add: set_pageinfo_def)
  next
    case False
    with inv have "p \<notin># I" by (auto simp: mem_inv_defs)
    then have "owned_ok P (free_pages m) R (add_mset p I)"
      using inv False by (auto simp: mem_inv_def owned_ok_def not_in_iff)
    then have "mem_inv nm P ?m R H (add_mset p I)" using fl by (simp add: mem_inv_def)
    then obtain m' where m': "page_free nm p 0 ?m = (Ok (), m')" "mem_inv nm P m' R H I"
      "free_pages m' = insert p (free_pages ?m)" "page_words m' = page_words ?m" by (rule page_free_ok)
    have "count H p = 0" using H False by (metis mset_subset_eqD not_in_iff)
    then have "pi_hw_ref (page_infos ?m p) = 0" using inv by (simp add: mem_inv_def refs_ok_def set_pageinfo_def)
    then have "pagetree_decref nm p m = (Ok (), m')"
      using False z ref [of p] m' by (simp add: pagetree_decref_def page_to_pageinfo_def Let_def)
    with m' fl False show thesis by (intro that [of m']) (simp_all add: set_pageinfo_def)
  qed
qed

subsection \<open>What a tree holds\<close>

abbreviation EPP :: nat where "EPP \<equiv> PAGETREE_ENTRIES_PER_PAGE"
abbreviation IPP :: nat where "IPP \<equiv> PAGETREE_INDIRECT_PER_PAGE"

primrec ind_wf :: "nat \<Rightarrow> pagetree_indirect option \<Rightarrow> bool" where
  "ind_wf 0 t = (case t of None \<Rightarrow> True | Some (Pi_entry p es) \<Rightarrow> length es = EPP | _ \<Rightarrow> False)"
| "ind_wf (Suc l) t =
     (case t of None \<Rightarrow> True | Some (Pi_indir p ks) \<Rightarrow> length ks = IPP \<and> (\<forall>k \<in> set ks. ind_wf l k) | _ \<Rightarrow> False)"

primrec ind_lookup :: "nat \<Rightarrow> pagetree_indirect option \<Rightarrow> nat \<Rightarrow> pagetree_entry" where
  "ind_lookup 0 t n = (case t of Some (Pi_entry p es) \<Rightarrow> es ! n | _ \<Rightarrow> null_pe)"
| "ind_lookup (Suc l) t n =
     (case t of Some (Pi_indir p ks) \<Rightarrow> ind_lookup l (ks ! (n div n_pages_per_i l)) (n mod n_pages_per_i l)
      | _ \<Rightarrow> null_pe)"

definition ent_refs :: "pagetree_entry \<Rightarrow> page multiset" where
  "ent_refs e = (case pe_page e of None \<Rightarrow> {#} | Some p \<Rightarrow> {#p#})"

definition ents_refs :: "pagetree_entry list \<Rightarrow> page multiset" where
  "ents_refs es = sum_list (map ent_refs es)"

primrec ind_refs :: "nat \<Rightarrow> pagetree_indirect option \<Rightarrow> page multiset" where
  "ind_refs 0 t = (case t of Some (Pi_entry p es) \<Rightarrow> ents_refs es | _ \<Rightarrow> {#})"
| "ind_refs (Suc l) t = (case t of Some (Pi_indir p ks) \<Rightarrow> sum_list (map (ind_refs l) ks) | _ \<Rightarrow> {#})"

primrec ind_pages :: "nat \<Rightarrow> pagetree_indirect option \<Rightarrow> page multiset" where
  "ind_pages 0 t = (case t of Some (Pi_entry p es) \<Rightarrow> {#p#} | _ \<Rightarrow> {#})"
| "ind_pages (Suc l) t =
     (case t of Some (Pi_indir p ks) \<Rightarrow> add_mset p (sum_list (map (ind_pages l) ks)) | _ \<Rightarrow> {#})"

primrec ind_path :: "nat \<Rightarrow> nat \<Rightarrow> nat list" where
  "ind_path 0 n = [n]"
| "ind_path (Suc l) n = (n div n_pages_per_i l) # ind_path l (n mod n_pages_per_i l)"

primrec ind_has :: "nat \<Rightarrow> pagetree_indirect option \<Rightarrow> nat \<Rightarrow> bool" where
  "ind_has 0 t n = (case t of Some (Pi_entry p es) \<Rightarrow> True | _ \<Rightarrow> False)"
| "ind_has (Suc l) t n =
     (case t of Some (Pi_indir p ks) \<Rightarrow> ind_has l (ks ! (n div n_pages_per_i l)) (n mod n_pages_per_i l)
      | _ \<Rightarrow> False)"

lemma pages_per_pos [simp]: "0 < n_pages_per_i l"
  by (simp add: n_pages_per_i_def pagetree_layout)

lemma pages_per_Suc: "n_pages_per_i (Suc l) = n_pages_per_i l * IPP"
  by (simp add: n_pages_per_i_def)

lemma slot_less: "n < n_pages_per_i (Suc l) \<Longrightarrow> n div n_pages_per_i l < IPP"
  by (simp add: pages_per_Suc less_mult_imp_div_less mult.commute)

lemma slot_small: "n < n_pages_per_i (Suc l) \<Longrightarrow> l \<le> 2 \<Longrightarrow>
    n div n_pages_per_i l mod 2 ^ 32 = n div n_pages_per_i l \<and>
    n mod n_pages_per_i l mod 2 ^ 32 = n mod n_pages_per_i l"
proof -
  assume a: "n < n_pages_per_i (Suc l)" "l \<le> 2"
  have "n_pages_per_i l \<le> n_pages_per_i 2"
    using a(2) unfolding n_pages_per_i_def
    by (intro mult_le_mono2 power_increasing) (auto simp: pagetree_layout)
  then have "n_pages_per_i l < 2 ^ 32" by (simp add: n_pages_per_i_def pagetree_layout)
  moreover have "n mod n_pages_per_i l < n_pages_per_i l" by simp
  ultimately have "n mod n_pages_per_i l < 2 ^ 32" by linarith
  moreover have "n div n_pages_per_i l < 2 ^ 32"
    using slot_less [OF a(1)] by (simp add: pagetree_layout)
  ultimately show ?thesis by simp
qed

lemma sum_list_replicate_empty [simp]: "sum_list (replicate n {#}) = {#}"
  by (induction n) auto

lemma zero_indirect_facts:
  "ind_wf l (Some (zero_indirect l p))" "ind_refs l (Some (zero_indirect l p)) = {#}"
  "ind_pages l (Some (zero_indirect l p)) = {#p#}"
  "n < n_pages_per_i l \<Longrightarrow> ind_lookup l (Some (zero_indirect l p)) n = null_pe"
proof -
  have none: "ind_wf l None" "ind_refs l None = {#}" "ind_pages l None = {#}" "ind_lookup l None n = null_pe" for l n
    by (cases l; simp)+
  show "ind_wf l (Some (zero_indirect l p))" "ind_refs l (Some (zero_indirect l p)) = {#}"
    "ind_pages l (Some (zero_indirect l p)) = {#p#}"
    by (cases l; simp add: zero_indirect_def none ents_refs_def ent_refs_def null_pe_def map_replicate_const)+
  show "n < n_pages_per_i l \<Longrightarrow> ind_lookup l (Some (zero_indirect l p)) n = null_pe"
    using slot_less by (cases l) (auto simp: zero_indirect_def none n_pages_per_i_def)
qed

lemma ind_None [simp]:
  "ind_wf l None" "ind_refs l None = {#}" "ind_pages l None = {#}" "ind_lookup l None n = null_pe"
  "ind_has l None n = False"
  by (cases l; simp)+

lemma sum_list_update_mset:
  "i < length xs \<Longrightarrow> sum_list (map f (xs[i := x])) + f (xs ! i) = sum_list (map f xs) + (f x :: 'b multiset)"
proof (induction xs arbitrary: i)
  case (Cons a xs)
  then show ?case by (cases i) (auto simp: ac_simps)
qed simp


lemma elem_sub_sum_list: "x \<in> set xs \<Longrightarrow> x \<subseteq># (sum_list xs :: 'b multiset)"
  by (induction xs) (auto simp: subset_mset.add_increasing subset_mset.add_increasing2)

lemma mset_exchange:
  "T' + K = T + K' \<Longrightarrow> I' + K = I + T \<Longrightarrow> I + T' = I' + (K' :: 'b multiset)"
proof -
  assume a: "T' + K = T + K'" and b: "I' + K = I + T"
  have "(I + T') + K = I + (T + K')" by (simp add: a add.assoc)
  also have "\<dots> = (I' + K) + K'" by (simp add: b add.assoc)
  also have "\<dots> = (I' + K') + K" by (simp add: ac_simps)
  finally show ?thesis by simp
qed

subsection \<open>Finding an entry\<close>

text \<open>
  What stays the same when an entry is looked up: the reference multiset, every entry of the tree,
  and the contents of every page that was in use.
\<close>

definition keeps_data :: "physmem \<Rightarrow> physmem \<Rightarrow> bool" where
  "keeps_data m m' = (\<forall>p. p \<notin> free_pages m \<longrightarrow> p \<notin> free_pages m' \<and> page_words m' p = page_words m p)"

lemma keeps_data_refl [simp]: "keeps_data m m"
  by (simp add: keeps_data_def)

lemma keeps_data_trans: "keeps_data m m' \<Longrightarrow> keeps_data m' m'' \<Longrightarrow> keeps_data m m''"
  by (auto simp: keeps_data_def)

definition oom :: "physmem \<Rightarrow> bool" where
  "oom m = (free_pages m = {})"

lemma ensure_indirect_ok:
  assumes wf: "ind_wf l t" and inv: "mem_inv nm P m R H (I + ind_pages l t)"
  obtains t' m' where "ensure_indirect nm l pid (t, m) = (Ok t', Some t', m')" "ind_wf l (Some t')"
      "mem_inv nm P m' R H (I + ind_pages l (Some t'))" "ind_refs l (Some t') = ind_refs l t"
      "\<And>n. n < n_pages_per_i l \<Longrightarrow> ind_lookup l (Some t') n = ind_lookup l t n" "keeps_data m m'"
  | m' where "ensure_indirect nm l pid (t, m) = (Err E_NO_MEM, None, m')" "t = None"
      "mem_inv nm P m' R H I" "oom m'" "keeps_data m m'"
proof (cases t)
  case (Some t')
  with wf inv that(1) [of t' m] show thesis by (simp add: ensure_indirect_def)
next
  case None
  with inv have inv': "mem_inv nm P m R H I" by simp
  show thesis
  proof (rule page_alloc_ok [OF inv', of pid])
    fix p m'
    assume a: "page_alloc nm pid m = (Ok p, m')" "mem_inv nm P m' R H (add_mset p I)"
      "p \<in> free_pages m" "free_pages m' = free_pages m - {p}" "page_words m' = page_words m"
    show thesis
      by (rule that(1) [of "zero_indirect l p" "page_zero p m'"])
        (use a None in \<open>auto simp: ensure_indirect_def zero_indirect_facts keeps_data_def page_zero_def\<close>)
  next
    assume "page_alloc nm pid m = (Err E_NO_MEM, m\<lparr>page_failures := page_failures m + 1\<rparr>)" "free_pages m = {}"
    with None inv' that(2) show thesis
      by (simp add: ensure_indirect_def oom_def keeps_data_def free_pages_def)
  qed
qed

lemma get_entp_indirect_ok:
  assumes "ind_wf l t" "n < n_pages_per_i l" "l \<le> 3" "mem_inv nm P m R H (I + ind_pages l t)"
  shows "\<exists>r t' m'. pagetree_get_entp_indirect nm l n pid (t, m) = (r, t', m') \<and> ind_wf l t' \<and>
     mem_inv nm P m' R H (I + ind_pages l t') \<and> ind_refs l t' = ind_refs l t \<and>
     (\<forall>n'. n' < n_pages_per_i l \<longrightarrow> ind_lookup l t' n' = ind_lookup l t n') \<and> keeps_data m m' \<and>
     (r = Ok (ind_path l n) \<and> ind_has l t' n \<or> r = Err E_NO_MEM \<and> oom m')"
  using assms
proof (induction l arbitrary: t n m I)
  case 0
  show ?case
  proof (rule ensure_indirect_ok [OF 0(1,4), of pid])
    fix t' m'
    assume a: "ensure_indirect nm 0 pid (t, m) = (Ok t', Some t', m')" "ind_wf 0 (Some t')"
      "mem_inv nm P m' R H (I + ind_pages 0 (Some t'))" "ind_refs 0 (Some t') = ind_refs 0 t"
      "\<And>n. n < n_pages_per_i 0 \<Longrightarrow> ind_lookup 0 (Some t') n = ind_lookup 0 t n" "keeps_data m m'"
    have "n < EPP" using 0(2) by (simp add: n_pages_per_i_def)
    moreover have "ind_has 0 (Some t') n" using a(2) by (cases t') auto
    ultimately show ?thesis using a by auto
  next
    fix m'
    assume "ensure_indirect nm 0 pid (t, m) = (Err E_NO_MEM, None, m')" "t = None"
      "mem_inv nm P m' R H I" "oom m'" "keeps_data m m'"
    then show ?thesis by auto
  qed
next
  case (Suc l)
  show ?case
  proof (rule ensure_indirect_ok [OF Suc.prems(1,4), of pid])
    fix t1 m1
    assume a: "ensure_indirect nm (Suc l) pid (t, m) = (Ok t1, Some t1, m1)" "ind_wf (Suc l) (Some t1)"
      "mem_inv nm P m1 R H (I + ind_pages (Suc l) (Some t1))" "ind_refs (Suc l) (Some t1) = ind_refs (Suc l) t"
      "\<And>n. n < n_pages_per_i (Suc l) \<Longrightarrow> ind_lookup (Suc l) (Some t1) n = ind_lookup (Suc l) t n" "keeps_data m m1"
    then obtain p ks where t1: "t1 = Pi_indir p ks" and len: "length ks = IPP"
      and wfk: "\<forall>k \<in> set ks. ind_wf l k" by (cases t1) auto
    let ?s = "n div n_pages_per_i l" and ?n = "n mod n_pages_per_i l"
    have s: "?s < length ks" using slot_less [OF Suc.prems(2)] len by simp
    define I' where "I' = I + add_mset p (sum_list (map (ind_pages l) (ks[?s := None])))"
    have I': "I' + ind_pages l (ks ! ?s) = I + ind_pages (Suc l) (Some t1)"
      using sum_list_update_mset [OF s, of "ind_pages l" None] by (simp add: I'_def t1 add.assoc)
    have "\<exists>r k' m'. pagetree_get_entp_indirect nm l ?n pid (ks ! ?s, m1) = (r, k', m') \<and> ind_wf l k' \<and>
       mem_inv nm P m' R H (I' + ind_pages l k') \<and> ind_refs l k' = ind_refs l (ks ! ?s) \<and>
       (\<forall>n'. n' < n_pages_per_i l \<longrightarrow> ind_lookup l k' n' = ind_lookup l (ks ! ?s) n') \<and> keeps_data m1 m' \<and>
       (r = Ok (ind_path l ?n) \<and> ind_has l k' ?n \<or> r = Err E_NO_MEM \<and> oom m')"
      using wfk s Suc.prems(3) a(3) by (intro Suc.IH) (auto simp: I')
    then obtain r k' m' where k': "pagetree_get_entp_indirect nm l ?n pid (ks ! ?s, m1) = (r, k', m')" "ind_wf l k'"
       "mem_inv nm P m' R H (I' + ind_pages l k')" "ind_refs l k' = ind_refs l (ks ! ?s)"
       "\<forall>n'. n' < n_pages_per_i l \<longrightarrow> ind_lookup l k' n' = ind_lookup l (ks ! ?s) n'" "keeps_data m1 m'"
       "r = Ok (ind_path l ?n) \<and> ind_has l k' ?n \<or> r = Err E_NO_MEM \<and> oom m'" by blast
    let ?t = "Some (Pi_indir p (ks[?s := k']))"
    have e: "pagetree_get_entp_indirect nm (Suc l) n pid (t, m) =
        bind_r (r, ?t, m') (\<lambda>path s. (Ok (?s # path), s))"
      using a(1) k'(1) slot_small [OF Suc.prems(2)] Suc.prems(3) by (simp add: t1 Let_def)
    have wf: "ind_wf (Suc l) ?t" using len wfk k'(2) by (auto dest: subsetD [OF set_update_subset_insert])
    have rf: "ind_refs (Suc l) ?t = ind_refs (Suc l) t"
      using sum_list_update_mset [OF s, of "ind_refs l" k'] k'(4) a(4) by (simp add: t1)
    have "ind_pages (Suc l) ?t + ind_pages l (ks ! ?s) = ind_pages (Suc l) (Some t1) + ind_pages l k'"
      using sum_list_update_mset [OF s, of "ind_pages l" k'] by (simp add: t1)
    then have "I + ind_pages (Suc l) ?t = I' + ind_pages l k'" using I' by (rule mset_exchange)
    with k'(3) have mi: "mem_inv nm P m' R H (I + ind_pages (Suc l) ?t)" by simp
    have lk: "ind_lookup (Suc l) ?t n' = ind_lookup (Suc l) t n'" if "n' < n_pages_per_i (Suc l)" for n'
    proof -
      have "ind_lookup (Suc l) ?t n' = ind_lookup (Suc l) (Some t1) n'"
        using k'(5) s by (cases "n' div n_pages_per_i l = ?s") (auto simp: t1)
      with a(5) [OF that] show ?thesis by simp
    qed
    have has: "ind_has (Suc l) ?t n \<longleftrightarrow> ind_has l k' ?n" using s by simp
    show ?thesis
      using e wf rf mi lk has k'(7) keeps_data_trans [OF a(6) k'(6)] by (cases r) auto
  next
    fix m'
    assume "ensure_indirect nm (Suc l) pid (t, m) = (Err E_NO_MEM, None, m')" "t = None"
      "mem_inv nm P m' R H I" "oom m'" "keeps_data m m'"
    then show ?thesis by auto
  qed
qed

subsection \<open>Reading and writing through a path\<close>

lemma mset_exchange2:
  "S' + K = S + K' \<Longrightarrow> K' + a = K + b \<Longrightarrow> S' + a = S + (b :: 'b multiset)"
proof -
  assume x: "S' + K = S + K'" and y: "K' + a = K + b"
  have "(S' + a) + K = (S' + K) + a" by (simp add: ac_simps)
  also have "\<dots> = S + (K' + a)" by (simp add: x add.assoc)
  also have "\<dots> = (S + b) + K" by (simp add: y ac_simps)
  finally show ?thesis by simp
qed

lemma mset_frame: "A + a = B + b \<Longrightarrow> A + T + a = B + T + (b :: 'b multiset)"
proof -
  assume x: "A + a = B + b"
  have "A + T + a = (A + a) + T" by (simp add: ac_simps)
  also have "\<dots> = B + T + b" by (simp add: x ac_simps)
  finally show ?thesis .
qed

lemma ind_read_path:
  "ind_has l t n \<Longrightarrow> ind_read t (ind_path l n) = ind_lookup l t n"
proof (induction l arbitrary: t n)
  case 0
  then show ?case by (auto split: option.splits pagetree_indirect.splits)
next
  case (Suc l)
  then show ?case by (auto split: option.splits pagetree_indirect.splits)
qed

lemma ents_refs_update:
  "i < length es \<Longrightarrow> ents_refs (es[i := e]) + ent_refs (es ! i) = ents_refs es + ent_refs e"
  unfolding ents_refs_def by (rule sum_list_update_mset)

lemma ind_write_path:
  assumes "ind_wf l t" "n < n_pages_per_i l" "ind_has l t n"
  shows "ind_wf l (ind_write t (ind_path l n) e) \<and> ind_has l (ind_write t (ind_path l n) e) n \<and>
     ind_pages l (ind_write t (ind_path l n) e) = ind_pages l t \<and>
     ind_refs l (ind_write t (ind_path l n) e) + ent_refs (ind_lookup l t n) = ind_refs l t + ent_refs e \<and>
     (\<forall>n'. n' < n_pages_per_i l \<longrightarrow>
        ind_lookup l (ind_write t (ind_path l n) e) n' = (if n' = n then e else ind_lookup l t n'))"
  using assms
proof (induction l arbitrary: t n)
  case 0
  then obtain p es where t: "t = Some (Pi_entry p es)" by (auto split: option.splits pagetree_indirect.splits)
  with 0 have "length es = EPP" "n < EPP" by (auto simp: n_pages_per_i_def)
  with t show ?case by (auto simp: ents_refs_update nth_list_update n_pages_per_i_def)
next
  case (Suc l)
  then obtain p ks where t: "t = Some (Pi_indir p ks)" by (auto split: option.splits pagetree_indirect.splits)
  let ?s = "n div n_pages_per_i l" and ?n = "n mod n_pages_per_i l"
  let ?k = "ind_write (ks ! ?s) (ind_path l ?n) e"
  have s: "?s < length ks" using Suc.prems t slot_less by auto
  have IH: "ind_wf l ?k" "ind_has l ?k ?n" "ind_pages l ?k = ind_pages l (ks ! ?s)"
    "ind_refs l ?k + ent_refs (ind_lookup l (ks ! ?s) ?n) = ind_refs l (ks ! ?s) + ent_refs e"
    "\<And>n'. n' < n_pages_per_i l \<Longrightarrow> ind_lookup l ?k n' = (if n' = ?n then e else ind_lookup l (ks ! ?s) n')"
    using Suc.IH [of "ks ! ?s" ?n] Suc.prems t s by auto
  have w: "ind_write t (ind_path (Suc l) n) e = Some (Pi_indir p (ks[?s := ?k]))" by (simp add: t)
  have "ind_wf (Suc l) (Some (Pi_indir p (ks[?s := ?k])))"
    using Suc.prems t IH(1) by (auto dest: subsetD [OF set_update_subset_insert])
  moreover have "sum_list (map (ind_pages l) (ks[?s := ?k])) = sum_list (map (ind_pages l) ks)"
    using sum_list_update_mset [OF s, of "ind_pages l" ?k] IH(3) by simp
  moreover have "sum_list (map (ind_refs l) (ks[?s := ?k])) + ent_refs (ind_lookup l (ks ! ?s) ?n) =
      sum_list (map (ind_refs l) ks) + ent_refs e"
    using sum_list_update_mset [OF s, of "ind_refs l" ?k] IH(4) by (rule mset_exchange2)
  moreover have "ind_lookup (Suc l) (Some (Pi_indir p (ks[?s := ?k]))) n' =
      (if n' = n then e else ind_lookup (Suc l) t n')" for n'
  proof (cases "n' div n_pages_per_i l = ?s")
    case True
    then have "n' = n \<longleftrightarrow> n' mod n_pages_per_i l = ?n" by (metis div_mult_mod_eq)
    with True IH(5) [of "n' mod n_pages_per_i l"] s t show ?thesis by simp
  next
    case False
    then have "n' \<noteq> n" by auto
    with False t s show ?thesis by simp
  qed
  moreover have "ind_has (Suc l) (Some (Pi_indir p (ks[?s := ?k]))) n" using IH(2) s by simp
  ultimately show ?case unfolding w by (simp add: t)
qed

subsection \<open>Whole trees\<close>

text \<open>Which indirect tree a page number falls into, and the number relative to it.\<close>

fun locate :: "nat \<Rightarrow> nat \<Rightarrow> nat \<Rightarrow> (nat \<times> nat) option" where
  "locate i 0 n = None"
| "locate i (Suc k) n =
     (if n < n_pages_per_i i then Some (i, n) else locate (Suc i) k (n - n_pages_per_i i))"

definition pt_lookup :: "pagetree \<Rightarrow> nat \<Rightarrow> pagetree_entry" where
  "pt_lookup pt n =
     (if n < PAGETREE_DIRECT_ENTRIES then pt_direct pt ! n
      else case locate 0 PAGETREE_INDIRECT_ENTRIES (n - PAGETREE_DIRECT_ENTRIES) of
             None \<Rightarrow> null_pe
           | Some (i, n') \<Rightarrow> ind_lookup i (pt_indir pt ! i) n')"

definition pt_capacity :: nat where
  "pt_capacity = 3 + 170 + 170 * 512 + 170 * 512 ^ 2 + 170 * 512 ^ 3"

fun trees_refs :: "nat \<Rightarrow> pagetree_indirect option list \<Rightarrow> page multiset" where
  "trees_refs i [] = {#}"
| "trees_refs i (t # ts) = ind_refs i t + trees_refs (Suc i) ts"

fun trees_pages :: "nat \<Rightarrow> pagetree_indirect option list \<Rightarrow> page multiset" where
  "trees_pages i [] = {#}"
| "trees_pages i (t # ts) = ind_pages i t + trees_pages (Suc i) ts"

definition pt_refs :: "pagetree \<Rightarrow> page multiset" where
  "pt_refs pt = ents_refs (pt_direct pt) + trees_refs 0 (pt_indir pt)"

definition pt_pages :: "pagetree \<Rightarrow> page multiset" where
  "pt_pages pt = trees_pages 0 (pt_indir pt)"

definition pt_wf :: "pagetree \<Rightarrow> bool" where
  "pt_wf pt =
     (length (pt_direct pt) = PAGETREE_DIRECT_ENTRIES \<and> length (pt_indir pt) = PAGETREE_INDIRECT_ENTRIES \<and>
      (\<forall>i < PAGETREE_INDIRECT_ENTRIES. ind_wf i (pt_indir pt ! i)))"

lemma locate_bounds: "locate i k n = Some (j, n') \<Longrightarrow> i \<le> j \<and> j < i + k \<and> n' < n_pages_per_i j \<and> n' \<le> n"
  by (induction k arbitrary: i n) (fastforce split: if_splits)+

lemma locate_inj: "locate i k n1 = Some x \<Longrightarrow> locate i k n2 = Some x \<Longrightarrow> n1 = n2"
proof (induction k arbitrary: i n1 n2)
  case (Suc k)
  show ?case
  proof (cases "n1 < n_pages_per_i i \<or> n2 < n_pages_per_i i")
    case True
    with Suc.prems show ?thesis
      using locate_bounds [of "Suc i" k _ "fst x" "snd x"] by (auto split: if_splits)
  next
    case False
    with Suc.prems Suc.IH [of "Suc i" "n1 - n_pages_per_i i" "n2 - n_pages_per_i i"] show ?thesis
      by (auto split: if_splits)
  qed
qed simp

lemma locate_capacity:
  "PAGETREE_DIRECT_ENTRIES \<le> n \<Longrightarrow>
   locate 0 PAGETREE_INDIRECT_ENTRIES (n - PAGETREE_DIRECT_ENTRIES) = None \<longleftrightarrow> pt_capacity \<le> n"
proof -
  have four: "PAGETREE_INDIRECT_ENTRIES = Suc (Suc (Suc (Suc 0)))" by (simp add: pagetree_layout)
  have span: "n_pages_per_i 0 = 170" "n_pages_per_i (Suc 0) = 87040" "n_pages_per_i (Suc (Suc 0)) = 44564480"
    "n_pages_per_i (Suc (Suc (Suc 0))) = 22817013760"
    by (simp_all add: n_pages_per_i_def pagetree_layout)
  show "PAGETREE_DIRECT_ENTRIES \<le> n \<Longrightarrow>
   locate 0 PAGETREE_INDIRECT_ENTRIES (n - PAGETREE_DIRECT_ENTRIES) = None \<longleftrightarrow> pt_capacity \<le> n"
    unfolding four locate.simps span pt_capacity_def PAGETREE_DIRECT_ENTRIES_def
    by (simp split: if_splits) linarith
qed

lemma trees_refs_update:
  "j < length ts \<Longrightarrow> trees_refs i (ts[j := t]) + ind_refs (i + j) (ts ! j) = trees_refs i ts + ind_refs (i + j) t"
proof (induction ts arbitrary: i j)
  case (Cons a ts)
  then show ?case
  proof (cases j)
    case (Suc j')
    with Cons.IH [of j' "Suc i"] Cons.prems show ?thesis by (simp add: add.assoc)
  qed (simp add: ac_simps)
qed simp

lemma trees_pages_update:
  "j < length ts \<Longrightarrow> trees_pages i (ts[j := t]) + ind_pages (i + j) (ts ! j) = trees_pages i ts + ind_pages (i + j) t"
proof (induction ts arbitrary: i j)
  case (Cons a ts)
  then show ?case
  proof (cases j)
    case (Suc j')
    with Cons.IH [of j' "Suc i"] Cons.prems show ?thesis by (simp add: add.assoc)
  qed (simp add: ac_simps)
qed simp

lemma get_entp_loop_alt:
  "get_entp_loop nm i k n (n_pages_per_i i) (pt, m) =
     (case locate i k n of
        None \<Rightarrow> (Err E_NO_SPACE, pt, m)
      | Some (j, n') \<Rightarrow>
          (let (r, t, m) = pagetree_get_entp_indirect nm j n' (pt_pid pt) (pt_indir pt ! j, m)
           in bind_r (r, pt\<lparr>pt_indir := (pt_indir pt)[j := t]\<rparr>, m) (\<lambda>path s. (Ok (EIndir j path), s))))"
proof (induction k arbitrary: i n)
  case (Suc k)
  show ?case using Suc [of "Suc i"] by (simp add: pages_per_Suc [symmetric])
qed simp

definition entp_ok :: "pagetree \<Rightarrow> entp \<Rightarrow> nat \<Rightarrow> bool" where
  "entp_ok pt ep n =
     (case ep of
        EDirect i \<Rightarrow> i = n \<and> n < PAGETREE_DIRECT_ENTRIES
      | EIndir j path \<Rightarrow>
          PAGETREE_DIRECT_ENTRIES \<le> n \<and>
          (\<exists>n'. locate 0 PAGETREE_INDIRECT_ENTRIES (n - PAGETREE_DIRECT_ENTRIES) = Some (j, n') \<and>
             path = ind_path j n' \<and> ind_has j (pt_indir pt ! j) n'))"

lemma read_ent_ok: "entp_ok pt ep n \<Longrightarrow> read_ent pt ep = pt_lookup pt n"
  by (cases ep) (auto simp: entp_ok_def pt_lookup_def ind_read_path)

lemma write_ent_ok:
  assumes wf: "pt_wf pt" and ep: "entp_ok pt ep n"
  shows "pt_wf (write_ent pt ep e) \<and> pt_lookup (write_ent pt ep e) = (pt_lookup pt)(n := e) \<and>
    pt_pages (write_ent pt ep e) = pt_pages pt \<and>
    pt_refs (write_ent pt ep e) + ent_refs (pt_lookup pt n) = pt_refs pt + ent_refs e \<and>
    pt_pid (write_ent pt ep e) = pt_pid pt \<and> pt_demand (write_ent pt ep e) = pt_demand pt"
proof (cases ep)
  case (EDirect i)
  with assms have n: "i = n" "n < length (pt_direct pt)" "n < PAGETREE_DIRECT_ENTRIES"
    by (auto simp: entp_ok_def pt_wf_def)
  have "ents_refs ((pt_direct pt)[n := e]) + ent_refs (pt_direct pt ! n) = ents_refs (pt_direct pt) + ent_refs e"
    using n by (simp add: ents_refs_update)
  then have "ents_refs ((pt_direct pt)[n := e]) + trees_refs 0 (pt_indir pt) + ent_refs (pt_direct pt ! n) =
     ents_refs (pt_direct pt) + trees_refs 0 (pt_indir pt) + ent_refs e"
    by (rule mset_frame)
  with n EDirect wf show ?thesis
    by (auto simp: pt_wf_def pt_lookup_def pt_pages_def pt_refs_def fun_eq_iff nth_list_update split: option.split)
next
  case (EIndir j path)
  then obtain n' where n': "PAGETREE_DIRECT_ENTRIES \<le> n"
    "locate 0 PAGETREE_INDIRECT_ENTRIES (n - PAGETREE_DIRECT_ENTRIES) = Some (j, n')"
    "path = ind_path j n'" "ind_has j (pt_indir pt ! j) n'"
    using ep by (auto simp: entp_ok_def)
  let ?t = "pt_indir pt ! j" and ?t' = "ind_write (pt_indir pt ! j) path e"
  from locate_bounds [OF n'(2)] have j: "j < PAGETREE_INDIRECT_ENTRIES" "n' < n_pages_per_i j" by auto
  with wf have jl: "j < length (pt_indir pt)" and wft: "ind_wf j ?t" by (auto simp: pt_wf_def)
  have w: "ind_wf j ?t'" "ind_pages j ?t' = ind_pages j ?t"
    "ind_refs j ?t' + ent_refs (ind_lookup j ?t n') = ind_refs j ?t + ent_refs e"
    "\<And>k. k < n_pages_per_i j \<Longrightarrow> ind_lookup j ?t' k = (if k = n' then e else ind_lookup j ?t k)"
    using ind_write_path [OF wft j(2) n'(4), of e] n'(3) by auto
  have l0: "pt_lookup pt n = ind_lookup j ?t n'" using n' by (simp add: pt_lookup_def)
  have "trees_pages 0 ((pt_indir pt)[j := ?t']) = trees_pages 0 (pt_indir pt)"
    using trees_pages_update [OF jl, of 0 ?t'] w(2) by simp
  moreover have "trees_refs 0 ((pt_indir pt)[j := ?t']) + ind_refs j ?t = trees_refs 0 (pt_indir pt) + ind_refs j ?t'"
    using trees_refs_update [OF jl, of 0 ?t'] by simp
  then have "trees_refs 0 ((pt_indir pt)[j := ?t']) + ent_refs (ind_lookup j ?t n') =
      trees_refs 0 (pt_indir pt) + ent_refs e"
    using w(3) by (rule mset_exchange2)
  moreover have "pt_lookup (write_ent pt ep e) k = ((pt_lookup pt)(n := e)) k" for k
  proof (cases "k < PAGETREE_DIRECT_ENTRIES")
    case True
    with n'(1) EIndir show ?thesis by (simp add: pt_lookup_def)
  next
    case False
    show ?thesis
    proof (cases "locate 0 PAGETREE_INDIRECT_ENTRIES (k - PAGETREE_DIRECT_ENTRIES)")
      case None
      with False n' show ?thesis by (auto simp: pt_lookup_def EIndir)
    next
      case (Some x)
      obtain j' k' where x: "x = (j', k')" by (cases x)
      from locate_bounds [OF Some [unfolded x]] have k': "k' < n_pages_per_i j'" by simp
      have "(j' = j \<and> k' = n') = (k = n)"
        using locate_inj [of 0 PAGETREE_INDIRECT_ENTRIES "k - PAGETREE_DIRECT_ENTRIES" x "n - PAGETREE_DIRECT_ENTRIES"]
          Some n' False x by auto
      with False Some x k' w(4) jl l0 show ?thesis
        by (auto simp: pt_lookup_def EIndir nth_list_update)
    qed
  qed
  ultimately show ?thesis
    using wf w(1) jl l0 unfolding EIndir
    by (auto simp: pt_wf_def pt_pages_def pt_refs_def nth_list_update fun_eq_iff add.assoc)
qed

subsection \<open>A tree in memory\<close>

text \<open>
  A tree's references and its indirect pages are part of the accounting; \<open>R\<close> and \<open>I\<close> are what
  everybody else holds.
\<close>

definition pt_inv ::
  "numa \<Rightarrow> page set \<Rightarrow> physmem \<Rightarrow> pagetree \<Rightarrow> page multiset \<Rightarrow> page multiset \<Rightarrow> page multiset \<Rightarrow> bool"
where
  "pt_inv nm P m pt R H I =
     (pt_wf pt \<and> H \<subseteq># R \<and> mem_inv nm P m (R + pt_refs pt) H (I + pt_pages pt))"

definition keeps_words :: "physmem \<Rightarrow> physmem \<Rightarrow> bool" where
  "keeps_words m m' = (\<forall>p. p \<notin> free_pages m \<longrightarrow> page_words m' p = page_words m p)"

lemma keeps_data_words: "keeps_data m m' \<Longrightarrow> keeps_words m m'"
  by (simp add: keeps_data_def keeps_words_def)

lemma keeps_words_trans: "keeps_data m m' \<Longrightarrow> keeps_words m' m'' \<Longrightarrow> keeps_words m m''"
  by (auto simp: keeps_data_def keeps_words_def)

lemma get_entp_ok:
  assumes inv: "pt_inv nm P m pt R H I"
  shows "\<exists>r pt' m'. pagetree_get_entp nm n (pt, m) = (r, pt', m') \<and> pt_inv nm P m' pt' R H I \<and>
    pt_lookup pt' = pt_lookup pt \<and> pt_refs pt' = pt_refs pt \<and> pt_pid pt' = pt_pid pt \<and>
    pt_demand pt' = pt_demand pt \<and> keeps_data m m' \<and>
    ((\<exists>ep. r = Ok ep \<and> entp_ok pt' ep n \<and> n < pt_capacity) \<or> r = Err E_NO_SPACE \<and> pt_capacity \<le> n \<or>
     r = Err E_NO_MEM \<and> oom m' \<and> n < pt_capacity)"
proof (cases "n < PAGETREE_DIRECT_ENTRIES")
  case True
  then have "n < pt_capacity" by (simp add: pagetree_layout pt_capacity_def)
  with True inv show ?thesis by (auto simp: pagetree_get_entp_def entp_ok_def)
next
  case False
  let ?l = "locate 0 PAGETREE_INDIRECT_ENTRIES (n - PAGETREE_DIRECT_ENTRIES)"
  have e: "pagetree_get_entp nm n (pt, m) = (case ?l of None \<Rightarrow> (Err E_NO_SPACE, pt, m)
      | Some (j, n') \<Rightarrow>
          (let (r, t, m) = pagetree_get_entp_indirect nm j n' (pt_pid pt) (pt_indir pt ! j, m)
           in bind_r (r, pt\<lparr>pt_indir := (pt_indir pt)[j := t]\<rparr>, m) (\<lambda>path s. (Ok (EIndir j path), s))))"
    using False get_entp_loop_alt [of nm 0 PAGETREE_INDIRECT_ENTRIES "n - PAGETREE_DIRECT_ENTRIES" pt m]
    by (simp add: pagetree_get_entp_def n_pages_per_i_def)
  show ?thesis
  proof (cases ?l)
    case None
    then show ?thesis using locate_capacity [of n] False inv e by auto
  next
    case (Some x)
    then obtain j n' where x: "?l = Some (j, n')" by (cases x) auto
    from locate_bounds [OF x] have j: "j < PAGETREE_INDIRECT_ENTRIES" "n' < n_pages_per_i j" by auto
    have jl: "j < length (pt_indir pt)" and wfj: "ind_wf j (pt_indir pt ! j)" and j3: "j \<le> 3"
      using inv j(1) by (auto simp: pt_inv_def pt_wf_def pagetree_layout)
    define I' where "I' = I + trees_pages 0 ((pt_indir pt)[j := None])"
    have I': "I' + ind_pages j (pt_indir pt ! j) = I + trees_pages 0 (pt_indir pt)"
      using trees_pages_update [OF jl, of 0 None] by (simp add: I'_def add.assoc)
    have "mem_inv nm P m (R + pt_refs pt) H (I' + ind_pages j (pt_indir pt ! j))"
      using inv I' by (simp add: pt_inv_def pt_pages_def)
    from get_entp_indirect_ok [OF wfj j(2) j3 this, of "pt_pid pt"] obtain r t' m' where
      t': "pagetree_get_entp_indirect nm j n' (pt_pid pt) (pt_indir pt ! j, m) = (r, t', m')" "ind_wf j t'"
        "mem_inv nm P m' (R + pt_refs pt) H (I' + ind_pages j t')" "ind_refs j t' = ind_refs j (pt_indir pt ! j)"
        "\<forall>k. k < n_pages_per_i j \<longrightarrow> ind_lookup j t' k = ind_lookup j (pt_indir pt ! j) k" "keeps_data m m'"
        "r = Ok (ind_path j n') \<and> ind_has j t' n' \<or> r = Err E_NO_MEM \<and> oom m'" by blast
    let ?pt = "pt\<lparr>pt_indir := (pt_indir pt)[j := t']\<rparr>"
    have rf: "pt_refs ?pt = pt_refs pt"
      using trees_refs_update [OF jl, of 0 t'] t'(4) by (simp add: pt_refs_def)
    have "trees_pages 0 ((pt_indir pt)[j := t']) + ind_pages j (pt_indir pt ! j) =
        trees_pages 0 (pt_indir pt) + ind_pages j t'"
      using trees_pages_update [OF jl, of 0 t'] by simp
    then have "I + pt_pages ?pt = I' + ind_pages j t'"
      using I' unfolding pt_pages_def by (simp, rule mset_exchange)
    then have pi: "pt_inv nm P m' ?pt R H I"
      using inv t'(2,3) jl rf by (auto simp: pt_inv_def pt_wf_def nth_list_update)
    have lk: "pt_lookup ?pt = pt_lookup pt"
    proof
      fix k
      show "pt_lookup ?pt k = pt_lookup pt k"
        using t'(5) jl locate_bounds [of 0 PAGETREE_INDIRECT_ENTRIES "k - PAGETREE_DIRECT_ENTRIES"]
        by (auto simp: pt_lookup_def nth_list_update split: option.split)
    qed
    have cap: "n < pt_capacity" using locate_capacity [of n] False x by auto
    have ep: "entp_ok ?pt (EIndir j (ind_path j n')) n" if "ind_has j t' n'"
      using that False x jl by (auto simp: entp_ok_def)
    show ?thesis using e x t'(1,6,7) pi lk rf cap ep by (cases r) (auto simp: bind_r_def)
  qed
qed

lemma ent_refs_sub: "pt_wf pt \<Longrightarrow> entp_ok pt ep n \<Longrightarrow> ent_refs (pt_lookup pt n) \<subseteq># pt_refs pt"
proof -
  assume a: "pt_wf pt" "entp_ok pt ep n"
  have "pt_refs (write_ent pt ep null_pe) + ent_refs (pt_lookup pt n) = pt_refs pt"
    using write_ent_ok [OF a, of null_pe] by (simp add: ent_refs_def null_pe_def)
  then show ?thesis by (metis mset_subset_eq_add_right)
qed

text \<open>
  Replacing an entry: first its page's reference is dropped, then the new entry's page is counted.
\<close>

lemma write_ent_inv:
  assumes wf: "pt_wf pt" and H: "H \<subseteq># R" and ep: "entp_ok pt ep n"
    and X: "pt_refs pt = X + ent_refs (pt_lookup pt n)"
    and mem: "mem_inv nm P m (R + X + ent_refs e) H (I + pt_pages pt)"
  shows "pt_inv nm P m (write_ent pt ep e) R H I"
proof -
  note w = write_ent_ok [OF wf ep, of e]
  then have "pt_refs (write_ent pt ep e) = X + ent_refs e"
    unfolding X by (simp add: ac_simps)
  with w mem H show ?thesis by (simp add: pt_inv_def add.assoc)
qed

lemma drop_ent:
  assumes "mem_inv nm P m (R + X + ent_refs e) H J" "H \<subseteq># R"
  shows "\<exists>m'. (case pe_page e of None \<Rightarrow> (Ok (), m) | Some old \<Rightarrow> pagetree_decref nm old m) = (Ok (), m') \<and>
    mem_inv nm P m' (R + X) H J \<and> free_pages m \<subseteq> free_pages m' \<and> page_words m' = page_words m \<and>
    (\<forall>p \<in># R + X. p \<notin> free_pages m')"
proof (cases "pe_page e")
  case None
  with assms(1) show ?thesis by (auto simp: ent_refs_def mem_inv_defs)
next
  case (Some old)
  with assms have "mem_inv nm P m (add_mset old (R + X)) H J" "H \<subseteq># R + X"
    by (simp_all add: ent_refs_def subset_mset.add_increasing2)
  then obtain m' where "pagetree_decref nm old m = (Ok (), m')" "mem_inv nm P m' (R + X) H J"
    "free_pages m' = (if old \<in># R + X then free_pages m else insert old (free_pages m))" "page_words m' = page_words m"
    by (rule decref_ok)
  with Some show ?thesis by (auto simp: mem_inv_defs split: if_splits)
qed

text \<open>What \<open>pagetree_put_page\<close> may be given: no page, a page the caller owns, or one it refers to.\<close>

definition put_source :: "page option \<Rightarrow> page multiset \<Rightarrow> page multiset \<Rightarrow> page multiset \<Rightarrow> bool" where
  "put_source pg R I I' =
     (case pg of None \<Rightarrow> I' = I | Some p \<Rightarrow> I = add_mset p I' \<or> I' = I \<and> p \<in># R)"

lemma take_page:
  assumes "mem_inv nm P m (R + X) H (I + J)" "put_source pg R I I'" "pg = None \<or> size (R + X) + 1 < 2 ^ 32"
  shows "mem_inv nm P (case pg of None \<Rightarrow> m | Some p \<Rightarrow> pagetree_incref p m)
    (R + X + ent_refs \<lparr>pe_page = pg, pe_mode = md\<rparr>) H (I' + J)"
proof (cases pg)
  case (Some p)
  show ?thesis
  proof (cases "I = add_mset p I'")
    case True
    with assms Some incref_owned [of nm P m "R + X" H p "I' + J"] show ?thesis by (simp add: ent_refs_def)
  next
    case False
    with assms Some incref_shared [of nm P m "R + X" H "I' + J" p] show ?thesis
      by (auto simp: ent_refs_def put_source_def)
  qed
qed (use assms in \<open>auto simp: put_source_def ent_refs_def\<close>)

lemma put_page_ok:
  assumes inv: "pt_inv nm P m pt R H I" and src: "put_source pg R I I'"
    and sz: "pg = None \<or> size (R + pt_refs pt) + 1 < 2 ^ 32"
  shows "\<exists>r pt' m'. pagetree_put_page nm n pg (pt, m) = (r, pt', m') \<and> keeps_words m m' \<and>
    pt_pid pt' = pt_pid pt \<and> pt_demand pt' = pt_demand pt \<and>
    (r = Ok () \<and> n < pt_capacity \<and> pt_inv nm P m' pt' R H I' \<and>
       pt_lookup pt' = (pt_lookup pt)(n := \<lparr>pe_page = pg, pe_mode = page_excl\<rparr>) \<and>
       pt_refs pt' + ent_refs (pt_lookup pt n) = pt_refs pt + ent_refs \<lparr>pe_page = pg, pe_mode = page_excl\<rparr> \<or>
     (r = Err E_NO_SPACE \<and> pt_capacity \<le> n \<or> r = Err E_NO_MEM \<and> oom m') \<and> pt_inv nm P m' pt' R H I \<and>
       pt_lookup pt' = pt_lookup pt)"
proof -
  from get_entp_ok [OF inv, of n] obtain r pt1 m1 where
    g: "pagetree_get_entp nm n (pt, m) = (r, pt1, m1)" "pt_inv nm P m1 pt1 R H I"
      "pt_lookup pt1 = pt_lookup pt" "pt_refs pt1 = pt_refs pt" "pt_pid pt1 = pt_pid pt"
      "pt_demand pt1 = pt_demand pt" "keeps_data m m1"
    and out: "(\<exists>ep. r = Ok ep \<and> entp_ok pt1 ep n \<and> n < pt_capacity) \<or> r = Err E_NO_SPACE \<and> pt_capacity \<le> n \<or>
      r = Err E_NO_MEM \<and> oom m1 \<and> n < pt_capacity" by blast
  show ?thesis
  proof (cases r)
    case (Ok ep)
    with out have ep: "entp_ok pt1 ep n" and cap: "n < pt_capacity" by auto
    have wf: "pt_wf pt1" and H: "H \<subseteq># R" using g(2) by (auto simp: pt_inv_def)
    obtain X where X: "pt_refs pt1 = X + ent_refs (pt_lookup pt1 n)"
      using ent_refs_sub [OF wf ep] by (metis subset_mset.diff_add)
    have "mem_inv nm P m1 (R + X + ent_refs (pt_lookup pt1 n)) H (I + pt_pages pt1)"
      using g(2) by (simp add: pt_inv_def X add.assoc)
    from drop_ent [OF this H] obtain m2 where
      m2: "(case pe_page (pt_lookup pt1 n) of None \<Rightarrow> (Ok (), m1) | Some old \<Rightarrow> pagetree_decref nm old m1) = (Ok (), m2)"
        "mem_inv nm P m2 (R + X) H (I + pt_pages pt1)" "page_words m2 = page_words m1" by blast
    let ?e = "\<lparr>pe_page = pg, pe_mode = page_excl\<rparr>"
    let ?m = "case pg of None \<Rightarrow> m2 | Some p \<Rightarrow> pagetree_incref p m2"
    have "size (R + pt_refs pt1) = size (R + X) + size (ent_refs (pt_lookup pt1 n))" by (simp add: X)
    then have "pg = None \<or> size (R + X) + 1 < 2 ^ 32" using sz g(4) by auto
    with take_page [OF m2(2) src] have "mem_inv nm P ?m (R + X + ent_refs ?e) H (I' + pt_pages pt1)" by simp
    with write_ent_inv [OF wf H ep X] have pi: "pt_inv nm P ?m (write_ent pt1 ep ?e) R H I'" by blast
    have "keeps_words m1 ?m" using m2(3) by (auto simp: keeps_words_def split: option.split)
    then have kw: "keeps_words m ?m" by (rule keeps_words_trans [OF g(7)])
    have "pagetree_put_page nm n pg (pt, m) = (Ok (), write_ent pt1 ep ?e, ?m)"
      using g(1) Ok m2(1) read_ent_ok [OF ep] by (simp add: pagetree_put_page_def Let_def)
    with pi kw cap write_ent_ok [OF wf ep, of ?e] g show ?thesis by auto
  qed (use g out keeps_data_words in \<open>auto simp: pagetree_put_page_def\<close>)
qed


subsection \<open>Looking a page up\<close>

definition needs_copy :: "page_sharing_mode \<Rightarrow> pagetree_entry \<Rightarrow> bool" where
  "needs_copy mode e =
     (pe_mode e = page_shared_cor \<or> pe_mode e = page_shared_cow \<and> mode = page_shared_cow)"

definition mode_allowed :: "page_sharing_mode \<Rightarrow> pagetree_entry \<Rightarrow> bool" where
  "mode_allowed mode e =
     (pe_mode e \<in> {page_shared_cow, page_shared_cor} \<longrightarrow> mode \<noteq> page_excl \<and> pe_page e \<noteq> None)"

text \<open>The entry after a lookup: a private copy, a page made on demand, or the entry as it was.\<close>

definition got_entry ::
  "page_sharing_mode \<Rightarrow> bool \<Rightarrow> physmem \<Rightarrow> physmem \<Rightarrow> pagetree_entry \<Rightarrow> pagetree_entry \<Rightarrow> bool"
where
  "got_entry mode demand m m' e e' =
     (if needs_copy mode e then
        \<exists>p \<in> free_pages m. e' = \<lparr>pe_page = Some p, pe_mode = page_excl\<rparr> \<and>
          page_words m' p = page_words m (the (pe_page e))
      else if pe_page e = None \<and> demand then
        \<exists>p \<in> free_pages m. e' = \<lparr>pe_page = Some p, pe_mode = page_excl\<rparr>
      else e' = e)"

lemma copy_page_ok:
  assumes inv: "pt_inv nm P m pt R H I" and ep: "entp_ok pt ep n" and old: "pe_page (pt_lookup pt n) = Some old"
    and sz: "size (R + pt_refs pt) + 1 < 2 ^ 32"
  shows "\<exists>r pt' m'. pagetree_copy_page nm ep pid (pt, m) = (r, pt', m') \<and> keeps_words m m' \<and>
    pt_inv nm P m' pt' R H I \<and> pt_pid pt' = pt_pid pt \<and> pt_demand pt' = pt_demand pt \<and>
    ((\<exists>p \<in> free_pages m. r = Ok () \<and> page_words m' p = page_words m old \<and> entp_ok pt' ep n \<and>
        pt_lookup pt' = (pt_lookup pt)(n := \<lparr>pe_page = Some p, pe_mode = page_excl\<rparr>)) \<or>
     r = Err E_NO_MEM \<and> oom m' \<and> pt' = pt)"
proof -
  have wf: "pt_wf pt" and H: "H \<subseteq># R" and mi: "mem_inv nm P m (R + pt_refs pt) H (I + pt_pages pt)"
    using inv by (auto simp: pt_inv_def)
  obtain X where X: "pt_refs pt = X + ent_refs (pt_lookup pt n)"
    using ent_refs_sub [OF wf ep] by (metis subset_mset.diff_add)
  have oldin: "old \<in># R + pt_refs pt" using old by (simp add: X ent_refs_def)
  show ?thesis
  proof (rule page_alloc_ok [OF mi, of pid])
    fix p m1
    assume a: "page_alloc nm pid m = (Ok p, m1)" "mem_inv nm P m1 (R + pt_refs pt) H (add_mset p (I + pt_pages pt))"
      "p \<in> free_pages m" "free_pages m1 = free_pages m - {p}" "page_words m1 = page_words m"
    let ?m2 = "pagetree_incref p (set_pageinfo p (\<lambda>i. i\<lparr>pi_clear := True\<rparr>) (page_copy p old m1))"
    let ?e = "\<lparr>pe_page = Some p, pe_mode = page_excl\<rparr>"
    have "mem_inv nm P ?m2 (add_mset p (R + pt_refs pt)) H (I + pt_pages pt)"
      using a(2) sz by (intro incref_owned) auto
    then have "mem_inv nm P ?m2 (R + (X + ent_refs ?e) + ent_refs (pt_lookup pt n)) H (I + pt_pages pt)"
      by (simp add: X ent_refs_def ac_simps)
    from drop_ent [OF this H] obtain m3 where
      m3: "pagetree_decref nm old ?m2 = (Ok (), m3)" "mem_inv nm P m3 (R + (X + ent_refs ?e)) H (I + pt_pages pt)"
        "page_words m3 = page_words ?m2" using old by auto
    have pi: "pt_inv nm P m3 (write_ent pt ep ?e) R H I"
      using write_ent_inv [OF wf H ep X, of nm P m3 ?e I] m3(2) by (simp add: ac_simps)
    have "old \<notin> free_pages m" using mi oldin by (auto simp: mem_inv_defs)
    with a have w: "page_words m3 p = page_words m old" and kw: "keeps_words m m3"
      by (auto simp: m3(3) keeps_words_def page_copy_def set_pageinfo_def)
    have "entp_ok (write_ent pt ep ?e) ep n"
    proof (cases ep)
      case (EIndir j path)
      then obtain n' where n': "locate 0 PAGETREE_INDIRECT_ENTRIES (n - PAGETREE_DIRECT_ENTRIES) = Some (j, n')"
        "path = ind_path j n'" "ind_has j (pt_indir pt ! j) n'" "PAGETREE_DIRECT_ENTRIES \<le> n"
        using ep by (auto simp: entp_ok_def)
      from locate_bounds [OF n'(1)] wf have "n' < n_pages_per_i j" "ind_wf j (pt_indir pt ! j)" "j < length (pt_indir pt)"
        by (auto simp: pt_wf_def)
      with ind_write_path [of j "pt_indir pt ! j" n' ?e] n' EIndir show ?thesis
        by (auto simp: entp_ok_def)
    qed (use ep in \<open>auto simp: entp_ok_def\<close>)
    moreover have "pagetree_copy_page nm ep pid (pt, m) = (Ok (), write_ent pt ep ?e, m3)"
      using a(1) m3(1) old read_ent_ok [OF ep] by (simp add: pagetree_copy_page_def Let_def)
    ultimately show ?thesis using pi w kw a(3) write_ent_ok [OF wf ep, of ?e] by auto
  next
    assume "page_alloc nm pid m = (Err E_NO_MEM, m\<lparr>page_failures := page_failures m + 1\<rparr>)" "free_pages m = {}"
    with inv show ?thesis
      by (auto simp: pagetree_copy_page_def oom_def keeps_words_def pt_inv_def)
  qed
qed

lemma get_page_ok:
  assumes inv: "pt_inv nm P m pt R H I" and al: "mode_allowed mode (pt_lookup pt n)"
    and sz: "size (R + pt_refs pt) + 1 < 2 ^ 32"
  shows "\<exists>r pt' m'. pagetree_get_page nm n mode (pt, m) = (r, pt', m') \<and> keeps_words m m' \<and>
    pt_inv nm P m' pt' R H I \<and>
    ((\<exists>e'. r = Ok (pe_page e') \<and> got_entry mode (pt_demand pt) m m' (pt_lookup pt n) e' \<and> n < pt_capacity \<and>
        pt_lookup pt' = (pt_lookup pt)(n := e')) \<or>
     (r = Err E_NO_SPACE \<and> pt_capacity \<le> n \<or> r = Err E_NO_MEM \<and> oom m' \<or>
      r = Panic \<and> oom m' \<and> pt_demand pt \<and> pe_page (pt_lookup pt n) = None) \<and> pt_lookup pt' = pt_lookup pt)"
proof -
  from get_entp_ok [OF inv, of n] obtain r pt1 m1 where
    g: "pagetree_get_entp nm n (pt, m) = (r, pt1, m1)" "pt_inv nm P m1 pt1 R H I"
      "pt_lookup pt1 = pt_lookup pt" "pt_refs pt1 = pt_refs pt" "pt_pid pt1 = pt_pid pt"
      "pt_demand pt1 = pt_demand pt" "keeps_data m m1"
    and out: "(\<exists>ep. r = Ok ep \<and> entp_ok pt1 ep n \<and> n < pt_capacity) \<or> r = Err E_NO_SPACE \<and> pt_capacity \<le> n \<or>
      r = Err E_NO_MEM \<and> oom m1 \<and> n < pt_capacity" by blast
  have fr: "free_pages m1 \<subseteq> free_pages m" using g(7) by (auto simp: keeps_data_def)
  let ?e = "pt_lookup pt n"
  show ?thesis
  proof (cases r)
    case (Ok ep)
    with out have ep: "entp_ok pt1 ep n" and cap: "n < pt_capacity" by auto
    have rd: "read_ent pt1 ep = ?e" using read_ent_ok [OF ep] g(3) by simp
    show ?thesis
    proof (cases "needs_copy mode ?e")
      case True
      then obtain old where old: "pe_page ?e = Some old"
        using al by (auto simp: needs_copy_def mode_allowed_def)
      have "old \<in># R + pt_refs pt1" using ent_refs_sub [of pt1 ep n] g(2,3) ep old
        by (auto simp: pt_inv_def ent_refs_def)
      then have "old \<notin> free_pages m1" using g(2) by (auto simp: pt_inv_def mem_inv_defs)
      from copy_page_ok [OF g(2) ep, of old "pt_pid pt1"] obtain r2 pt2 m2 where
        c: "pagetree_copy_page nm ep (pt_pid pt1) (pt1, m1) = (r2, pt2, m2)" "keeps_words m1 m2"
          "pt_inv nm P m2 pt2 R H I" "pt_demand pt2 = pt_demand pt1"
          "(\<exists>p \<in> free_pages m1. r2 = Ok () \<and> page_words m2 p = page_words m1 old \<and> entp_ok pt2 ep n \<and>
              pt_lookup pt2 = (pt_lookup pt1)(n := \<lparr>pe_page = Some p, pe_mode = page_excl\<rparr>)) \<or>
            r2 = Err E_NO_MEM \<and> oom m2 \<and> pt2 = pt1"
        using g sz old by auto
      have st: "pagetree_get_page nm n mode (pt, m) = bind_r (r2, pt2, m2) (\<lambda>_ (pt, m).
          if pe_page (read_ent pt ep) = None \<and> pt_demand pt then
            (case page_alloc nm (pt_pid pt) m of
               (Ok p, m) \<Rightarrow> (Ok (Some p), write_ent pt ep \<lparr>pe_page = Some p, pe_mode = page_excl\<rparr>, pagetree_incref p m)
             | (_, m) \<Rightarrow> (Panic, pt, m))
          else (Ok (pe_page (read_ent pt ep)), pt, m))"
        using g(1) Ok rd True al c(1)
        by (auto simp: pagetree_get_page_def Let_def needs_copy_def mode_allowed_def)
      have kw: "keeps_words m m2" using keeps_words_trans [OF g(7) c(2)] .
      have pw: "page_words m1 old = page_words m old"
      proof -
        have "old \<in># R + pt_refs pt" using \<open>old \<in># R + pt_refs pt1\<close> g(4) by simp
        then have "old \<notin> free_pages m" using inv by (auto simp: pt_inv_def mem_inv_defs)
        then show ?thesis using g(7) by (simp add: keeps_data_def)
      qed
      show ?thesis using c(5)
      proof (elim disjE bexE conjE)
        fix p
        assume p: "p \<in> free_pages m1" "r2 = Ok ()" "page_words m2 p = page_words m1 old" "entp_ok pt2 ep n"
          "pt_lookup pt2 = (pt_lookup pt1)(n := \<lparr>pe_page = Some p, pe_mode = page_excl\<rparr>)"
        then have "read_ent pt2 ep = \<lparr>pe_page = Some p, pe_mode = page_excl\<rparr>" using read_ent_ok by simp
        with st p fr kw c(3) g(3) cap pw old True show ?thesis
          by (auto simp: got_entry_def intro!: exI [of _ "\<lparr>pe_page = Some p, pe_mode = page_excl\<rparr>"])
      next
        assume "r2 = Err E_NO_MEM" "oom m2" "pt2 = pt1"
        with st kw c(3) g(3) show ?thesis by auto
      qed
    next
      case False
      have st: "pagetree_get_page nm n mode (pt, m) =
         (if pe_page ?e = None \<and> pt_demand pt then
            (case page_alloc nm (pt_pid pt1) m1 of
               (Ok p, m) \<Rightarrow> (Ok (Some p), write_ent pt1 ep \<lparr>pe_page = Some p, pe_mode = page_excl\<rparr>, pagetree_incref p m)
             | (_, m) \<Rightarrow> (Panic, pt1, m))
          else (Ok (pe_page ?e), pt1, m1))"
        using g(1,6) Ok rd False al
        by (auto simp: pagetree_get_page_def Let_def needs_copy_def mode_allowed_def)
      show ?thesis
      proof (cases "pe_page ?e = None \<and> pt_demand pt")
        case True
        have mi: "mem_inv nm P m1 (R + pt_refs pt1) H (I + pt_pages pt1)" and wf: "pt_wf pt1" and H: "H \<subseteq># R"
          using g(2) by (auto simp: pt_inv_def)
        show ?thesis
        proof (rule page_alloc_ok [OF mi, of "pt_pid pt1"])
          fix p m2
          assume a: "page_alloc nm (pt_pid pt1) m1 = (Ok p, m2)"
            "mem_inv nm P m2 (R + pt_refs pt1) H (add_mset p (I + pt_pages pt1))"
            "p \<in> free_pages m1" "page_words m2 = page_words m1"
          let ?e' = "\<lparr>pe_page = Some p, pe_mode = page_excl\<rparr>"
          have "mem_inv nm P (pagetree_incref p m2) (add_mset p (R + pt_refs pt1)) H (I + pt_pages pt1)"
            using a(2) sz g(4) by (intro incref_owned) auto
          then have "mem_inv nm P (pagetree_incref p m2) (R + pt_refs pt1 + ent_refs ?e') H (I + pt_pages pt1)"
            by (simp add: ent_refs_def)
          moreover have "pt_refs pt1 = pt_refs pt1 + ent_refs (pt_lookup pt1 n)"
            using True g(3) by (simp add: ent_refs_def)
          ultimately have "pt_inv nm P (pagetree_incref p m2) (write_ent pt1 ep ?e') R H I"
            using write_ent_inv [OF wf H ep] by blast
          moreover have "keeps_words m (pagetree_incref p m2)"
            using g(7) a(4) by (auto simp: keeps_data_def keeps_words_def)
          ultimately show ?thesis
            using st True a fr cap False write_ent_ok [OF wf ep, of ?e'] g(3)
            by (auto simp: got_entry_def intro!: exI [of _ ?e'])
        next
          assume "page_alloc nm (pt_pid pt1) m1 = (Err E_NO_MEM, m1\<lparr>page_failures := page_failures m1 + 1\<rparr>)" "free_pages m1 = {}"
          moreover have "keeps_words m (m1\<lparr>page_failures := page_failures m1 + 1\<rparr>)"
            using g(7) by (auto simp: keeps_data_def keeps_words_def)
          moreover have "pt_inv nm P (m1\<lparr>page_failures := page_failures m1 + 1\<rparr>) pt1 R H I"
            using g(2) by (simp add: pt_inv_def)
          ultimately show ?thesis using st True g(3) by (auto simp: oom_def free_pages_def)
        qed
      next
        case False': False
        then have "pagetree_get_page nm n mode (pt, m) = (Ok (pe_page ?e), pt1, m1)" unfolding st by (rule if_not_P)
        moreover have "got_entry mode (pt_demand pt) m m1 ?e ?e" using False False' by (auto simp: got_entry_def)
        ultimately show ?thesis using g keeps_data_words cap by auto
      qed
    qed
  qed (use g out keeps_data_words in \<open>auto simp: pagetree_get_page_def\<close>)
qed

subsection \<open>Freeing releases everything a tree holds\<close>

lemma ents_refs_simps [simp]: "ents_refs [] = {#}" "ents_refs (e # es) = ent_refs e + ents_refs es"
  by (simp_all add: ents_refs_def)

lemma decref_ents_ok:
  "mem_inv nm P m (R + ents_refs es) H J \<Longrightarrow> H \<subseteq># R \<Longrightarrow>
   \<exists>m'. decref_ents nm es m = (Ok (), m') \<and> mem_inv nm P m' R H J \<and> page_words m' = page_words m"
proof (induction es arbitrary: m)
  case (Cons e es)
  have "mem_inv nm P m (R + ents_refs es + ent_refs e) H J" using Cons.prems(1) by (simp add: ac_simps)
  from drop_ent [OF this Cons.prems(2)] obtain m1 where
    m1: "(case pe_page e of None \<Rightarrow> (Ok (), m) | Some old \<Rightarrow> pagetree_decref nm old m) = (Ok (), m1)"
      "mem_inv nm P m1 (R + ents_refs es) H J" "page_words m1 = page_words m" by blast
  from Cons.IH [OF m1(2) Cons.prems(2)] m1 show ?case by (cases "pe_page e") auto
qed simp

text \<open>One function that releases what a subtree holds, applied to a list of subtrees.\<close>

lemma free_kids_ok:
  assumes "\<And>k m R J. k \<in> set ks \<Longrightarrow> mem_inv nm P m (R + rf k) H (J + pg k) \<Longrightarrow> H \<subseteq># R \<Longrightarrow>
      \<exists>m'. f k m = (Ok (), m') \<and> mem_inv nm P m' R H J \<and> page_words m' = page_words m"
    and "mem_inv nm P m (R + sum_list (map rf ks)) H (J + sum_list (map pg ks))" and "H \<subseteq># R"
  shows "\<exists>m'. free_kids f ks m = (Ok (), m') \<and> mem_inv nm P m' R H J \<and> page_words m' = page_words m"
  using assms
proof (induction ks arbitrary: m)
  case (Cons k ks)
  have "mem_inv nm P m (R + sum_list (map rf ks) + rf k) H (J + sum_list (map pg ks) + pg k)"
    using Cons.prems(2) by (simp add: ac_simps)
  moreover have "H \<subseteq># R + sum_list (map rf ks)" using Cons.prems(3) by (simp add: subset_mset.add_increasing2)
  ultimately obtain m1 where m1: "f k m = (Ok (), m1)" "page_words m1 = page_words m"
      "mem_inv nm P m1 (R + sum_list (map rf ks)) H (J + sum_list (map pg ks))"
    using Cons.prems(1) [of k m] by auto
  have "\<exists>m'. free_kids f ks m1 = (Ok (), m') \<and> mem_inv nm P m' R H J \<and> page_words m' = page_words m1"
    using Cons.prems(1,3) m1(3) by (intro Cons.IH) auto
  with m1 show ?case by auto
qed simp

lemma free_indirect_ok:
  "ind_wf l t \<Longrightarrow> mem_inv nm P m (R + ind_refs l t) H (J + ind_pages l t) \<Longrightarrow> H \<subseteq># R \<Longrightarrow>
   \<exists>m'. pagetree_free_indirect nm l t m = (Ok (), m') \<and> mem_inv nm P m' R H J \<and> page_words m' = page_words m"
proof (induction l arbitrary: t m R J)
  case 0
  show ?case
  proof (cases t)
    case (Some x)
    with 0 obtain p es where t: "t = Some (Pi_entry p es)" by (auto split: pagetree_indirect.splits)
    with 0 have "mem_inv nm P m (R + ents_refs es) H (add_mset p J)" by simp
    from decref_ents_ok [OF this 0(3)] obtain m1 where
      m1: "decref_ents nm es m = (Ok (), m1)" "mem_inv nm P m1 R H (add_mset p J)" "page_words m1 = page_words m" by blast
    from m1(2) obtain m2 where "page_free nm p 0 m1 = (Ok (), m2)" "mem_inv nm P m2 R H J" "page_words m2 = page_words m1"
      by (rule page_free_ok)
    with m1 t show ?thesis by simp
  qed (use 0 in simp)
next
  case (Suc l)
  show ?case
  proof (cases t)
    case (Some x)
    with Suc.prems obtain p ks where t: "t = Some (Pi_indir p ks)" by (auto split: pagetree_indirect.splits)
    have "\<exists>m'. free_kids (pagetree_free_indirect nm l) ks m = (Ok (), m') \<and> mem_inv nm P m' R H (add_mset p J) \<and>
        page_words m' = page_words m"
    proof (rule free_kids_ok)
      fix k m R J
      assume "k \<in> set ks" "mem_inv nm P m (R + ind_refs l k) H (J + ind_pages l k)" "H \<subseteq># R"
      then show "\<exists>m'. pagetree_free_indirect nm l k m = (Ok (), m') \<and> mem_inv nm P m' R H J \<and> page_words m' = page_words m"
        using Suc.IH Suc.prems(1) t by auto
    qed (use Suc.prems t in auto)
    then obtain m1 where m1: "free_kids (pagetree_free_indirect nm l) ks m = (Ok (), m1)"
      "mem_inv nm P m1 R H (add_mset p J)" "page_words m1 = page_words m" by blast
    from m1(2) obtain m2 where "page_free nm p 0 m1 = (Ok (), m2)" "mem_inv nm P m2 R H J" "page_words m2 = page_words m1"
      by (rule page_free_ok)
    with m1 t show ?thesis by simp
  qed (use Suc in simp)
qed

lemma free_trees_ok:
  "\<forall>j < length ts. ind_wf (i + j) (ts ! j) \<Longrightarrow> mem_inv nm P m (R + trees_refs i ts) H (J + trees_pages i ts) \<Longrightarrow> H \<subseteq># R \<Longrightarrow>
   \<exists>m'. free_trees nm i ts m = (Ok (), m') \<and> mem_inv nm P m' R H J \<and> page_words m' = page_words m"
proof (induction ts arbitrary: i m)
  case (Cons t ts)
  have "mem_inv nm P m (R + trees_refs (Suc i) ts + ind_refs i t) H (J + trees_pages (Suc i) ts + ind_pages i t)"
    using Cons.prems(2) by (simp add: ac_simps)
  moreover have "H \<subseteq># R + trees_refs (Suc i) ts" using Cons.prems(3) by (simp add: subset_mset.add_increasing2)
  moreover have "ind_wf i t" using Cons.prems(1) by force
  ultimately obtain m1 where m1: "pagetree_free_indirect nm i t m = (Ok (), m1)"
      "mem_inv nm P m1 (R + trees_refs (Suc i) ts) H (J + trees_pages (Suc i) ts)" "page_words m1 = page_words m"
    using free_indirect_ok by blast
  have "\<forall>j < length ts. ind_wf (Suc i + j) (ts ! j)" using Cons.prems(1) by force
  from Cons.IH [OF this m1(2) Cons.prems(3)] m1 show ?case by auto
qed simp

definition pt_empty :: "pagetree \<Rightarrow> bool" where
  "pt_empty pt = (pt_wf pt \<and> (\<forall>e \<in> set (pt_direct pt). pe_page e = None) \<and> (\<forall>t \<in> set (pt_indir pt). t = None))"

lemma ents_refs_none: "\<forall>e \<in> set es. pe_page e = None \<Longrightarrow> ents_refs es = {#}"
  by (induction es) (auto simp: ent_refs_def)

lemma trees_none: "\<forall>t \<in> set ts. t = None \<Longrightarrow> trees_refs i ts = {#} \<and> trees_pages i ts = {#}"
  by (induction ts arbitrary: i) auto

lemma pt_empty_refs [simp]: "pt_empty pt \<Longrightarrow> pt_refs pt = {#}" "pt_empty pt \<Longrightarrow> pt_pages pt = {#}"
  by (auto simp: pt_empty_def pt_refs_def pt_pages_def ents_refs_none trees_none)

lemma pagetree_init_empty: "pt_empty (pagetree_init d pid)"
  by (auto simp: pt_empty_def pagetree_init_def pt_wf_def null_pe_def)

lemma pagetree_free_ok:
  assumes inv: "pt_inv nm P m pt R H I"
  shows "\<exists>pt' m'. pagetree_free nm (pt, m) = (Ok (), pt', m') \<and> mem_inv nm P m' R H I \<and> pt_empty pt' \<and>
    pt_pid pt' = pt_pid pt \<and> page_words m' = page_words m"
proof -
  have wf: "pt_wf pt" and H: "H \<subseteq># R"
    and mi: "mem_inv nm P m (R + trees_refs 0 (pt_indir pt) + ents_refs (pt_direct pt)) H (I + pt_pages pt)"
    using inv by (auto simp: pt_inv_def pt_refs_def ac_simps)
  from decref_ents_ok [OF mi] H obtain m1 where m1: "decref_ents nm (pt_direct pt) m = (Ok (), m1)"
    "mem_inv nm P m1 (R + trees_refs 0 (pt_indir pt)) H (I + pt_pages pt)" "page_words m1 = page_words m"
    by (auto simp: subset_mset.add_increasing2)
  have "\<forall>j < length (pt_indir pt). ind_wf (0 + j) (pt_indir pt ! j)" using wf by (simp add: pt_wf_def)
  from free_trees_ok [OF this m1(2) [unfolded pt_pages_def] H] obtain m2 where
    "free_trees nm 0 (pt_indir pt) m1 = (Ok (), m2)" "mem_inv nm P m2 R H I" "page_words m2 = page_words m1" by blast
  with m1 wf show ?thesis by (auto simp: pagetree_free_def pt_empty_def pt_wf_def)
qed

subsection \<open>Hardware references\<close>

lemma incref_hw_ok:
  assumes inv: "mem_inv nm P m R H I" and p: "p \<in># R" and sz: "size R + 1 < 2 ^ 32"
  obtains m' where "pagetree_incref_hw p m = (Ok (), m')" "mem_inv nm P m' (add_mset p R) (add_mset p H) I"
    "page_words m' = page_words m"
proof -
  have cR: "count R p < 2 ^ 32" and HR: "count H p \<le> count R p"
    using inv count_le_size [of R p] by (auto simp: mem_inv_defs mset_subset_eq_count)
  then have "unat (of_nat (count R p) :: u32) = count R p" "unat (of_nat (count H p) :: u32) = count H p"
    by (simp_all add: unat_of_nat)
  then have "(of_nat (count R p) :: u32) \<noteq> 0" "\<not> (of_nat (count R p) :: u32) < of_nat (count H p)"
    using p HR by (auto simp: word_less_nat_alt count_greater_zero_iff [symmetric] simp del: count_greater_zero_iff)
  then have "pagetree_incref_hw p m =
      (Ok (), set_pageinfo p (\<lambda>i. i\<lparr>pi_ref := pi_ref i + 1, pi_hw_ref := pi_hw_ref i + 1\<rparr>) m)"
    using inv by (simp add: pagetree_incref_hw_def page_to_pageinfo_def mem_inv_def refs_ok_def Let_def)
  moreover have "mem_inv nm P (set_pageinfo p (\<lambda>i. i\<lparr>pi_ref := pi_ref i + 1, pi_hw_ref := pi_hw_ref i + 1\<rparr>) m)
      (add_mset p R) (add_mset p H) I"
    using inv p sz by (auto simp: mem_inv_defs set_pageinfo_def free_pages_def)
  ultimately show thesis using that by (simp add: set_pageinfo_def)
qed

lemma decref_hw_ok:
  assumes inv: "mem_inv nm P m (add_mset p R) (add_mset p H) I"
  obtains m' where "pagetree_decref_hw nm p m = (Ok (), m')" "mem_inv nm P m' R H I" "page_words m' = page_words m"
proof -
  have HR: "H \<subseteq># R" using inv by (simp add: mem_inv_defs)
  let ?R = "add_mset p R" and ?H = "add_mset p H"
  have cR: "count ?R p < 2 ^ 32" and cH: "count ?H p \<le> count ?R p"
    using inv count_le_size [of ?R p] HR by (auto simp: mem_inv_defs mset_subset_eq_count simp del: count_add_mset)
  then have u: "unat (of_nat (count ?R p) :: u32) = count ?R p" "unat (of_nat (count ?H p) :: u32) = count ?H p"
    by (simp_all add: unat_of_nat del: count_add_mset)
  then have ne: "(of_nat (count ?H p) :: u32) \<noteq> 0" "\<not> (of_nat (count ?R p) :: u32) < of_nat (count ?H p)"
    using cH by (auto simp: word_less_nat_alt simp del: of_nat_Suc)
  let ?m = "set_pageinfo p (\<lambda>i. i\<lparr>pi_hw_ref := pi_hw_ref i - 1\<rparr>) m"
  have "mem_inv nm P ?m ?R H I"
    using inv HR by (auto simp: mem_inv_defs set_pageinfo_def free_pages_def intro: subset_mset.order_trans)
  then obtain m' where m': "pagetree_decref nm p ?m = (Ok (), m')" "mem_inv nm P m' R H I" "page_words m' = page_words ?m"
    using HR by (rule decref_ok)
  have "pi_ref (page_infos m p) = of_nat (count ?R p)" "pi_hw_ref (page_infos m p) = of_nat (count ?H p)"
    using inv by (auto simp: mem_inv_def refs_ok_def)
  then have "pagetree_decref_hw nm p m = pagetree_decref nm p ?m"
    using ne by (simp only: pagetree_decref_hw_def page_to_pageinfo_def Let_def if_False)
  with m' show thesis using that by (simp add: set_pageinfo_def)
qed

subsection \<open>Properties\<close>

text \<open>
  C6: \<open>pagetree_put_page\<close> replaces one entry and nothing else.  The reference to the page that was
  there is dropped (and the page freed with the last one), the new page is counted, the tree's
  indirect pages stay accounted for, no page in use changes its contents; it fails only for a
  number past the tree's capacity or when no page is left for an indirect page, and then every
  entry is as before.
\<close>

theorem pagetree_put_page_accounts:
  assumes "pt_inv nm P m pt R H I" and "put_source pg R I I'" and "size (R + pt_refs pt) + 1 < 2 ^ 32"
  shows "case pagetree_put_page nm n pg (pt, m) of (r, pt', m') \<Rightarrow> keeps_words m m' \<and>
    (case r of
       Ok _ \<Rightarrow> n < pt_capacity \<and> pt_inv nm P m' pt' R H I' \<and>
         pt_lookup pt' = (pt_lookup pt)(n := \<lparr>pe_page = pg, pe_mode = page_excl\<rparr>)
     | Err e \<Rightarrow> (e = E_NO_SPACE \<and> pt_capacity \<le> n \<or> e = E_NO_MEM \<and> free_pages m' = {}) \<and>
         pt_inv nm P m' pt' R H I \<and> pt_lookup pt' = pt_lookup pt
     | Panic \<Rightarrow> False)"
  using put_page_ok [OF assms(1,2), of n] assms(3) by (auto simp: oom_def)

lemma tiny_pt_inv:
  "mem_inv tiny_numa {1, 2} tiny_mem {#1#} {#} I \<Longrightarrow>
   pt_inv tiny_numa {1, 2} tiny_mem (pagetree_init d pid) {#1#} {#} I"
  using pagetree_init_empty [of d pid] by (simp add: pt_inv_def) (simp add: pt_empty_def)

theorem pagetree_put_page_accounts_witness:
  "\<exists>pt' m'. pagetree_put_page tiny_numa 1 (Some 1) (pagetree_init False 0, tiny_mem) = (Ok (), pt', m') \<and>
     pe_page (pt_lookup pt' 1) = Some 1 \<and> pt_inv tiny_numa {1, 2} m' pt' {#1#} {#} {#}"
proof -
  let ?pt = "pagetree_init False 0"
  have r: "pt_refs ?pt = {#}" by (simp add: pagetree_init_empty)
  have "fst (pagetree_put_page tiny_numa 1 (Some 1) (?pt, tiny_mem)) = Ok ()"
    by (simp add: pagetree_put_page_def pagetree_get_entp_def pagetree_init_def pagetree_layout null_pe_def Let_def)
  then show ?thesis
    using pagetree_put_page_accounts [OF tiny_pt_inv [OF tiny_mem_inv], of "Some 1" "{#}" False 0 1] r
    by (auto simp: put_source_def split: prod.splits)
qed

text \<open>
  C7: \<open>pagetree_get_page\<close> gives the page of an entry.  An entry shared copy-on-read, or
  copy-on-write when asked for in that mode, first becomes a private page that was free and now
  has the same contents; an absent page of an on-demand tree is made; otherwise the entry stays as it
  is, and so do all the others.  The kernel panics when a page has to be made on demand and no
  page is free.
\<close>

theorem pagetree_get_page_accounts:
  assumes "pt_inv nm P m pt R H I" and "mode_allowed mode (pt_lookup pt n)" and "size (R + pt_refs pt) + 1 < 2 ^ 32"
  shows "case pagetree_get_page nm n mode (pt, m) of (r, pt', m') \<Rightarrow> keeps_words m m' \<and> pt_inv nm P m' pt' R H I \<and>
    (case r of
       Ok pg \<Rightarrow> n < pt_capacity \<and> (\<exists>e'. pg = pe_page e' \<and> pt_lookup pt' = (pt_lookup pt)(n := e') \<and>
         got_entry mode (pt_demand pt) m m' (pt_lookup pt n) e')
     | Err e \<Rightarrow> (e = E_NO_SPACE \<and> pt_capacity \<le> n \<or> e = E_NO_MEM \<and> free_pages m' = {}) \<and> pt_lookup pt' = pt_lookup pt
     | Panic \<Rightarrow> free_pages m' = {} \<and> pt_demand pt \<and> pe_page (pt_lookup pt n) = None)"
  using get_page_ok [OF assms] by (fastforce simp: oom_def)

theorem pagetree_get_page_accounts_witness:
  "\<exists>pt' m'. pagetree_get_page tiny_numa 0 page_excl (pagetree_init True 0, tiny_mem) = (Ok (Some 2), pt', m') \<and>
     pt_inv tiny_numa {1, 2} m' pt' {#1#} {#} {#}"
proof -
  let ?pt = "pagetree_init True 0"
  have r: "pt_refs ?pt = {#}" by (simp add: pagetree_init_empty)
  have l: "pt_lookup ?pt 0 = null_pe" by (simp add: pt_lookup_def pagetree_init_def pagetree_layout)
  have "fst (pagetree_get_page tiny_numa 0 page_excl (?pt, tiny_mem)) = Ok (Some 2)"
    by (simp add: pagetree_get_page_def pagetree_get_entp_def pagetree_init_def pagetree_layout null_pe_def Let_def
        page_alloc_def tiny_numa_def tiny_mem_def arch_node_by_cpu_def page_to_pageinfo_def)
  then show ?thesis
    using pagetree_get_page_accounts [OF tiny_pt_inv [OF tiny_mem_inv], of page_excl True 0 0] r l
    by (auto simp: mode_allowed_def null_pe_def split: prod.splits)
qed

text \<open>
  C8: \<open>pagetree_free\<close> releases all a tree holds: every reference is dropped, every indirect page goes
  back to the allocator, and the tree is empty; it never panics, and what the others hold is
  untouched.
\<close>

theorem pagetree_free_releases:
  assumes "pt_inv nm P m pt R H I"
  shows "case pagetree_free nm (pt, m) of (r, pt', m') \<Rightarrow>
    r = Ok () \<and> mem_inv nm P m' R H I \<and> pt_empty pt' \<and> page_words m' = page_words m"
  using pagetree_free_ok [OF assms] by auto

theorem pagetree_free_releases_witness:
  "fst (pagetree_free tiny_numa (pagetree_init True 0, tiny_mem)) = Ok ()"
  using pagetree_free_releases [OF tiny_pt_inv [OF tiny_mem_inv], of True 0] by (auto split: prod.splits)

end
