(* ===== verification/Pagetree_Copy.thy ===== *)
theory Pagetree_Copy
  imports Pagetree_Inv
begin

text \<open>
  Copying page trees: shared copies count every page once more and make the source
  copy-on-write, exclusive copies duplicate the contents, and a copy that runs out of memory
  gives everything back.
\<close>

subsection \<open>Copying\<close>

text \<open>
  What a copy makes of one entry: nothing where the source has no page; a page of its own with the
  same contents for an exclusive copy; otherwise the same page, with the source made
  copy-on-write.
\<close>

fun copied ::
  "page_sharing_mode \<Rightarrow> physmem \<Rightarrow> physmem \<Rightarrow> pagetree_entry \<times> pagetree_entry \<Rightarrow> pagetree_entry \<times> pagetree_entry \<Rightarrow> bool"
where
  "copied mode m m' (s, d) (s', d') =
     (case pe_page s of
        None \<Rightarrow> s' = s \<and> d' = d
      | Some sp \<Rightarrow>
          if mode = page_excl then
            s' = s \<and> (\<exists>p \<in> free_pages m. d' = \<lparr>pe_page = Some p, pe_mode = page_excl\<rparr> \<and> page_words m' p = page_words m sp)
          else s' = s\<lparr>pe_mode := page_shared_cow\<rparr> \<and> d' = \<lparr>pe_page = Some sp, pe_mode = mode\<rparr>)"

lemma ents_sub: "e \<in> set es \<Longrightarrow> ent_refs e \<subseteq># ents_refs es"
  unfolding ents_refs_def by (rule elem_sub_sum_list) simp

lemma mem_inv_in_use: "mem_inv nm P m R H I \<Longrightarrow> p \<in># R \<Longrightarrow> p \<notin> free_pages m"
  by (auto simp: mem_inv_defs)

lemma mem_inv_size: "mem_inv nm P m R H I \<Longrightarrow> size R < 2 ^ 32"
  by (simp add: mem_inv_defs)

lemma copy_ent_ok:
  assumes inv: "mem_inv nm P m (R + ent_refs s) H J" and sp: "pe_page s = Some sp"
    and sz: "size (R + ent_refs s) + 1 < 2 ^ 32"
  shows "\<exists>r s' d' m'. pagetree_copy_ent nm mode pid (s, d, m) = (r, s', d', m') \<and> keeps_data m m' \<and>
    pe_page s' = pe_page s \<and>
    (r = Ok () \<and> mem_inv nm P m' (R + ent_refs s + ent_refs d') H J \<and> copied mode m m' (s, d) (s', d') \<and>
       size (ent_refs d') = 1 \<and> (\<forall>q. pe_page d' = Some q \<longrightarrow> q \<notin> free_pages m') \<or>
     r = Err E_NO_MEM \<and> oom m' \<and> s' = s \<and> d' = d \<and> mem_inv nm P m' (R + ent_refs s) H J)"
proof (cases "mode = page_excl")
  case True
  show ?thesis
  proof (rule page_alloc_ok [OF inv, of pid])
    fix p m1
    assume a: "page_alloc nm pid m = (Ok p, m1)" "mem_inv nm P m1 (R + ent_refs s) H (add_mset p J)"
      "p \<in> free_pages m" "free_pages m1 = free_pages m - {p}" "page_words m1 = page_words m"
    let ?m = "page_copy p sp (pagetree_incref p m1)"
    have "mem_inv nm P ?m (add_mset p (R + ent_refs s)) H J" using incref_owned [OF a(2)] sz by simp
    moreover have "keeps_data m ?m" using a by (auto simp: keeps_data_def page_copy_def)
    moreover have "pagetree_copy_ent nm mode pid (s, d, m) = (Ok (), s, \<lparr>pe_page = Some p, pe_mode = mode\<rparr>, ?m)"
      using a(1) True sp by (simp add: pagetree_copy_ent_def)
    moreover have "page_words ?m p = page_words m sp" "p \<notin> free_pages ?m"
      using a by (simp_all add: page_copy_def)
    ultimately show ?thesis
      using a(3) True sp by (intro exI conjI) (assumption | simp add: ent_refs_def)+
  next
    assume "page_alloc nm pid m = (Err E_NO_MEM, m\<lparr>page_failures := page_failures m + 1\<rparr>)" "free_pages m = {}"
    with inv sp True show ?thesis by (auto simp: pagetree_copy_ent_def oom_def keeps_data_def)
  qed
next
  case False
  have "sp \<in># R + ent_refs s" using sp by (simp add: ent_refs_def)
  with inv sz have "mem_inv nm P (pagetree_incref sp m) (add_mset sp (R + ent_refs s)) H J"
    by (intro incref_shared) auto
  moreover have "sp \<notin> free_pages m" using inv \<open>sp \<in># R + ent_refs s\<close> by (rule mem_inv_in_use)
  ultimately show ?thesis
    using False sp by (auto simp: pagetree_copy_ent_def ent_refs_def keeps_data_def)
qed

lemma copied_mono_left:
  "copied mode m1 m' (s, d) (s', d') \<Longrightarrow> keeps_data m m1 \<Longrightarrow> (\<forall>sp. pe_page s = Some sp \<longrightarrow> sp \<notin> free_pages m) \<Longrightarrow>
   copied mode m m' (s, d) (s', d')"
  by (auto simp: keeps_data_def split: option.splits if_splits)

lemma copied_mono_right:
  "copied mode m m1 (s, d) (s', d') \<Longrightarrow> keeps_data m1 m' \<Longrightarrow>
   (\<forall>q. pe_page d' = Some q \<longrightarrow> q \<notin> free_pages m1) \<Longrightarrow> copied mode m m' (s, d) (s', d')"
  by (auto simp: keeps_data_def split: option.splits if_splits)

lemma copy_ents_ok:
  assumes "mem_inv nm P m (R + ents_refs (map fst prs)) H J"
    and "size (R + ents_refs (map fst prs)) + size (ents_refs (map fst prs)) < 2 ^ 32"
    and "\<forall>pr \<in> set prs. pe_page (snd pr) = None"
  shows "\<exists>r prs' m'. copy_ents nm mode pid prs m = (r, prs', m') \<and> keeps_data m m' \<and>
    map (\<lambda>a. pe_page (fst a)) prs' = map (\<lambda>a. pe_page (fst a)) prs \<and>
    mem_inv nm P m' (R + ents_refs (map fst prs) + ents_refs (map snd prs')) H J \<and>
    size (ents_refs (map snd prs')) \<le> size (ents_refs (map fst prs)) \<and>
    (r = Ok () \<and> list_all2 (copied mode m m') prs prs' \<or> r = Err E_NO_MEM \<and> oom m')"
  using assms
proof (induction prs arbitrary: m R)
  case Nil
  then show ?case by simp
next
  case (Cons pr prs)
  obtain s d where pr: "pr = (s, d)" by (cases pr)
  let ?T = "ents_refs (map fst prs)"
  have dn: "pe_page d = None" "ent_refs d = {#}" using Cons.prems(3) pr by (auto simp: ent_refs_def)
  have tn: "ents_refs (map snd prs) = {#}" using Cons.prems(3) by (intro ents_refs_none) auto
  show ?case
  proof (cases "pe_page s")
    case None
    then have es: "ent_refs s = {#}" by (simp add: ent_refs_def)
    have "\<exists>r prs' m'. copy_ents nm mode pid prs m = (r, prs', m') \<and> keeps_data m m' \<and>
      map (\<lambda>a. pe_page (fst a)) prs' = map (\<lambda>a. pe_page (fst a)) prs \<and> mem_inv nm P m' (R + ?T + ents_refs (map snd prs')) H J \<and>
      size (ents_refs (map snd prs')) \<le> size ?T \<and>
      (r = Ok () \<and> list_all2 (copied mode m m') prs prs' \<or> r = Err E_NO_MEM \<and> oom m')"
      using Cons.prems es pr by (intro Cons.IH) auto
    then obtain r prs' m' where "copy_ents nm mode pid prs m = (r, prs', m')" "keeps_data m m'"
      "map (\<lambda>a. pe_page (fst a)) prs' = map (\<lambda>a. pe_page (fst a)) prs" "mem_inv nm P m' (R + ?T + ents_refs (map snd prs')) H J"
      "size (ents_refs (map snd prs')) \<le> size ?T"
      "r = Ok () \<and> list_all2 (copied mode m m') prs prs' \<or> r = Err E_NO_MEM \<and> oom m'" by blast
    with pr None es dn show ?thesis by auto
  next
    case (Some sp)
    have mi: "mem_inv nm P m (R + ?T + ent_refs s) H J" using Cons.prems(1) pr by (simp add: ac_simps)
    have es1: "size (ent_refs s) = 1" using Some by (simp add: ent_refs_def)
    have sz: "size (R + ?T + ent_refs s) + 1 < 2 ^ 32" using Cons.prems(2) pr es1 by simp
    from copy_ent_ok [OF mi Some sz, of mode pid d] obtain r1 s1 d1 m1 where
      h: "pagetree_copy_ent nm mode pid (s, d, m) = (r1, s1, d1, m1)" "keeps_data m m1" "pe_page s1 = pe_page s"
      and out: "r1 = Ok () \<and> mem_inv nm P m1 (R + ?T + ent_refs s + ent_refs d1) H J \<and> copied mode m m1 (s, d) (s1, d1) \<and>
         size (ent_refs d1) = 1 \<and> (\<forall>q. pe_page d1 = Some q \<longrightarrow> q \<notin> free_pages m1) \<or>
        r1 = Err E_NO_MEM \<and> oom m1 \<and> s1 = s \<and> d1 = d \<and> mem_inv nm P m1 (R + ?T + ent_refs s) H J" by blast
    show ?thesis using out
    proof (elim disjE conjE)
      assume o: "r1 = Ok ()" "mem_inv nm P m1 (R + ?T + ent_refs s + ent_refs d1) H J" "copied mode m m1 (s, d) (s1, d1)"
        "size (ent_refs d1) = 1" "\<forall>q. pe_page d1 = Some q \<longrightarrow> q \<notin> free_pages m1"
      have "\<exists>r prs' m'. copy_ents nm mode pid prs m1 = (r, prs', m') \<and> keeps_data m1 m' \<and>
        map (\<lambda>a. pe_page (fst a)) prs' = map (\<lambda>a. pe_page (fst a)) prs \<and>
        mem_inv nm P m' ((R + ent_refs s + ent_refs d1) + ?T + ents_refs (map snd prs')) H J \<and>
        size (ents_refs (map snd prs')) \<le> size ?T \<and>
        (r = Ok () \<and> list_all2 (copied mode m1 m') prs prs' \<or> r = Err E_NO_MEM \<and> oom m')"
        using Cons.prems(2,3) es1 o(2,4) pr by (intro Cons.IH) (auto simp: ac_simps)
      then obtain r prs' m' where t: "copy_ents nm mode pid prs m1 = (r, prs', m')" "keeps_data m1 m'"
        "map (\<lambda>a. pe_page (fst a)) prs' = map (\<lambda>a. pe_page (fst a)) prs"
        "mem_inv nm P m' ((R + ent_refs s + ent_refs d1) + ?T + ents_refs (map snd prs')) H J"
        "size (ents_refs (map snd prs')) \<le> size ?T"
        "r = Ok () \<and> list_all2 (copied mode m1 m') prs prs' \<or> r = Err E_NO_MEM \<and> oom m'" by blast
      have "copied mode m m' (s, d) (s1, d1)" using copied_mono_right [OF o(3) t(2) o(5)] .
      moreover have "list_all2 (copied mode m m') prs prs'" if "list_all2 (copied mode m1 m') prs prs'"
        unfolding list_all2_conv_all_nth
      proof (intro conjI allI impI)
        show "length prs = length prs'" using that by (rule list_all2_lengthD)
        fix i
        assume i: "i < length prs"
        obtain a b a' b' where ab: "prs ! i = (a, b)" "prs' ! i = (a', b')" by (metis surj_pair)
        have "copied mode m1 m' (a, b) (a', b')" using that i ab by (metis list_all2_nthD)
        moreover have "sp' \<notin> free_pages m" if "pe_page a = Some sp'" for sp'
        proof -
          have "a \<in> set (map fst prs)" using i ab(1) by (force simp: in_set_conv_nth)
          then have "ent_refs a \<subseteq># ?T" by (rule ents_sub)
          then have "sp' \<in># ?T" using that by (simp add: ent_refs_def)
          then show ?thesis using mi by (intro mem_inv_in_use [OF mi]) simp
        qed
        ultimately show "copied mode m m' (prs ! i) (prs' ! i)"
          unfolding ab by (intro copied_mono_left [OF _ h(2)]) auto
      qed
      ultimately show ?thesis
        using pr Some h(1,3) o(1,4) t keeps_data_trans [OF h(2) t(2)] es1 by (auto simp: ac_simps)
    next
      assume "r1 = Err E_NO_MEM" "oom m1" "s1 = s" "d1 = d" "mem_inv nm P m1 (R + ?T + ent_refs s) H J"
      with pr Some h dn tn show ?thesis by (auto simp: ac_simps)
    qed
  qed
qed

lemma ind_lookup_refs:
  "ind_wf l t \<Longrightarrow> n < n_pages_per_i l \<Longrightarrow> ent_refs (ind_lookup l t n) \<subseteq># ind_refs l t"
proof (induction l arbitrary: t n)
  case 0
  show ?case
  proof (cases t)
    case (Some x)
    with 0 obtain p es where t: "t = Some (Pi_entry p es)" by (auto split: pagetree_indirect.splits)
    have "n < length es" using 0 t by (simp add: n_pages_per_i_def)
    then have "ent_refs (es ! n) \<in> set (map ent_refs es)" by simp
    then show ?thesis unfolding t by (simp add: ents_refs_def elem_sub_sum_list)
  qed (simp add: ent_refs_def null_pe_def)
next
  case (Suc l)
  show ?case
  proof (cases t)
    case (Some x)
    with Suc.prems obtain p ks where t: "t = Some (Pi_indir p ks)" by (auto split: pagetree_indirect.splits)
    let ?k = "ks ! (n div n_pages_per_i l)"
    have s: "n div n_pages_per_i l < length ks" using Suc.prems t slot_less by auto
    then have "ent_refs (ind_lookup l ?k (n mod n_pages_per_i l)) \<subseteq># ind_refs l ?k"
      using Suc.IH Suc.prems t by auto
    moreover have "ind_refs l ?k \<in> set (map (ind_refs l) ks)" using s by simp
    then have "ind_refs l ?k \<subseteq># sum_list (map (ind_refs l) ks)" by (rule elem_sub_sum_list)
    ultimately show ?thesis unfolding t by (simp add: subset_mset.order_trans)
  qed (simp add: ent_refs_def null_pe_def)
qed

definition tree_same :: "nat \<Rightarrow> pagetree_indirect option \<Rightarrow> pagetree_indirect option \<Rightarrow> bool" where
  "tree_same l t t' =
     (ind_wf l t' \<and> ind_refs l t' = ind_refs l t \<and> ind_pages l t' = ind_pages l t \<and>
      (\<forall>n < n_pages_per_i l. pe_page (ind_lookup l t' n) = pe_page (ind_lookup l t n)))"

definition tree_copied ::
  "nat \<Rightarrow> page_sharing_mode \<Rightarrow> physmem \<Rightarrow> physmem \<Rightarrow> pagetree_indirect option \<Rightarrow>
     pagetree_indirect option \<Rightarrow> pagetree_indirect option \<Rightarrow> bool"
where
  "tree_copied l mode m m' t t' d =
     (\<forall>n < n_pages_per_i l.
        copied mode m m' (ind_lookup l t n, null_pe) (ind_lookup l t' n, ind_lookup l d n))"

lemma tree_copied_left:
  assumes "tree_copied l mode m1 m' t t' d" "keeps_data m m1" "ind_wf l t"
    and use: "\<And>p. p \<in># ind_refs l t \<Longrightarrow> p \<notin> free_pages m"
  shows "tree_copied l mode m m' t t' d"
  unfolding tree_copied_def
proof (intro allI impI)
  fix n
  assume n: "n < n_pages_per_i l"
  have "sp \<notin> free_pages m" if "pe_page (ind_lookup l t n) = Some sp" for sp
    using ind_lookup_refs [OF assms(3) n] that use by (simp add: ent_refs_def)
  moreover have "copied mode m1 m' (ind_lookup l t n, null_pe) (ind_lookup l t' n, ind_lookup l d n)"
    using assms(1) n unfolding tree_copied_def by blast
  ultimately show "copied mode m m' (ind_lookup l t n, null_pe) (ind_lookup l t' n, ind_lookup l d n)"
    using copied_mono_left [OF _ assms(2)] by blast
qed

lemma tree_copied_right:
  assumes "tree_copied l mode m m1 t t' d" "keeps_data m1 m'" "ind_wf l d"
    and use: "\<And>p. p \<in># ind_refs l d \<Longrightarrow> p \<notin> free_pages m1"
  shows "tree_copied l mode m m' t t' d"
  unfolding tree_copied_def
proof (intro allI impI)
  fix n
  assume n: "n < n_pages_per_i l"
  have "q \<notin> free_pages m1" if "pe_page (ind_lookup l d n) = Some q" for q
    using ind_lookup_refs [OF assms(3) n] that use by (simp add: ent_refs_def)
  moreover have "copied mode m m1 (ind_lookup l t n, null_pe) (ind_lookup l t' n, ind_lookup l d n)"
    using assms(1) n unfolding tree_copied_def by blast
  ultimately show "copied mode m m' (ind_lookup l t n, null_pe) (ind_lookup l t' n, ind_lookup l d n)"
    using copied_mono_right [OF _ assms(2)] by blast
qed

definition copy_spec :: "numa \<Rightarrow> page set \<Rightarrow> page multiset \<Rightarrow> page_sharing_mode \<Rightarrow> nat \<Rightarrow> nat \<Rightarrow> bool" where
  "copy_spec nm P H mode pid l =
     (\<forall>t m R J. ind_wf l t \<longrightarrow> mem_inv nm P m (R + ind_refs l t) H (J + ind_pages l t) \<longrightarrow>
        size (R + ind_refs l t) + size (ind_refs l t) < 2 ^ 32 \<longrightarrow>
        (\<exists>r t' d m'. pagetree_copy_indirect nm mode pid l t m = (r, (t', d), m') \<and> keeps_data m m' \<and>
           tree_same l t t' \<and> ind_wf l d \<and>
           mem_inv nm P m' (R + ind_refs l t + ind_refs l d) H (J + ind_pages l t + ind_pages l d) \<and>
           size (ind_refs l d) \<le> size (ind_refs l t) \<and>
           (r = Ok () \<and> tree_copied l mode m m' t t' d \<or> r = Err E_NO_MEM \<and> oom m')))"

text \<open>The loops over the slots of a node and over the four trees, with the level of each subtree.\<close>

fun copy_many ::
  "numa \<Rightarrow> page_sharing_mode \<Rightarrow> nat \<Rightarrow> nat list \<Rightarrow> pagetree_indirect option list \<Rightarrow> physmem \<Rightarrow>
     unit result \<times> (pagetree_indirect option \<times> pagetree_indirect option) list \<times> physmem"
where
  "copy_many nm mode pid (l # ls) (t # ts) m =
     (let (r, td, m) = pagetree_copy_indirect nm mode pid l t m in
      bind_r (r, td # map (\<lambda>t. (t, None)) ts, m) (\<lambda>_ (_, m).
        let (r, tds, m) = copy_many nm mode pid ls ts m in (r, td # tds, m)))"
| "copy_many nm mode pid _ _ m = (Ok (), [], m)"

lemma copy_kids_many:
  "copy_kids (pagetree_copy_indirect nm mode pid l) None ks m = copy_many nm mode pid (replicate (length ks) l) ks m"
  by (induction ks arbitrary: m) simp_all

lemma copy_trees_many: "copy_trees nm mode pid i ts m = copy_many nm mode pid [i..<i + length ts] ts m"
proof (induction ts arbitrary: i m)
  case (Cons t ts)
  have "[i..<i + length (t # ts)] = i # [Suc i..<Suc i + length ts]"
    using upt_conv_Cons [of i "i + length (t # ts)"] by simp
  then show ?case by (simp add: Cons Let_def del: upt_Suc)
qed simp

abbreviation many_refs :: "nat list \<Rightarrow> pagetree_indirect option list \<Rightarrow> page multiset" where
  "many_refs ls ts \<equiv> sum_list (map2 ind_refs ls ts)"

abbreviation many_pages :: "nat list \<Rightarrow> pagetree_indirect option list \<Rightarrow> page multiset" where
  "many_pages ls ts \<equiv> sum_list (map2 ind_pages ls ts)"

lemma many_none [simp]:
  "many_refs ls (map (\<lambda>t. None) ts) = {#}" "many_pages ls (map (\<lambda>t. None) ts) = {#}"
proof -
  have "many_refs ls (map (\<lambda>t. None) ts) = {#} \<and> many_pages ls (map (\<lambda>t. None) ts) = {#}"
  proof (induction ts arbitrary: ls)
    case (Cons t ts)
    then show ?case by (cases ls) auto
  qed simp
  then show "many_refs ls (map (\<lambda>t. None) ts) = {#}" "many_pages ls (map (\<lambda>t. None) ts) = {#}" by auto
qed

lemma tree_same_refl: "ind_wf l t \<Longrightarrow> tree_same l t t"
  by (simp add: tree_same_def)

lemma copy_many_ok:
  assumes "\<forall>l \<in> set ls. copy_spec nm P H mode pid l" "list_all2 ind_wf ls ts"
    and "mem_inv nm P m (R + many_refs ls ts) H (J + many_pages ls ts)"
    and "size (R + many_refs ls ts) + size (many_refs ls ts) < 2 ^ 32"
  shows "\<exists>r tds m'. copy_many nm mode pid ls ts m = (r, tds, m') \<and> keeps_data m m' \<and> length tds = length ts \<and>
    mem_inv nm P m' (R + many_refs ls ts + many_refs ls (map snd tds)) H (J + many_pages ls ts + many_pages ls (map snd tds)) \<and>
    size (many_refs ls (map snd tds)) \<le> size (many_refs ls ts) \<and>
    (\<forall>i < length ts. tree_same (ls ! i) (ts ! i) (fst (tds ! i)) \<and> ind_wf (ls ! i) (snd (tds ! i))) \<and>
    (r = Ok () \<and> (\<forall>i < length ts. tree_copied (ls ! i) mode m m' (ts ! i) (fst (tds ! i)) (snd (tds ! i))) \<or>
     r = Err E_NO_MEM \<and> oom m')"
  using assms(2,1,3,4)
proof (induction ls ts arbitrary: m R J rule: list_all2_induct)
  case Nil
  then show ?case by simp
next
  case (Cons l ls t ts)
  let ?RF = "many_refs ls ts" and ?PG = "many_pages ls ts"
  have len: "length ls = length ts" using Cons.hyps(2) by (rule list_all2_lengthD)
  have mi: "mem_inv nm P m (R + ?RF + ind_refs l t) H (J + ?PG + ind_pages l t)"
    using Cons.prems(2) by (simp add: ac_simps)
  have sz: "size (R + ?RF + ind_refs l t) + size (ind_refs l t) < 2 ^ 32" using Cons.prems(3) by simp
  have sp: "copy_spec nm P H mode pid l" using Cons.prems(1) by simp
  from sp [unfolded copy_spec_def, rule_format, OF Cons.hyps(1) mi sz] obtain r1 t1 d1 m1 where
    h: "pagetree_copy_indirect nm mode pid l t m = (r1, (t1, d1), m1)" "keeps_data m m1" "tree_same l t t1" "ind_wf l d1"
      "mem_inv nm P m1 (R + ?RF + ind_refs l t + ind_refs l d1) H (J + ?PG + ind_pages l t + ind_pages l d1)"
      "size (ind_refs l d1) \<le> size (ind_refs l t)"
    and out: "r1 = Ok () \<and> tree_copied l mode m m1 t t1 d1 \<or> r1 = Err E_NO_MEM \<and> oom m1" by blast
  show ?case using out
  proof (elim disjE conjE)
    assume o: "r1 = Ok ()" "tree_copied l mode m m1 t t1 d1"
    let ?R = "R + ind_refs l t + ind_refs l d1" and ?J = "J + ind_pages l t + ind_pages l d1"
    have "\<exists>r tds m'. copy_many nm mode pid ls ts m1 = (r, tds, m') \<and> keeps_data m1 m' \<and> length tds = length ts \<and>
      mem_inv nm P m' (?R + ?RF + many_refs ls (map snd tds)) H (?J + ?PG + many_pages ls (map snd tds)) \<and>
      size (many_refs ls (map snd tds)) \<le> size ?RF \<and>
      (\<forall>i < length ts. tree_same (ls ! i) (ts ! i) (fst (tds ! i)) \<and> ind_wf (ls ! i) (snd (tds ! i))) \<and>
      (r = Ok () \<and> (\<forall>i < length ts. tree_copied (ls ! i) mode m1 m' (ts ! i) (fst (tds ! i)) (snd (tds ! i))) \<or>
       r = Err E_NO_MEM \<and> oom m')"
    proof (rule Cons.IH)
      show "mem_inv nm P m1 (?R + ?RF) H (?J + ?PG)" using h(5) by (simp add: ac_simps)
      show "size (?R + ?RF) + size ?RF < 2 ^ 32" using Cons.prems(3) h(6) by simp
    qed (use Cons.prems(1) in simp)
    then obtain r tds m' where t: "copy_many nm mode pid ls ts m1 = (r, tds, m')" "keeps_data m1 m'" "length tds = length ts"
      "mem_inv nm P m' (?R + ?RF + many_refs ls (map snd tds)) H (?J + ?PG + many_pages ls (map snd tds))"
      "size (many_refs ls (map snd tds)) \<le> size ?RF"
      "\<forall>i < length ts. tree_same (ls ! i) (ts ! i) (fst (tds ! i)) \<and> ind_wf (ls ! i) (snd (tds ! i))"
      "r = Ok () \<and> (\<forall>i < length ts. tree_copied (ls ! i) mode m1 m' (ts ! i) (fst (tds ! i)) (snd (tds ! i))) \<or>
       r = Err E_NO_MEM \<and> oom m'" by blast
    have hc: "tree_copied l mode m m' t t1 d1"
      by (rule tree_copied_right [OF o(2) t(2) h(4)]) (rule mem_inv_in_use [OF h(5)], simp)
    have tc: "tree_copied (ls ! i) mode m m' (ts ! i) (fst (tds ! i)) (snd (tds ! i))"
      if "i < length ts" "tree_copied (ls ! i) mode m1 m' (ts ! i) (fst (tds ! i)) (snd (tds ! i))" for i
    proof (rule tree_copied_left [OF that(2) h(2)])
      show "ind_wf (ls ! i) (ts ! i)" using Cons.hyps(2) that(1) len by (simp add: list_all2_conv_all_nth)
      fix p
      assume p: "p \<in># ind_refs (ls ! i) (ts ! i)"
      have "ind_refs (ls ! i) (ts ! i) \<in> set (map2 ind_refs ls ts)"
        using that(1) len by (force simp: in_set_conv_nth)
      from mset_subset_eqD [OF elem_sub_sum_list [OF this] p] show "p \<notin> free_pages m"
        by (intro mem_inv_in_use [OF mi]) simp
    qed
    have "copy_many nm mode pid (l # ls) (t # ts) m = (r, (t1, d1) # tds, m')" using h(1) o(1) t(1) by simp
    moreover have "keeps_data m m'" using keeps_data_trans [OF h(2) t(2)] .
    moreover have "mem_inv nm P m' (R + many_refs (l # ls) (t # ts) + many_refs (l # ls) (map snd ((t1, d1) # tds))) H
        (J + many_pages (l # ls) (t # ts) + many_pages (l # ls) (map snd ((t1, d1) # tds)))"
      using t(4) by (simp add: ac_simps)
    moreover have "size (many_refs (l # ls) (map snd ((t1, d1) # tds))) \<le> size (many_refs (l # ls) (t # ts))"
      using t(5) h(6) by simp
    moreover have "\<forall>i < length (t # ts). tree_same ((l # ls) ! i) ((t # ts) ! i) (fst (((t1, d1) # tds) ! i)) \<and>
        ind_wf ((l # ls) ! i) (snd (((t1, d1) # tds) ! i))"
      using t(6) h(3,4) by (simp add: nth_Cons split: nat.split)
    moreover have "r = Ok () \<and> (\<forall>i < length (t # ts). tree_copied ((l # ls) ! i) mode m m' ((t # ts) ! i)
        (fst (((t1, d1) # tds) ! i)) (snd (((t1, d1) # tds) ! i))) \<or> r = Err E_NO_MEM \<and> oom m'"
      using t(7) tc hc by (auto simp: nth_Cons split: nat.split)
    ultimately show ?thesis using t(3) by (intro exI conjI) auto
  next
    assume o: "r1 = Err E_NO_MEM" "oom m1"
    have "\<forall>i < length (t # ts). tree_same ((l # ls) ! i) ((t # ts) ! i) (fst (((t1, d1) # map (\<lambda>t. (t, None)) ts) ! i)) \<and>
        ind_wf ((l # ls) ! i) (snd (((t1, d1) # map (\<lambda>t. (t, None)) ts) ! i))"
      using h(3,4) Cons.hyps(2) len by (auto simp: nth_Cons list_all2_conv_all_nth tree_same_refl split: nat.split)
    moreover have "mem_inv nm P m1 (R + many_refs (l # ls) (t # ts) + many_refs (l # ls) (map snd ((t1, d1) # map (\<lambda>t. (t, None)) ts))) H
        (J + many_pages (l # ls) (t # ts) + many_pages (l # ls) (map snd ((t1, d1) # map (\<lambda>t. (t, None)) ts)))"
      using h(5) by (simp add: ac_simps comp_def)
    ultimately show ?thesis using h(1,2,6) o by (intro exI conjI) (auto simp: comp_def)
  qed
qed

lemma ents_refs_cong: "map pe_page es = map pe_page es' \<Longrightarrow> ents_refs es = ents_refs es'"
proof -
  have "map ent_refs es = map (\<lambda>p. case p of None \<Rightarrow> {#} | Some q \<Rightarrow> {#q#}) (map pe_page es)" for es
    by (simp add: ent_refs_def)
  then show "map pe_page es = map pe_page es' \<Longrightarrow> ents_refs es = ents_refs es'"
    unfolding ents_refs_def by metis
qed

lemma map2_replicate: "map2 f (replicate (length ks) l) ks = map (f l) ks"
  by (induction ks) auto

lemma tree_copied_None [simp]: "tree_copied l mode m m' None None None"
  by (simp add: tree_copied_def null_pe_def)

lemma copy_spec_0: "copy_spec nm P H mode pid 0"
  unfolding copy_spec_def
proof (intro allI impI)
  fix t m R J
  assume wf: "ind_wf 0 t" and mi: "mem_inv nm P m (R + ind_refs 0 t) H (J + ind_pages 0 t)"
    and sz: "size (R + ind_refs 0 t) + size (ind_refs 0 t) < 2 ^ 32"
  let ?goal = "\<exists>r t' d m'. pagetree_copy_indirect nm mode pid 0 t m = (r, (t', d), m') \<and> keeps_data m m' \<and>
     tree_same 0 t t' \<and> ind_wf 0 d \<and>
     mem_inv nm P m' (R + ind_refs 0 t + ind_refs 0 d) H (J + ind_pages 0 t + ind_pages 0 d) \<and>
     size (ind_refs 0 d) \<le> size (ind_refs 0 t) \<and>
     (r = Ok () \<and> tree_copied 0 mode m m' t t' d \<or> r = Err E_NO_MEM \<and> oom m')"
  show ?goal
  proof (cases t)
    case None
    with mi show ?thesis by (simp add: tree_same_refl)
  next
    case (Some x)
    with wf obtain p es where t: "t = Some (Pi_entry p es)" and len: "length es = EPP"
      by (auto split: pagetree_indirect.splits)
    have mi': "mem_inv nm P m (R + ents_refs es) H (add_mset p J)" using mi t by simp
    show ?thesis
    proof (rule page_alloc_ok [OF mi', of pid])
      fix dp m1
      assume a: "page_alloc nm pid m = (Ok dp, m1)" "mem_inv nm P m1 (R + ents_refs es) H (add_mset dp (add_mset p J))"
        "dp \<in> free_pages m" "free_pages m1 = free_pages m - {dp}" "page_words m1 = page_words m"
      let ?m = "page_zero dp m1" and ?prs = "map (\<lambda>e. (e, null_pe)) es"
      have kd: "keeps_data m ?m" using a by (auto simp: keeps_data_def page_zero_def)
      have "\<exists>r prs' m'. copy_ents nm mode pid ?prs ?m = (r, prs', m') \<and> keeps_data ?m m' \<and>
        map (\<lambda>a. pe_page (fst a)) prs' = map (\<lambda>a. pe_page (fst a)) ?prs \<and>
        mem_inv nm P m' (R + ents_refs (map fst ?prs) + ents_refs (map snd prs')) H (add_mset dp (add_mset p J)) \<and>
        size (ents_refs (map snd prs')) \<le> size (ents_refs (map fst ?prs)) \<and>
        (r = Ok () \<and> list_all2 (copied mode ?m m') ?prs prs' \<or> r = Err E_NO_MEM \<and> oom m')"
        using a(2) sz t by (intro copy_ents_ok) (auto simp: comp_def null_pe_def)
      then obtain r prs m' where c: "copy_ents nm mode pid ?prs ?m = (r, prs, m')" "keeps_data ?m m'"
        "map (\<lambda>a. pe_page (fst a)) prs = map pe_page es"
        "mem_inv nm P m' (R + ents_refs es + ents_refs (map snd prs)) H (add_mset dp (add_mset p J))"
        "size (ents_refs (map snd prs)) \<le> size (ents_refs es)"
        "r = Ok () \<and> list_all2 (copied mode ?m m') ?prs prs \<or> r = Err E_NO_MEM \<and> oom m'"
        by (auto simp: comp_def)
      let ?t = "Some (Pi_entry p (map fst prs))" and ?d = "Some (Pi_entry dp (map snd prs))"
      have lp: "length prs = EPP" using c(3) len by (metis length_map)
      have rf: "ents_refs (map fst prs) = ents_refs es"
        using c(3) by (intro ents_refs_cong) (simp add: comp_def)
      have pp: "pe_page (fst (prs ! n)) = pe_page (es ! n)" if "n < EPP" for n
        using arg_cong [OF c(3), of "\<lambda>xs. xs ! n"] lp len that by simp
      have same: "tree_same 0 t ?t" using lp rf pp t by (simp add: tree_same_def n_pages_per_i_def)
      have tc: "tree_copied 0 mode m m' t ?t ?d" if l2: "list_all2 (copied mode ?m m') ?prs prs"
      proof (rule tree_copied_left [OF _ kd])
        show "tree_copied 0 mode ?m m' t ?t ?d"
          unfolding tree_copied_def
        proof (intro allI impI)
          fix n
          assume "n < n_pages_per_i 0"
          then have n: "n < EPP" by (simp add: n_pages_per_i_def)
          then have "copied mode ?m m' (es ! n, null_pe) (prs ! n)"
            using list_all2_nthD [OF l2, of n] len by simp
          then show "copied mode ?m m' (ind_lookup 0 t n, null_pe) (ind_lookup 0 ?t n, ind_lookup 0 ?d n)"
            using n lp t by (metis (no_types, lifting) ind_lookup.simps(1) nth_map option.simps(5)
                pagetree_indirect.simps(5) prod.collapse)
        qed
      qed (use wf mi mem_inv_in_use [OF mi] in auto)
      have "pagetree_copy_indirect nm mode pid 0 t m = (r, (?t, ?d), m')" using a(1) c(1) t by simp
      moreover have "mem_inv nm P m' (R + ind_refs 0 t + ind_refs 0 ?d) H (J + ind_pages 0 t + ind_pages 0 ?d)"
        using c(4) t by simp
      ultimately show ?thesis
        using same lp c(5,6) tc keeps_data_trans [OF kd c(2)] t by (intro exI conjI) (assumption | force)+
    next
      assume "page_alloc nm pid m = (Err E_NO_MEM, m\<lparr>page_failures := page_failures m + 1\<rparr>)" "free_pages m = {}"
      with mi' t wf show ?thesis by (auto simp: tree_same_refl oom_def keeps_data_def)
    qed
  qed
qed

lemma copy_spec_Suc:
  assumes IH: "copy_spec nm P H mode pid l"
  shows "copy_spec nm P H mode pid (Suc l)"
  unfolding copy_spec_def
proof (intro allI impI)
  fix t m R J
  assume wf: "ind_wf (Suc l) t" and mi: "mem_inv nm P m (R + ind_refs (Suc l) t) H (J + ind_pages (Suc l) t)"
    and sz: "size (R + ind_refs (Suc l) t) + size (ind_refs (Suc l) t) < 2 ^ 32"
  let ?goal = "\<exists>r t' d m'. pagetree_copy_indirect nm mode pid (Suc l) t m = (r, (t', d), m') \<and> keeps_data m m' \<and>
     tree_same (Suc l) t t' \<and> ind_wf (Suc l) d \<and>
     mem_inv nm P m' (R + ind_refs (Suc l) t + ind_refs (Suc l) d) H (J + ind_pages (Suc l) t + ind_pages (Suc l) d) \<and>
     size (ind_refs (Suc l) d) \<le> size (ind_refs (Suc l) t) \<and>
     (r = Ok () \<and> tree_copied (Suc l) mode m m' t t' d \<or> r = Err E_NO_MEM \<and> oom m')"
  show ?goal
  proof (cases t)
    case None
    with mi show ?thesis by (simp add: tree_same_refl)
  next
    case (Some x)
    with wf obtain p ks where t: "t = Some (Pi_indir p ks)" and len: "length ks = IPP" and wfk: "\<forall>k \<in> set ks. ind_wf l k"
      by (auto split: pagetree_indirect.splits)
    let ?ls = "replicate (length ks) l"
    have mi': "mem_inv nm P m (R + many_refs ?ls ks) H (add_mset p (J + many_pages ?ls ks))"
      using mi t by (simp add: map2_replicate)
    show ?thesis
    proof (rule page_alloc_ok [OF mi', of pid])
      fix dp m1
      assume a: "page_alloc nm pid m = (Ok dp, m1)"
        "mem_inv nm P m1 (R + many_refs ?ls ks) H (add_mset dp (add_mset p (J + many_pages ?ls ks)))"
        "dp \<in> free_pages m" "free_pages m1 = free_pages m - {dp}" "page_words m1 = page_words m"
      let ?m = "page_zero dp m1" and ?J = "add_mset dp (add_mset p J)"
      have kd: "keeps_data m ?m" using a by (auto simp: keeps_data_def page_zero_def)
      have "\<exists>r tds m'. copy_many nm mode pid ?ls ks ?m = (r, tds, m') \<and> keeps_data ?m m' \<and> length tds = length ks \<and>
        mem_inv nm P m' (R + many_refs ?ls ks + many_refs ?ls (map snd tds)) H (?J + many_pages ?ls ks + many_pages ?ls (map snd tds)) \<and>
        size (many_refs ?ls (map snd tds)) \<le> size (many_refs ?ls ks) \<and>
        (\<forall>i < length ks. tree_same (?ls ! i) (ks ! i) (fst (tds ! i)) \<and> ind_wf (?ls ! i) (snd (tds ! i))) \<and>
        (r = Ok () \<and> (\<forall>i < length ks. tree_copied (?ls ! i) mode ?m m' (ks ! i) (fst (tds ! i)) (snd (tds ! i))) \<or>
         r = Err E_NO_MEM \<and> oom m')"
      proof (rule copy_many_ok)
        show "list_all2 ind_wf ?ls ks" using wfk by (simp add: list_all2_conv_all_nth)
        show "size (R + many_refs ?ls ks) + size (many_refs ?ls ks) < 2 ^ 32" using sz t by (simp add: map2_replicate)
      qed (use IH a(2) in auto)
      then obtain r tds m' where c: "copy_many nm mode pid ?ls ks ?m = (r, tds, m')" "keeps_data ?m m'" "length tds = length ks"
        "mem_inv nm P m' (R + many_refs ?ls ks + many_refs ?ls (map snd tds)) H (?J + many_pages ?ls ks + many_pages ?ls (map snd tds))"
        "size (many_refs ?ls (map snd tds)) \<le> size (many_refs ?ls ks)"
        "\<forall>i < length ks. tree_same l (ks ! i) (fst (tds ! i)) \<and> ind_wf l (snd (tds ! i))"
        "r = Ok () \<and> (\<forall>i < length ks. tree_copied l mode ?m m' (ks ! i) (fst (tds ! i)) (snd (tds ! i))) \<or>
         r = Err E_NO_MEM \<and> oom m'" by auto
      let ?t = "Some (Pi_indir p (map fst tds))" and ?d = "Some (Pi_indir dp (map snd tds))"
      have lt: "length (map snd tds) = length ks" using c(3) by simp
      have mr: "many_refs ?ls (map snd tds) = sum_list (map (ind_refs l) (map snd tds))"
        "many_pages ?ls (map snd tds) = sum_list (map (ind_pages l) (map snd tds))"
        using map2_replicate [of ind_refs "map snd tds" l] map2_replicate [of ind_pages "map snd tds" l] lt by simp_all
      have eqs: "map (ind_refs l) (map fst tds) = map (ind_refs l) ks" "map (ind_pages l) (map fst tds) = map (ind_pages l) ks"
        using c(3,6) by (auto simp: list_eq_iff_nth_eq tree_same_def)
      have same: "tree_same (Suc l) t ?t"
        unfolding tree_same_def
      proof (intro conjI allI impI)
        show "ind_wf (Suc l) ?t" using c(3,6) len by (auto simp: all_set_conv_all_nth tree_same_def)
        show "ind_refs (Suc l) ?t = ind_refs (Suc l) t" using eqs(1) t by simp
        show "ind_pages (Suc l) ?t = ind_pages (Suc l) t" using eqs(2) t by simp
        fix n
        assume "n < n_pages_per_i (Suc l)"
        then have "n div n_pages_per_i l < length ks" using slot_less len by simp
        then show "pe_page (ind_lookup (Suc l) ?t n) = pe_page (ind_lookup (Suc l) t n)"
          using c(3,6) t by (simp add: tree_same_def)
      qed
      have wfd: "ind_wf (Suc l) ?d" using c(3,6) len by (auto simp: all_set_conv_all_nth)
      have tc: "tree_copied (Suc l) mode m m' t ?t ?d"
        if l2: "\<forall>i < length ks. tree_copied l mode ?m m' (ks ! i) (fst (tds ! i)) (snd (tds ! i))"
      proof (rule tree_copied_left [OF _ kd wf])
        show "tree_copied (Suc l) mode ?m m' t ?t ?d"
          unfolding tree_copied_def
        proof (intro allI impI)
          fix n
          assume "n < n_pages_per_i (Suc l)"
          then have n: "n div n_pages_per_i l < length ks" using slot_less len by simp
          then have "copied mode ?m m' (ind_lookup l (ks ! (n div n_pages_per_i l)) (n mod n_pages_per_i l), null_pe)
             (ind_lookup l (fst (tds ! (n div n_pages_per_i l))) (n mod n_pages_per_i l),
              ind_lookup l (snd (tds ! (n div n_pages_per_i l))) (n mod n_pages_per_i l))"
            using l2 unfolding tree_copied_def by simp
          then show "copied mode ?m m' (ind_lookup (Suc l) t n, null_pe) (ind_lookup (Suc l) ?t n, ind_lookup (Suc l) ?d n)"
            using n c(3) t by (simp del: copied.simps)
        qed
      qed (use mem_inv_in_use [OF mi] in auto)
      have "pagetree_copy_indirect nm mode pid (Suc l) t m = (r, (?t, ?d), m')"
        using a(1) c(1) t by (simp add: copy_kids_many)
      moreover have "mem_inv nm P m' (R + ind_refs (Suc l) t + ind_refs (Suc l) ?d) H (J + ind_pages (Suc l) t + ind_pages (Suc l) ?d)"
        using c(4) t mr by (simp add: map2_replicate ac_simps add_mset_commute)
      moreover have "size (ind_refs (Suc l) ?d) \<le> size (ind_refs (Suc l) t)"
        using c(5) t mr by (simp add: map2_replicate)
      moreover have "r = Ok () \<and> tree_copied (Suc l) mode m m' t ?t ?d \<or> r = Err E_NO_MEM \<and> oom m'"
        using c(7) tc by blast
      ultimately show ?thesis
        using same wfd keeps_data_trans [OF kd c(2)] by blast
    next
      assume "page_alloc nm pid m = (Err E_NO_MEM, m\<lparr>page_failures := page_failures m + 1\<rparr>)" "free_pages m = {}"
      moreover from this have "pagetree_copy_indirect nm mode pid (Suc l) t m =
          (Err E_NO_MEM, (t, None), m\<lparr>page_failures := page_failures m + 1\<rparr>)" using t by simp
      ultimately show ?thesis using mi wf by (simp add: tree_same_refl oom_def keeps_data_def)
    qed
  qed
qed

lemma copy_spec_all: "copy_spec nm P H mode pid l"
  by (induction l) (simp_all add: copy_spec_0 copy_spec_Suc)

lemma trees_many:
  "trees_refs i ts = many_refs [i..<i + length ts] ts" "trees_pages i ts = many_pages [i..<i + length ts] ts"
proof -
  have "trees_refs i ts = many_refs [i..<i + length ts] ts \<and> trees_pages i ts = many_pages [i..<i + length ts] ts"
  proof (induction ts arbitrary: i)
    case (Cons t ts)
    have "[i..<i + length (t # ts)] = i # [Suc i..<Suc i + length ts]"
      using upt_conv_Cons [of i "i + length (t # ts)"] by simp
    then show ?case using Cons [of "Suc i"] by (simp del: upt_Suc)
  qed simp
  then show "trees_refs i ts = many_refs [i..<i + length ts] ts" "trees_pages i ts = many_pages [i..<i + length ts] ts"
    by auto
qed

text \<open>The outcome for one entry, as the caller sees it.\<close>

definition copy_result ::
  "page_sharing_mode \<Rightarrow> physmem \<Rightarrow> physmem \<Rightarrow> pagetree_entry \<Rightarrow> pagetree_entry \<Rightarrow> pagetree_entry \<Rightarrow> bool"
where
  "copy_result mode m m' s s' d =
     (case pe_page s of
        None \<Rightarrow> s' = s \<and> pe_page d = None
      | Some sp \<Rightarrow>
          if mode = page_excl then
            s' = s \<and> pe_mode d = page_excl \<and>
            (\<exists>p. pe_page d = Some p \<and> p \<noteq> sp \<and> page_words m' p = page_words m sp)
          else s' = s\<lparr>pe_mode := page_shared_cow\<rparr> \<and> d = \<lparr>pe_page = Some sp, pe_mode = mode\<rparr>)"

lemma copied_result:
  "copied mode m1 m' (s, d0) (s', d) \<Longrightarrow> pe_page d0 = None \<Longrightarrow> page_words m1 = page_words m \<Longrightarrow>
   (\<forall>sp. pe_page s = Some sp \<longrightarrow> sp \<notin> free_pages m1) \<Longrightarrow> copy_result mode m m' s s' d"
  by (auto simp: copy_result_def split: option.splits if_splits)

lemma copy_cleanup_ok:
  assumes "pt_inv nm P m dst (R + pt_refs src) H (I + pt_pages src)"
  shows "\<exists>dst' m'. copy_cleanup nm (Err e) src dst m = (Err e, src, dst', m') \<and> pt_empty dst' \<and>
    mem_inv nm P m' (R + pt_refs src) H (I + pt_pages src)"
  using pagetree_free_ok [OF assms] by (auto simp: copy_cleanup_def)

text \<open>The entries of a tree and of its copy, gathered from the direct entries and the four trees.\<close>

lemma pt_copied_lookup:
  assumes n: "n < pt_capacity"
    and dir: "\<And>i. i < PAGETREE_DIRECT_ENTRIES \<Longrightarrow> Q (pt_direct s ! i) (pt_direct s' ! i) (pt_direct d ! i)"
    and ind: "\<And>i k. i < PAGETREE_INDIRECT_ENTRIES \<Longrightarrow> k < n_pages_per_i i \<Longrightarrow>
       Q (ind_lookup i (pt_indir s ! i) k) (ind_lookup i (pt_indir s' ! i) k) (ind_lookup i (pt_indir d ! i) k)"
  shows "Q (pt_lookup s n) (pt_lookup s' n) (pt_lookup d n)"
proof (cases "n < PAGETREE_DIRECT_ENTRIES")
  case True
  with dir show ?thesis by (simp add: pt_lookup_def)
next
  case False
  then obtain i k where ik: "locate 0 PAGETREE_INDIRECT_ENTRIES (n - PAGETREE_DIRECT_ENTRIES) = Some (i, k)"
    using locate_capacity [of n] n by fastforce
  with locate_bounds [OF ik] False ind [of i k] show ?thesis by (simp add: pt_lookup_def)
qed

lemma pagetree_copy_ok:
  assumes wf: "pt_wf src" "pt_wf dst" and H: "H \<subseteq># R"
    and mi: "mem_inv nm P m (R + pt_refs src + pt_refs dst) H (I + pt_pages src + pt_pages dst)"
    and sz: "size (R + pt_refs src) + size (pt_refs src) < 2 ^ 32"
  shows "\<exists>r src' dst' m'. pagetree_copy nm mode (src, dst, m) = (r, src', dst', m') \<and> pt_wf src' \<and> pt_wf dst' \<and>
    pt_refs src' = pt_refs src \<and> pt_pages src' = pt_pages src \<and>
    mem_inv nm P m' (R + pt_refs src' + pt_refs dst') H (I + pt_pages src' + pt_pages dst') \<and>
    (r = Ok () \<and> pt_demand dst' = pt_demand src \<and>
       (\<forall>n < pt_capacity. copy_result mode m m' (pt_lookup src n) (pt_lookup src' n) (pt_lookup dst' n)) \<or>
     r = Err E_NO_MEM \<and> pt_empty dst')"
proof -
  have "pt_inv nm P m dst (R + pt_refs src) H (I + pt_pages src)"
    using wf H mi by (simp add: pt_inv_def subset_mset.add_increasing2)
  from pagetree_free_ok [OF this] obtain d0 m0 where
    f: "pagetree_free nm (dst, m) = (Ok (), d0, m0)" "mem_inv nm P m0 (R + pt_refs src) H (I + pt_pages src)"
      "pt_empty d0" "page_words m0 = page_words m" by blast
  let ?prs = "zip (pt_direct src) (pt_direct d0)"
  let ?TR = "trees_refs 0 (pt_indir src)" and ?D = "ents_refs (pt_direct src)"
  have ld: "length (pt_direct src) = length (pt_direct d0)" using wf f(3) by (simp add: pt_wf_def pt_empty_def)
  have pr: "map fst ?prs = pt_direct src" "map snd ?prs = pt_direct d0" using ld by simp_all
  have "\<exists>r prs' m'. copy_ents nm mode (pt_pid d0) ?prs m0 = (r, prs', m') \<and> keeps_data m0 m' \<and>
    map (\<lambda>a. pe_page (fst a)) prs' = map (\<lambda>a. pe_page (fst a)) ?prs \<and>
    mem_inv nm P m' ((R + ?TR) + ents_refs (map fst ?prs) + ents_refs (map snd prs')) H (I + pt_pages src) \<and>
    size (ents_refs (map snd prs')) \<le> size (ents_refs (map fst ?prs)) \<and>
    (r = Ok () \<and> list_all2 (copied mode m0 m') ?prs prs' \<or> r = Err E_NO_MEM \<and> oom m')"
  proof (rule copy_ents_ok)
    show "mem_inv nm P m0 ((R + ?TR) + ents_refs (map fst ?prs)) H (I + pt_pages src)"
      using f(2) ld by (simp add: pt_refs_def ac_simps)
    show "size ((R + ?TR) + ents_refs (map fst ?prs)) + size (ents_refs (map fst ?prs)) < 2 ^ 32"
      using sz ld by (simp add: pt_refs_def)
    show "\<forall>pr \<in> set ?prs. pe_page (snd pr) = None" using f(3) by (auto simp: pt_empty_def dest: set_zip_rightD)
  qed
  then obtain r1 prs m1 where c: "copy_ents nm mode (pt_pid d0) ?prs m0 = (r1, prs, m1)" "keeps_data m0 m1"
    "map (\<lambda>a. pe_page (fst a)) prs = map (\<lambda>a. pe_page (fst a)) ?prs"
    "mem_inv nm P m1 ((R + ?TR) + ?D + ents_refs (map snd prs)) H (I + pt_pages src)"
    "size (ents_refs (map snd prs)) \<le> size ?D"
    "r1 = Ok () \<and> list_all2 (copied mode m0 m1) ?prs prs \<or> r1 = Err E_NO_MEM \<and> oom m1"
    unfolding pr by blast
  have lp: "length prs = PAGETREE_DIRECT_ENTRIES"
    using arg_cong [OF c(3), of length] ld wf by (simp add: pt_wf_def)
  have "map pe_page (map fst prs) = map pe_page (map fst ?prs)" using c(3) by (simp add: comp_def)
  then have dr: "ents_refs (map fst prs) = ?D" unfolding pr by (rule ents_refs_cong)
  let ?s1 = "src\<lparr>pt_direct := map fst prs\<rparr>"
  let ?d1 = "d0\<lparr>pt_demand := pt_demand src, pt_direct := map snd prs\<rparr>"
  have s1: "pt_wf ?s1" "pt_refs ?s1 = pt_refs src" "pt_pages ?s1 = pt_pages src"
    using wf lp dr by (auto simp: pt_wf_def pt_refs_def pt_pages_def)
  have d0t: "trees_refs 0 (pt_indir d0) = {#}" "trees_pages 0 (pt_indir d0) = {#}"
    using f(3) trees_none by (auto simp: pt_empty_def)
  have d1: "pt_wf ?d1" "pt_refs ?d1 = ents_refs (map snd prs)" "pt_pages ?d1 = {#}"
    using f(3) lp d0t by (auto simp: pt_empty_def pt_wf_def pt_refs_def pt_pages_def)
  show ?thesis using c(6)
  proof (elim disjE conjE)
    assume o: "r1 = Err E_NO_MEM"
    have "pt_inv nm P m1 ?d1 (R + pt_refs ?s1) H (I + pt_pages ?s1)"
      using d1 s1 c(4) H by (simp add: pt_inv_def pt_refs_def subset_mset.add_increasing2 ac_simps)
    from copy_cleanup_ok [OF this, of E_NO_MEM] obtain d2 m2 where
      "copy_cleanup nm (Err E_NO_MEM) ?s1 ?d1 m1 = (Err E_NO_MEM, ?s1, d2, m2)" "pt_empty d2"
      "mem_inv nm P m2 (R + pt_refs ?s1) H (I + pt_pages ?s1)" by blast
    moreover from this have "pagetree_copy nm mode (src, dst, m) = (Err E_NO_MEM, ?s1, d2, m2)"
      using f(1) c(1) o by (simp add: pagetree_copy_def Let_def)
    ultimately show ?thesis using s1 by (auto simp: pt_empty_def)
  next
    assume o: "r1 = Ok ()" "list_all2 (copied mode m0 m1) ?prs prs"
    let ?ls = "[0..<0 + length (pt_indir src)]"
    have len4: "length (pt_indir src) = PAGETREE_INDIRECT_ENTRIES" using wf by (simp add: pt_wf_def)
    have lsn: "?ls ! i = i" if "i < PAGETREE_INDIRECT_ENTRIES" for i using that len4 by simp
    have "\<exists>r tds m'. copy_many nm mode (pt_pid d0) ?ls (pt_indir src) m1 = (r, tds, m') \<and> keeps_data m1 m' \<and>
      length tds = length (pt_indir src) \<and>
      mem_inv nm P m' ((R + ?D + ents_refs (map snd prs)) + many_refs ?ls (pt_indir src) + many_refs ?ls (map snd tds)) H
        (I + many_pages ?ls (pt_indir src) + many_pages ?ls (map snd tds)) \<and>
      size (many_refs ?ls (map snd tds)) \<le> size (many_refs ?ls (pt_indir src)) \<and>
      (\<forall>i < length (pt_indir src). tree_same (?ls ! i) (pt_indir src ! i) (fst (tds ! i)) \<and> ind_wf (?ls ! i) (snd (tds ! i))) \<and>
      (r = Ok () \<and> (\<forall>i < length (pt_indir src). tree_copied (?ls ! i) mode m1 m' (pt_indir src ! i) (fst (tds ! i)) (snd (tds ! i))) \<or>
       r = Err E_NO_MEM \<and> oom m')"
    proof (rule copy_many_ok)
      show "\<forall>l \<in> set ?ls. copy_spec nm P H mode (pt_pid d0) l" by (simp add: copy_spec_all)
      show "list_all2 ind_wf ?ls (pt_indir src)" using wf by (simp add: list_all2_conv_all_nth pt_wf_def)
      show "mem_inv nm P m1 ((R + ?D + ents_refs (map snd prs)) + many_refs ?ls (pt_indir src)) H (I + many_pages ?ls (pt_indir src))"
        using c(4) unfolding pt_pages_def trees_many by (simp add: ac_simps)
      show "size ((R + ?D + ents_refs (map snd prs)) + many_refs ?ls (pt_indir src)) + size (many_refs ?ls (pt_indir src)) < 2 ^ 32"
        using sz c(5) unfolding pt_refs_def trees_many by simp
    qed
    then obtain r tds m2 where t: "copy_many nm mode (pt_pid d0) ?ls (pt_indir src) m1 = (r, tds, m2)" "keeps_data m1 m2"
      "length tds = length (pt_indir src)"
      "mem_inv nm P m2 ((R + ?D + ents_refs (map snd prs)) + many_refs ?ls (pt_indir src) + many_refs ?ls (map snd tds)) H
        (I + many_pages ?ls (pt_indir src) + many_pages ?ls (map snd tds))"
      "\<forall>i < length (pt_indir src). tree_same (?ls ! i) (pt_indir src ! i) (fst (tds ! i)) \<and> ind_wf (?ls ! i) (snd (tds ! i))"
      "r = Ok () \<and> (\<forall>i < length (pt_indir src). tree_copied (?ls ! i) mode m1 m2 (pt_indir src ! i) (fst (tds ! i)) (snd (tds ! i))) \<or>
       r = Err E_NO_MEM \<and> oom m2" by blast
    let ?s2 = "?s1\<lparr>pt_indir := map fst tds\<rparr>" and ?d2 = "?d1\<lparr>pt_indir := map snd tds\<rparr>"
    have e: "pagetree_copy nm mode (src, dst, m) = copy_cleanup nm r ?s2 ?d2 m2"
      using f(1) c(1) o(1) t(1) by (simp add: pagetree_copy_def Let_def copy_trees_many)
    have refs: "many_refs ?ls (map fst tds) = many_refs ?ls (pt_indir src)"
      "many_pages ?ls (map fst tds) = many_pages ?ls (pt_indir src)"
    proof -
      have "map2 ind_refs ?ls (map fst tds) = map2 ind_refs ?ls (pt_indir src)"
        "map2 ind_pages ?ls (map fst tds) = map2 ind_pages ?ls (pt_indir src)"
        using t(3,5) by (intro nth_equalityI; simp add: tree_same_def)+
      then show "many_refs ?ls (map fst tds) = many_refs ?ls (pt_indir src)"
        "many_pages ?ls (map fst tds) = many_pages ?ls (pt_indir src)" by simp_all
    qed
    have s2: "pt_wf ?s2" "pt_refs ?s2 = pt_refs src" "pt_pages ?s2 = pt_pages src"
      using s1(1) t(3,5) lsn len4 refs dr by (auto simp: pt_wf_def pt_refs_def pt_pages_def trees_many tree_same_def)
    have d2: "pt_wf ?d2" "pt_refs ?d2 = ents_refs (map snd prs) + many_refs ?ls (map snd tds)"
      "pt_pages ?d2 = many_pages ?ls (map snd tds)"
      using d1(1) t(3,5) lsn len4 by (auto simp: pt_wf_def pt_refs_def pt_pages_def trees_many)
    have mi2: "mem_inv nm P m2 (R + pt_refs ?s2 + pt_refs ?d2) H (I + pt_pages ?s2 + pt_pages ?d2)"
      using t(4) unfolding s2 d2 by (simp add: pt_refs_def pt_pages_def trees_many ac_simps)
    show ?thesis using t(6)
    proof (elim disjE conjE)
      assume o2: "r = Err E_NO_MEM"
      have "pt_inv nm P m2 ?d2 (R + pt_refs ?s2) H (I + pt_pages ?s2)"
        using d2(1) mi2 H by (simp add: pt_inv_def subset_mset.add_increasing2)
      from copy_cleanup_ok [OF this, of E_NO_MEM] obtain d3 m3 where
        d3: "copy_cleanup nm (Err E_NO_MEM) ?s2 ?d2 m2 = (Err E_NO_MEM, ?s2, d3, m3)" "pt_empty d3"
        "mem_inv nm P m3 (R + pt_refs ?s2) H (I + pt_pages ?s2)" by blast
      then show ?thesis using e o2 s2 by (intro exI [of _ "Err E_NO_MEM"] exI [of _ ?s2] exI [of _ d3] exI [of _ m3])
          (simp add: pt_empty_def)
    next
      assume o2: "r = Ok ()"
        "\<forall>i < length (pt_indir src). tree_copied (?ls ! i) mode m1 m2 (pt_indir src ! i) (fst (tds ! i)) (snd (tds ! i))"
      have in0: "p \<notin> free_pages m0" if "p \<in># pt_refs src" for p
        using that by (intro mem_inv_in_use [OF f(2)]) simp
      have "copy_result mode m m2 (pt_lookup src n) (pt_lookup ?s2 n) (pt_lookup ?d2 n)" if n: "n < pt_capacity" for n
      proof (rule pt_copied_lookup [OF n])
        fix i
        assume i: "i < PAGETREE_DIRECT_ENTRIES"
        obtain a b where ab: "prs ! i = (a, b)" by (cases "prs ! i")
        have "copied mode m0 m1 (pt_direct src ! i, pt_direct d0 ! i) (a, b)"
          using list_all2_nthD [OF o(2), of i] i ld wf ab by (simp add: pt_wf_def)
        moreover have "b \<in> set (map snd prs)" using ab i lp by (force simp: in_set_conv_nth)
        then have "ent_refs b \<subseteq># ents_refs (map snd prs)" by (rule ents_sub)
        then have "q \<notin> free_pages m1" if "pe_page b = Some q" for q
          using that by (intro mem_inv_in_use [OF c(4)]) (simp add: ent_refs_def)
        ultimately have "copied mode m0 m2 (pt_direct src ! i, pt_direct d0 ! i) (a, b)"
          using copied_mono_right [OF _ t(2)] by blast
        moreover have "pe_page (pt_direct d0 ! i) = None" using f(3) i by (auto simp: pt_empty_def pt_wf_def)
        moreover have "pt_direct src ! i \<in> set (pt_direct src)" using i wf by (simp add: pt_wf_def)
        then have "ent_refs (pt_direct src ! i) \<subseteq># ?D" by (rule ents_sub)
        then have "sp \<notin> free_pages m0" if "pe_page (pt_direct src ! i) = Some sp" for sp
          using that by (intro in0) (simp add: pt_refs_def ent_refs_def)
        ultimately have "copy_result mode m m2 (pt_direct src ! i) a b"
          by (intro copied_result [OF _ _ f(4)]) auto
        then show "copy_result mode m m2 (pt_direct src ! i) (pt_direct ?s2 ! i) (pt_direct ?d2 ! i)"
          using ab i lp by simp
      next
        fix i k
        assume i: "i < PAGETREE_INDIRECT_ENTRIES" and k: "k < n_pages_per_i i"
        have wfi: "ind_wf i (pt_indir src ! i)" using wf i by (simp add: pt_wf_def)
        have "ind_refs i (pt_indir src ! i) \<in> set (map2 ind_refs ?ls (pt_indir src))"
          using i len4 by (force simp: in_set_conv_nth)
        then have sub: "ind_refs i (pt_indir src ! i) \<subseteq># ?TR" unfolding trees_many by (rule elem_sub_sum_list)
        then have use: "sp \<notin> free_pages m0" if "sp \<in># ind_refs i (pt_indir src ! i)" for sp
          using that by (intro in0) (auto simp: pt_refs_def dest: mset_subset_eqD)
        have "tree_copied i mode m1 m2 (pt_indir src ! i) (fst (tds ! i)) (snd (tds ! i))"
          using o2(2) i len4 lsn by simp
        then have "tree_copied i mode m0 m2 (pt_indir src ! i) (fst (tds ! i)) (snd (tds ! i))"
          using c(2) wfi use by (rule tree_copied_left)
        then have "copied mode m0 m2 (ind_lookup i (pt_indir src ! i) k, null_pe)
           (ind_lookup i (fst (tds ! i)) k, ind_lookup i (snd (tds ! i)) k)"
          using k unfolding tree_copied_def by blast
        moreover have "sp \<notin> free_pages m0" if "pe_page (ind_lookup i (pt_indir src ! i) k) = Some sp" for sp
          using ind_lookup_refs [OF wfi k] that use by (simp add: ent_refs_def)
        ultimately have "copy_result mode m m2 (ind_lookup i (pt_indir src ! i) k)
            (ind_lookup i (fst (tds ! i)) k) (ind_lookup i (snd (tds ! i)) k)"
          by (intro copied_result [OF _ _ f(4)]) (auto simp: null_pe_def)
        then show "copy_result mode m m2 (ind_lookup i (pt_indir src ! i) k) (ind_lookup i (pt_indir ?s2 ! i) k)
            (ind_lookup i (pt_indir ?d2 ! i) k)"
          using i len4 t(3) by simp
      qed
      moreover have "pagetree_copy nm mode (src, dst, m) = (Ok (), ?s2, ?d2, m2)"
        unfolding e by (simp add: copy_cleanup_def o2(1))
      ultimately show ?thesis
        using s2 d2(1) mi2
        by (intro exI [of _ "Ok ()"] exI [of _ ?s2] exI [of _ ?d2] exI [of _ m2]) simp
    qed
  qed
qed

subsection \<open>Properties\<close>

text \<open>
  C9: \<open>pagetree_copy\<close> either copies every entry (a page of its own with the same contents for an
  exclusive copy; the same page, with the source made copy-on-write, for a shared one) or, out of
  memory, leaves an empty destination.  In both cases every page is accounted for and the source
  refers to the same pages as before.
\<close>

theorem pagetree_copy_accounts:
  assumes "pt_wf src" and "pt_wf dst" and "H \<subseteq># R"
    and "mem_inv nm P m (R + pt_refs src + pt_refs dst) H (I + pt_pages src + pt_pages dst)"
    and "size (R + pt_refs src) + size (pt_refs src) < 2 ^ 32"
  shows "case pagetree_copy nm mode (src, dst, m) of (r, src', dst', m') \<Rightarrow>
    pt_refs src' = pt_refs src \<and> pt_wf src' \<and> pt_wf dst' \<and>
    mem_inv nm P m' (R + pt_refs src' + pt_refs dst') H (I + pt_pages src' + pt_pages dst') \<and>
    (case r of
       Ok _ \<Rightarrow> (\<forall>n < pt_capacity. copy_result mode m m' (pt_lookup src n) (pt_lookup src' n) (pt_lookup dst' n))
     | Err e \<Rightarrow> e = E_NO_MEM \<and> pt_empty dst'
     | Panic \<Rightarrow> False)"
  using pagetree_copy_ok [OF assms, of mode] by auto

definition one_page_tree :: pagetree where
  "one_page_tree = (pagetree_init False 0)\<lparr>pt_direct := [\<lparr>pe_page = Some 1, pe_mode = page_excl\<rparr>, null_pe, null_pe]\<rparr>"

theorem pagetree_copy_accounts_witness:
  "\<exists>src' dst' m'. pagetree_copy tiny_numa page_shared_cow (one_page_tree, pagetree_init False 0, tiny_mem) =
     (Ok (), src', dst', m') \<and> pe_page (pt_lookup dst' 0) = Some 1 \<and> pe_mode (pt_lookup src' 0) = page_shared_cow"
proof -
  let ?d = "pagetree_init False 0"
  have wf: "pt_wf one_page_tree" "pt_wf ?d"
    by (auto simp: one_page_tree_def pagetree_init_def pt_wf_def pagetree_layout)
  have rd: "pt_refs ?d = {#}" "pt_pages ?d = {#}" by (simp_all add: pagetree_init_empty)
  have "trees_refs 0 (pt_indir ?d) = {#}" "trees_pages 0 (pt_indir ?d) = {#}"
    using trees_none [of "pt_indir ?d" 0] by (simp_all add: pagetree_init_def)
  then have rs: "pt_refs one_page_tree = {#1#}" "pt_pages one_page_tree = {#}"
    by (simp_all add: one_page_tree_def pt_refs_def pt_pages_def ent_refs_def null_pe_def)
  note rf = rd rs
  have l: "pt_lookup one_page_tree 0 = \<lparr>pe_page = Some 1, pe_mode = page_excl\<rparr>"
    by (simp add: pt_lookup_def one_page_tree_def pagetree_layout)
  have mi: "mem_inv tiny_numa {1, 2} tiny_mem ({#} + pt_refs one_page_tree + pt_refs ?d) {#}
      ({#} + pt_pages one_page_tree + pt_pages ?d)"
    using tiny_mem_inv by (simp add: rf)
  have "fst (pagetree_copy tiny_numa page_shared_cow (one_page_tree, ?d, tiny_mem)) = Ok ()"
    by (simp add: pagetree_copy_def pagetree_free_def one_page_tree_def pagetree_init_def pagetree_layout
        null_pe_def pagetree_copy_ent_def copy_cleanup_def numeral_eq_Suc Let_def)
  moreover have "0 < pt_capacity" by (simp add: pt_capacity_def)
  ultimately show ?thesis
    using pagetree_copy_accounts [OF wf _ mi, of page_shared_cow] rf l
    by (auto simp: copy_result_def split: prod.splits)
qed

end
