(* ===== verification/Darray.thy ===== *)
theory Darray
  imports Pagetree_Copy
begin

text \<open>
  Growable arrays on page trees (\<^verbatim>\<open>kern/kern/darray.c\<close>), the storage of segments.  The array's
  reader-writer lock makes each operation atomic.
\<close>

subsection \<open>Operations\<close>

record darray =
  da_pt :: pagetree
  da_pid :: nat
  da_pp :: u64
  da_esz :: u64
  da_nent :: u64
  da_demand :: bool

definition darray_init :: "u64 \<Rightarrow> bool \<Rightarrow> nat \<Rightarrow> darray result" where
  "darray_init ent_size on_demand pid =
     (if \<not> ent_size \<le> PGSIZE then Panic
      else Ok \<lparr>da_pt = pagetree_init on_demand pid, da_pid = pid, da_pp = PGSIZE div ent_size,
               da_esz = ent_size, da_nent = 0, da_demand = on_demand\<rparr>)"

definition darray_free :: "numa \<Rightarrow> darray \<times> physmem \<Rightarrow> unit result \<times> darray \<times> physmem" where
  "darray_free nm s =
     (let (a, m) = s; (r, pt, m) = pagetree_free nm (da_pt a, m) in (r, a\<lparr>da_pt := pt\<rparr>, m))"

text \<open>A pointer into the array: the page, which may be null, and the offset in it.\<close>

definition darray_get ::
  "numa \<Rightarrow> u64 \<Rightarrow> page_sharing_mode \<Rightarrow> darray \<times> physmem \<Rightarrow> (page option \<times> u64) result \<times> darray \<times> physmem"
where
  "darray_get nm i mode s =
     (let (a, m) = s in
      if da_nent a \<le> i then (Err E_INVAL, a, m)
      else
        (let npage = i div da_pp a; pagei = (i mod da_pp a) * da_esz a;
             (r, pt, m) = pagetree_get_page nm (unat npage) mode (da_pt a, m)
         in bind_r (r, a\<lparr>da_pt := pt\<rparr>, m) (\<lambda>b s. (Ok (b, pagei), s))))"

text \<open>Dropping \<open>k\<close> pages from number \<open>i\<close> on; a failure stops the kernel.\<close>

fun drop_pages :: "numa \<Rightarrow> nat \<Rightarrow> nat \<Rightarrow> pagetree \<times> physmem \<Rightarrow> unit result \<times> pagetree \<times> physmem" where
  "drop_pages nm i 0 s = (Ok (), s)"
| "drop_pages nm i (Suc k) s =
     (case pagetree_put_page nm i None s of
        (Ok _, s) \<Rightarrow> drop_pages nm (Suc i) k s
      | (_, s) \<Rightarrow> (Panic, s))"

text \<open>
  Allocating \<open>k\<close> pages from number \<open>i\<close> on.  After a failure the pages allocated so far, which start
  at \<open>cur\<close>, are dropped again.
\<close>

fun alloc_pages ::
  "numa \<Rightarrow> bool \<Rightarrow> nat \<Rightarrow> nat \<Rightarrow> nat \<Rightarrow> nat \<Rightarrow> pagetree \<times> physmem \<Rightarrow> unit result \<times> pagetree \<times> physmem"
where
  "alloc_pages nm clear pid cur i 0 s = (Ok (), s)"
| "alloc_pages nm clear pid cur i (Suc k) s =
     (let (pt, m) = s;
          (r, p, pt, m) =
            (case page_alloc nm pid m of
               (Ok p, m) \<Rightarrow>
                 (case pagetree_put_page nm i (Some p) (pt, m) of
                    (Err e, pt, m) \<Rightarrow>
                      (case page_free nm p 0 m of (Ok _, m) \<Rightarrow> (Err e, p, pt, m) | (_, m) \<Rightarrow> (Panic, p, pt, m))
                  | (r, pt, m) \<Rightarrow> (r, p, pt, m))
             | (Err e, m) \<Rightarrow> (Err e, 0, pt, m)
             | (Panic, m) \<Rightarrow> (Panic, 0, pt, m))
      in case r of
           Ok _ \<Rightarrow>
             alloc_pages nm clear pid cur (Suc i) k
               (pt, if clear then set_pageinfo p (\<lambda>i. i\<lparr>pi_clear := True\<rparr>) (page_zero p m) else m)
         | Err e \<Rightarrow> (case drop_pages nm cur (i - cur) (pt, m) of (Ok _, s) \<Rightarrow> (Err e, s) | (_, s) \<Rightarrow> (Panic, s))
         | Panic \<Rightarrow> (Panic, pt, m))"

definition darray_npages :: "darray \<Rightarrow> u64 \<Rightarrow> nat" where
  "darray_npages a n = unat (ROUNDUP n (da_pp a) div da_pp a)"

definition darray_set_nent_internal ::
  "numa \<Rightarrow> u64 \<Rightarrow> bool \<Rightarrow> darray \<times> physmem \<Rightarrow> unit result \<times> darray \<times> physmem"
where
  "darray_set_nent_internal nm n clear s =
     (let (a, m) = s;
          curnpg = darray_npages a (da_nent a);
          npg = darray_npages a n;
          (r, pt, m) = drop_pages nm npg (curnpg - npg) (da_pt a, m)
      in bind_r (r, a\<lparr>da_pt := pt\<rparr>, m) (\<lambda>_ (a, m).
           let (r, pt, m) = (if da_demand a then (Ok (), da_pt a, m)
                             else alloc_pages nm clear (da_pid a) curnpg curnpg (npg - curnpg) (da_pt a, m))
           in bind_r (r, a\<lparr>da_pt := pt\<rparr>, m) (\<lambda>_ (a, m). (Ok (), a\<lparr>da_nent := n\<rparr>, m))))"

definition darray_set_nent ::
  "numa \<Rightarrow> u64 \<Rightarrow> bool \<Rightarrow> darray \<times> physmem \<Rightarrow> unit result \<times> darray \<times> physmem"
where
  "darray_set_nent nm n clear s = darray_set_nent_internal nm n clear s"

definition darray_grow_nent :: "numa \<Rightarrow> u64 \<Rightarrow> darray \<times> physmem \<Rightarrow> unit result \<times> darray \<times> physmem" where
  "darray_grow_nent nm n s =
     (if n \<le> da_nent (fst s) then (Ok (), s) else darray_set_nent_internal nm n True s)"

definition darray_get_nent :: "darray \<Rightarrow> u64" where
  "darray_get_nent a = da_nent a"

definition darray_copy ::
  "numa \<Rightarrow> page_sharing_mode \<Rightarrow> darray \<times> darray \<times> physmem \<Rightarrow> unit result \<times> darray \<times> darray \<times> physmem"
where
  "darray_copy nm mode s =
     (let (src, dst, m) = s in
      if da_nent dst \<noteq> 0 \<or> da_nent src = 0 then (Err E_INVAL, s)
      else
        (let (r, spt, dpt, m) = pagetree_copy nm mode (da_pt src, da_pt dst, m) in
         bind_r (r, src\<lparr>da_pt := spt\<rparr>, dst\<lparr>da_pt := dpt\<rparr>, m) (\<lambda>_ (src, dst, m).
           (Ok (), src, dst\<lparr>da_nent := da_nent src\<rparr>, m))))"

subsection \<open>Entries that are present need no memory\<close>

lemma lookup_has: "pe_page (ind_lookup l t n) \<noteq> None \<Longrightarrow> ind_has l t n"
proof (induction l arbitrary: t n)
  case 0
  then show ?case by (auto simp: null_pe_def split: option.splits pagetree_indirect.splits)
next
  case (Suc l)
  then show ?case by (auto simp: null_pe_def split: option.splits pagetree_indirect.splits)
qed

lemma get_entp_indirect_present:
  "ind_wf l t \<Longrightarrow> n < n_pages_per_i l \<Longrightarrow> l \<le> 3 \<Longrightarrow> ind_has l t n \<Longrightarrow>
   pagetree_get_entp_indirect nm l n pid (t, m) = (Ok (ind_path l n), t, m)"
proof (induction l arbitrary: t n)
  case 0
  then show ?case by (auto simp: ensure_indirect_def n_pages_per_i_def split: option.splits)
next
  case (Suc l)
  then obtain p ks where t: "t = Some (Pi_indir p ks)" by (auto split: option.splits pagetree_indirect.splits)
  have s: "n div n_pages_per_i l < length ks" using Suc.prems t slot_less by auto
  then have "pagetree_get_entp_indirect nm l (n mod n_pages_per_i l) pid (ks ! (n div n_pages_per_i l), m) =
      (Ok (ind_path l (n mod n_pages_per_i l)), ks ! (n div n_pages_per_i l), m)"
    using Suc.prems t by (intro Suc.IH) auto
  then show ?case
    using slot_small [OF Suc.prems(2)] Suc.prems(3) s by (simp add: t ensure_indirect_def Let_def)
qed

lemma lookup_capacity: "pe_page (pt_lookup pt n) \<noteq> None \<Longrightarrow> n < pt_capacity"
proof (rule ccontr)
  assume a: "pe_page (pt_lookup pt n) \<noteq> None" "\<not> n < pt_capacity"
  then have "PAGETREE_DIRECT_ENTRIES \<le> n" by (simp add: pagetree_layout pt_capacity_def)
  with a locate_capacity [of n] show False by (auto simp: pt_lookup_def null_pe_def)
qed

lemma get_entp_present:
  assumes wf: "pt_wf pt" and pr: "pe_page (pt_lookup pt n) \<noteq> None"
  obtains ep where "pagetree_get_entp nm n (pt, m) = (Ok ep, pt, m)" "entp_ok pt ep n"
proof (cases "n < PAGETREE_DIRECT_ENTRIES")
  case True
  then show thesis using that [of "EDirect n"] by (simp add: pagetree_get_entp_def entp_ok_def)
next
  case False
  then obtain j n' where ik: "locate 0 PAGETREE_INDIRECT_ENTRIES (n - PAGETREE_DIRECT_ENTRIES) = Some (j, n')"
    using locate_capacity [of n] lookup_capacity [OF pr] by fastforce
  with locate_bounds [OF ik] wf have j: "j < length (pt_indir pt)" "n' < n_pages_per_i j" "ind_wf j (pt_indir pt ! j)" "j \<le> 3"
    by (auto simp: pt_wf_def pagetree_layout)
  have has: "ind_has j (pt_indir pt ! j) n'" using pr ik False by (intro lookup_has) (simp add: pt_lookup_def)
  have "pagetree_get_entp nm n (pt, m) = (Ok (EIndir j (ind_path j n')), pt, m)"
    using False get_entp_loop_alt [of nm 0 PAGETREE_INDIRECT_ENTRIES "n - PAGETREE_DIRECT_ENTRIES" pt m] ik
      get_entp_indirect_present [OF j(3,2,4) has, of nm "pt_pid pt" m]
    by (simp add: pagetree_get_entp_def n_pages_per_i_def)
  then show thesis using that False ik has by (simp add: entp_ok_def)
qed

lemma put_present_ok:
  assumes inv: "pt_inv nm P m pt R H I" and pr: "pe_page (pt_lookup pt n) \<noteq> None"
  obtains pt' m' where "pagetree_put_page nm n None (pt, m) = (Ok (), pt', m')" "pt_inv nm P m' pt' R H I"
    "pt_lookup pt' = (pt_lookup pt)(n := \<lparr>pe_page = None, pe_mode = page_excl\<rparr>)" "keeps_words m m'"
proof -
  have wf: "pt_wf pt" using inv by (simp add: pt_inv_def)
  obtain ep where ep: "pagetree_get_entp nm n (pt, m) = (Ok ep, pt, m)"
    using get_entp_present [OF wf pr] by blast
  have "put_source None R I I" by (simp add: put_source_def)
  from put_page_ok [OF inv this, of n] obtain r pt' m' where
    r: "pagetree_put_page nm n None (pt, m) = (r, pt', m')" "keeps_words m m'" "pt_inv nm P m' pt' R H I"
    and out: "r = Ok () \<and> pt_lookup pt' = (pt_lookup pt)(n := \<lparr>pe_page = None, pe_mode = page_excl\<rparr>) \<or>
      (\<exists>e. r = Err e)" by blast
  have "r \<noteq> Err e" for e
    using r(1) ep by (auto simp: pagetree_put_page_def pagetree_decref_def page_free_def Let_def
        split: option.splits prod.splits result.splits if_splits)
  with out r that show thesis by blast
qed

subsection \<open>Resizing\<close>

abbreviation no_page :: pagetree_entry where
  "no_page \<equiv> \<lparr>pe_page = None, pe_mode = page_excl\<rparr>"

lemma drop_pages_ok:
  assumes "pt_inv nm P m pt R H I" "\<forall>j. i \<le> j \<and> j < i + k \<longrightarrow> pe_page (pt_lookup pt j) \<noteq> None"
  shows "\<exists>pt' m'. drop_pages nm i k (pt, m) = (Ok (), pt', m') \<and> pt_inv nm P m' pt' R H I \<and>
    pt_lookup pt' = (\<lambda>j. if i \<le> j \<and> j < i + k then no_page else pt_lookup pt j)"
  using assms
proof (induction k arbitrary: i pt m)
  case (Suc k)
  have "pe_page (pt_lookup pt i) \<noteq> None" using Suc.prems(2) by simp
  then obtain pt1 m1 where p: "pagetree_put_page nm i None (pt, m) = (Ok (), pt1, m1)" "pt_inv nm P m1 pt1 R H I"
    "pt_lookup pt1 = (pt_lookup pt)(i := no_page)" by (rule put_present_ok [OF Suc.prems(1)])
  have "\<exists>pt' m'. drop_pages nm (Suc i) k (pt1, m1) = (Ok (), pt', m') \<and> pt_inv nm P m' pt' R H I \<and>
    pt_lookup pt' = (\<lambda>j. if Suc i \<le> j \<and> j < Suc i + k then no_page else pt_lookup pt1 j)"
    using Suc.prems(2) by (intro Suc.IH p(2)) (auto simp: p(3))
  then obtain pt' m' where "drop_pages nm (Suc i) k (pt1, m1) = (Ok (), pt', m')" "pt_inv nm P m' pt' R H I"
    "pt_lookup pt' = (\<lambda>j. if Suc i \<le> j \<and> j < Suc i + k then no_page else pt_lookup pt1 j)" by blast
  then show ?case using p by (auto simp: fun_eq_iff)
qed (auto simp: fun_eq_iff)

text \<open>What allocating one page for slot \<open>i\<close> does, whichever of its two steps fails.\<close>

lemma alloc_one_ok:
  assumes inv: "pt_inv nm P m pt R H I" and ab: "pe_page (pt_lookup pt i) = None"
    and sz: "size (R + pt_refs pt) + 1 < 2 ^ 32"
  obtains p pt' m1 m' where "page_alloc nm pid m = (Ok p, m1)" "pagetree_put_page nm i (Some p) (pt, m1) = (Ok (), pt', m')"
      "pt_inv nm P m' pt' R H I" "pt_lookup pt' = (pt_lookup pt)(i := \<lparr>pe_page = Some p, pe_mode = page_excl\<rparr>)"
      "size (pt_refs pt') = size (pt_refs pt) + 1"
  | p pt' m1 m2 m' e where "page_alloc nm pid m = (Ok p, m1)" "pagetree_put_page nm i (Some p) (pt, m1) = (Err e, pt', m2)"
      "page_free nm p 0 m2 = (Ok (), m')" "pt_inv nm P m' pt' R H I" "pt_lookup pt' = pt_lookup pt"
      "e = E_NO_MEM \<or> e = E_NO_SPACE"
  | m' where "page_alloc nm pid m = (Err E_NO_MEM, m')" "pt_inv nm P m' pt R H I"
proof -
  have mi: "mem_inv nm P m (R + pt_refs pt) H (I + pt_pages pt)" and wf: "pt_wf pt" "H \<subseteq># R"
    using inv by (auto simp: pt_inv_def)
  show thesis
  proof (rule page_alloc_ok [OF mi, of pid])
    fix p m1
    assume a: "page_alloc nm pid m = (Ok p, m1)" "mem_inv nm P m1 (R + pt_refs pt) H (add_mset p (I + pt_pages pt))"
    then have i1: "pt_inv nm P m1 pt R H (add_mset p I)" using wf by (simp add: pt_inv_def)
    have "put_source (Some p) R (add_mset p I) I" by (simp add: put_source_def)
    from put_page_ok [OF i1 this, of i] sz obtain r pt' m2 where
      r: "pagetree_put_page nm i (Some p) (pt, m1) = (r, pt', m2)"
      and out: "r = Ok () \<and> pt_inv nm P m2 pt' R H I \<and>
         pt_lookup pt' = (pt_lookup pt)(i := \<lparr>pe_page = Some p, pe_mode = page_excl\<rparr>) \<and>
         pt_refs pt' + ent_refs (pt_lookup pt i) = pt_refs pt + ent_refs \<lparr>pe_page = Some p, pe_mode = page_excl\<rparr> \<or>
       (r = Err E_NO_SPACE \<or> r = Err E_NO_MEM) \<and> pt_inv nm P m2 pt' R H (add_mset p I) \<and> pt_lookup pt' = pt_lookup pt"
      by (auto simp del: One_nat_def)
    show thesis using out
    proof (elim disjE [of "r = Ok () \<and> _"] conjE)
      assume o: "r = Ok ()" "pt_inv nm P m2 pt' R H I"
        "pt_lookup pt' = (pt_lookup pt)(i := \<lparr>pe_page = Some p, pe_mode = page_excl\<rparr>)"
        "pt_refs pt' + ent_refs (pt_lookup pt i) = pt_refs pt + ent_refs \<lparr>pe_page = Some p, pe_mode = page_excl\<rparr>"
      have "size (pt_refs pt') = size (pt_refs pt) + 1" using o(4) ab by (simp add: ent_refs_def)
      with a(1) r o show thesis by (intro that(1)) auto
    next
      assume o: "r = Err E_NO_SPACE \<or> r = Err E_NO_MEM" "pt_inv nm P m2 pt' R H (add_mset p I)" "pt_lookup pt' = pt_lookup pt"
      then have "mem_inv nm P m2 (R + pt_refs pt') H (add_mset p (I + pt_pages pt'))" by (simp add: pt_inv_def)
      then obtain m3 where "page_free nm p 0 m2 = (Ok (), m3)" "mem_inv nm P m3 (R + pt_refs pt') H (I + pt_pages pt')"
        by (rule page_free_ok)
      with a(1) r o show thesis by (elim disjE) (auto simp: pt_inv_def intro: that(2))
    qed
  next
    assume "page_alloc nm pid m = (Err E_NO_MEM, m\<lparr>page_failures := page_failures m + 1\<rparr>)"
    with inv that(3) show thesis by (simp add: pt_inv_def)
  qed
qed

lemma pt_inv_clear [simp]:
  "pt_inv nm P (set_pageinfo p (\<lambda>i. i\<lparr>pi_clear := c\<rparr>) m) pt R H I = pt_inv nm P m pt R H I"
  "pt_inv nm P (page_zero p m) pt R H I = pt_inv nm P m pt R H I"
  by (simp_all add: pt_inv_def)

lemma alloc_pages_ok:
  assumes "pt_inv nm P m pt R H I" "cur \<le> i"
    and "\<forall>j. cur \<le> j \<and> j < i \<longrightarrow> pe_page (pt_lookup pt j) \<noteq> None"
    and "\<forall>j. i \<le> j \<and> j < i + k \<longrightarrow> pe_page (pt_lookup pt j) = None"
    and "size (R + pt_refs pt) + k < 2 ^ 32"
  shows "\<exists>r pt' m'. alloc_pages nm clear pid cur i k (pt, m) = (r, pt', m') \<and> pt_inv nm P m' pt' R H I \<and>
    (\<forall>j. j < cur \<or> i + k \<le> j \<longrightarrow> pt_lookup pt' j = pt_lookup pt j) \<and>
    (r = Ok () \<and> (\<forall>j. cur \<le> j \<and> j < i + k \<longrightarrow> pe_page (pt_lookup pt' j) \<noteq> None) \<or>
     (r = Err E_NO_MEM \<or> r = Err E_NO_SPACE) \<and> (\<forall>j. cur \<le> j \<and> j < i + k \<longrightarrow> pe_page (pt_lookup pt' j) = None))"
  using assms
proof (induction k arbitrary: i pt m)
  case 0
  then show ?case by simp
next
  case (Suc k)
  have undo: "\<exists>pt' m'. drop_pages nm cur (i - cur) (pt1, m1) = (Ok (), pt', m') \<and> pt_inv nm P m' pt' R H I \<and>
      (\<forall>j. j < cur \<or> i + Suc k \<le> j \<longrightarrow> pt_lookup pt' j = pt_lookup pt j) \<and>
      (\<forall>j. cur \<le> j \<and> j < i + Suc k \<longrightarrow> pe_page (pt_lookup pt' j) = None)"
    if "pt_inv nm P m1 pt1 R H I" "pt_lookup pt1 = pt_lookup pt" for pt1 m1
  proof -
    have "\<forall>j. cur \<le> j \<and> j < cur + (i - cur) \<longrightarrow> pe_page (pt_lookup pt1 j) \<noteq> None"
      using Suc.prems(2,3) that(2) by simp
    from drop_pages_ok [OF that(1) this] obtain pt2 m2 where
      "drop_pages nm cur (i - cur) (pt1, m1) = (Ok (), pt2, m2)" "pt_inv nm P m2 pt2 R H I"
      "pt_lookup pt2 = (\<lambda>j. if cur \<le> j \<and> j < cur + (i - cur) then no_page else pt_lookup pt1 j)" by blast
    with Suc.prems(2,4) that(2) show ?thesis by (intro exI [of _ pt2] exI [of _ m2]) auto
  qed
  have ab: "pe_page (pt_lookup pt i) = None" using Suc.prems(4) by simp
  have sz: "size (R + pt_refs pt) + 1 < 2 ^ 32" using Suc.prems(5) by simp
  show ?case
  proof (rule alloc_one_ok [OF Suc.prems(1) ab sz, of pid])
    fix p pt1 m0 m1
    assume a: "page_alloc nm pid m = (Ok p, m0)" "pagetree_put_page nm i (Some p) (pt, m0) = (Ok (), pt1, m1)"
      "pt_inv nm P m1 pt1 R H I" "pt_lookup pt1 = (pt_lookup pt)(i := \<lparr>pe_page = Some p, pe_mode = page_excl\<rparr>)"
      "size (pt_refs pt1) = size (pt_refs pt) + 1"
    let ?m = "if clear then set_pageinfo p (\<lambda>i. i\<lparr>pi_clear := True\<rparr>) (page_zero p m1) else m1"
    have "\<exists>r pt' m'. alloc_pages nm clear pid cur (Suc i) k (pt1, ?m) = (r, pt', m') \<and> pt_inv nm P m' pt' R H I \<and>
      (\<forall>j. j < cur \<or> Suc i + k \<le> j \<longrightarrow> pt_lookup pt' j = pt_lookup pt1 j) \<and>
      (r = Ok () \<and> (\<forall>j. cur \<le> j \<and> j < Suc i + k \<longrightarrow> pe_page (pt_lookup pt' j) \<noteq> None) \<or>
       (r = Err E_NO_MEM \<or> r = Err E_NO_SPACE) \<and> (\<forall>j. cur \<le> j \<and> j < Suc i + k \<longrightarrow> pe_page (pt_lookup pt' j) = None))"
      using Suc.prems a(3,4,5) by (intro Suc.IH) (auto simp: less_Suc_eq)
    then obtain r pt' m' where "alloc_pages nm clear pid cur (Suc i) k (pt1, ?m) = (r, pt', m')" "pt_inv nm P m' pt' R H I"
      "\<forall>j. j < cur \<or> Suc i + k \<le> j \<longrightarrow> pt_lookup pt' j = pt_lookup pt1 j"
      "r = Ok () \<and> (\<forall>j. cur \<le> j \<and> j < Suc i + k \<longrightarrow> pe_page (pt_lookup pt' j) \<noteq> None) \<or>
       (r = Err E_NO_MEM \<or> r = Err E_NO_SPACE) \<and> (\<forall>j. cur \<le> j \<and> j < Suc i + k \<longrightarrow> pe_page (pt_lookup pt' j) = None)"
      by blast
    with a Suc.prems(2) show ?thesis by (intro exI [of _ r] exI [of _ pt'] exI [of _ m']) (simp add: Let_def)
  next
    fix p pt1 m0 m2 m1 e
    assume a: "page_alloc nm pid m = (Ok p, m0)" "pagetree_put_page nm i (Some p) (pt, m0) = (Err e, pt1, m2)"
      "page_free nm p 0 m2 = (Ok (), m1)" "pt_inv nm P m1 pt1 R H I" "pt_lookup pt1 = pt_lookup pt"
      "e = E_NO_MEM \<or> e = E_NO_SPACE"
    from undo [OF a(4,5)] obtain pt' m' where "drop_pages nm cur (i - cur) (pt1, m1) = (Ok (), pt', m')"
      "pt_inv nm P m' pt' R H I" "\<forall>j. j < cur \<or> i + Suc k \<le> j \<longrightarrow> pt_lookup pt' j = pt_lookup pt j"
      "\<forall>j. cur \<le> j \<and> j < i + Suc k \<longrightarrow> pe_page (pt_lookup pt' j) = None" by blast
    with a show ?thesis by (intro exI [of _ "Err e"] exI [of _ pt'] exI [of _ m']) (auto simp: Let_def)
  next
    fix m1
    assume a: "page_alloc nm pid m = (Err E_NO_MEM, m1)" "pt_inv nm P m1 pt R H I"
    from undo [OF a(2) refl] obtain pt' m' where "drop_pages nm cur (i - cur) (pt, m1) = (Ok (), pt', m')"
      "pt_inv nm P m' pt' R H I" "\<forall>j. j < cur \<or> i + Suc k \<le> j \<longrightarrow> pt_lookup pt' j = pt_lookup pt j"
      "\<forall>j. cur \<le> j \<and> j < i + Suc k \<longrightarrow> pe_page (pt_lookup pt' j) = None" by blast
    with a show ?thesis by (intro exI [of _ "Err E_NO_MEM"] exI [of _ pt'] exI [of _ m']) (auto simp: Let_def)
  qed
qed

text \<open>
  An array that is allocated in advance has a page for every slot its entries need and no other.
\<close>

definition darray_inv ::
  "numa \<Rightarrow> page set \<Rightarrow> physmem \<Rightarrow> darray \<Rightarrow> page multiset \<Rightarrow> page multiset \<Rightarrow> page multiset \<Rightarrow> bool"
where
  "darray_inv nm P m a R H I =
     (pt_inv nm P m (da_pt a) R H I \<and>
      (\<forall>j. pe_page (pt_lookup (da_pt a) j) \<noteq> None \<longleftrightarrow> j < darray_npages a (da_nent a)))"

lemma darray_npages_upd [simp]:
  "darray_npages (a\<lparr>da_pt := pt\<rparr>) n = darray_npages a n" "darray_npages (a\<lparr>da_nent := k\<rparr>) n = darray_npages a n"
  by (simp_all add: darray_npages_def)

lemma darray_npages_one: "da_pp a = 1 \<Longrightarrow> darray_npages a n = unat n"
  by (simp add: darray_npages_def ROUNDUP_def ROUNDDOWN_def)

subsection \<open>Properties\<close>


definition tiny_darray :: darray where
  "tiny_darray = \<lparr>da_pt = pagetree_init False 0, da_pid = 0, da_pp = 1, da_esz = PGSIZE, da_nent = 0, da_demand = False\<rparr>"


text \<open>
  Growing an on-demand array takes no memory, so nothing bounds its size; shrinking it writes
  every dropped entry of the page tree and panics at the first number past the tree's capacity.
  An array set one entry larger than the tree can hold stops the kernel when it is made one
  entry smaller.
\<close>

theorem darray_shrink_panics:
  "case darray_set_nent nm (of_nat (pt_capacity + 1)) False
      (\<lparr>da_pt = pagetree_init True 0, da_pid = 0, da_pp = 1, da_esz = PGSIZE, da_nent = 0, da_demand = True\<rparr>, m) of
     (r, a, m') \<Rightarrow> r = Ok () \<and> fst (darray_set_nent nm (of_nat pt_capacity) False (a, m')) = Panic"
proof -
  let ?a = "\<lparr>da_pt = pagetree_init True 0, da_pid = 0, da_pp = 1, da_esz = PGSIZE, da_nent = 0, da_demand = True\<rparr>"
  have u: "unat (of_nat pt_capacity :: u64) = pt_capacity" "unat (of_nat (pt_capacity + 1) :: u64) = pt_capacity + 1"
    by (simp_all add: pt_capacity_def)
  have d3: "PAGETREE_DIRECT_ENTRIES \<le> pt_capacity" by (simp add: pagetree_layout pt_capacity_def)
  then have "pagetree_get_entp nm pt_capacity (pagetree_init True 0, m) = (Err E_NO_SPACE, pagetree_init True 0, m)"
    using locate_capacity [of pt_capacity]
      get_entp_loop_alt [of nm 0 PAGETREE_INDIRECT_ENTRIES "pt_capacity - PAGETREE_DIRECT_ENTRIES" "pagetree_init True 0" m]
    by (simp add: pagetree_get_entp_def n_pages_per_i_def)
  then have dp: "fst (drop_pages nm pt_capacity 1 (pagetree_init True 0, m)) = Panic"
    by (simp add: pagetree_put_page_def)
  have "darray_set_nent nm (of_nat (pt_capacity + 1)) False (?a, m) =
      (Ok (), ?a\<lparr>da_nent := of_nat (pt_capacity + 1)\<rparr>, m)"
    using u by (simp add: darray_set_nent_def darray_set_nent_internal_def darray_npages_one Let_def)
  moreover have "fst (darray_set_nent nm (of_nat pt_capacity) False (?a\<lparr>da_nent := of_nat (pt_capacity + 1)\<rparr>, m)) = Panic"
    using u dp by (cases "drop_pages nm pt_capacity 1 (pagetree_init True 0, m)")
      (simp add: darray_set_nent_def darray_set_nent_internal_def darray_npages_one Let_def del: of_nat_add of_nat_Suc)
  ultimately show ?thesis by simp
qed

end
