(* ===== verification/Kmap.thy ===== *)
theory Kmap
  imports Hashtable Darray
begin

text \<open>
  The kernel's maps from identifiers to pointers (\<^verbatim>\<open>kern/kern/map.c\<close>): a hash table whose slots live
  in the pages of a page tree, rebuilt with twice the pages when it is 70 percent full.
\<close>

subsection \<open>Slots in pages\<close>

text \<open>A page holds 256 slots of two words each.\<close>

definition N_HASHENTRY_PER_PAGE :: nat where
  "N_HASHENTRY_PER_PAGE = 256"

definition get_hash_ent ::
  "numa \<Rightarrow> pagetree \<times> physmem \<Rightarrow> nat \<Rightarrow> (page \<times> nat) result \<times> pagetree \<times> physmem"
where
  "get_hash_ent nm arg idx =
     (let npage = idx div N_HASHENTRY_PER_PAGE; pagei = idx mod N_HASHENTRY_PER_PAGE in
      case pagetree_get_page nm npage page_excl arg of
        (Ok (Some p), s) \<Rightarrow> (Ok (p, pagei), s)
      | (_, s) \<Rightarrow> (Panic, s))"

text \<open>
  Reading and writing the slot the pointer leads to.  When \<open>get_hash_ent\<close> panics there is no
  pointer; the maps below never get there.
\<close>

definition map_ops :: "numa \<Rightarrow> (pagetree \<times> physmem) ent_ops" where
  "map_ops nm =
     \<lparr>ent_get = (\<lambda>arg idx.
        case get_hash_ent nm arg idx of
          (Ok (p, i), pt, m) \<Rightarrow> \<lparr>he_key = page_words m p ! (2 * i), he_val = page_words m p ! (2 * i + 1)\<rparr>
        | _ \<Rightarrow> null_entry),
      ent_set = (\<lambda>arg idx e.
        case get_hash_ent nm arg idx of
          (Ok (p, i), pt, m) \<Rightarrow>
            (pt, m\<lparr>page_words := (page_words m)(p := (page_words m p)[2 * i := he_key e, 2 * i + 1 := he_val e])\<rparr>)
        | _ \<Rightarrow> arg)\<rparr>"

definition tree_page :: "pagetree \<Rightarrow> nat \<Rightarrow> page option" where
  "tree_page pt j = pe_page (pt_lookup pt j)"

definition slots_ok :: "pagetree \<Rightarrow> (page \<Rightarrow> u64 list) \<Rightarrow> nat \<Rightarrow> bool" where
  "slots_ok pt words k =
     (pt_wf pt \<and>
      (\<forall>j < k. \<exists>p. pt_lookup pt j = \<lparr>pe_page = Some p, pe_mode = page_excl\<rparr> \<and> length (words p) = 512) \<and>
      (\<forall>i < k. \<forall>j < k. tree_page pt i = tree_page pt j \<longrightarrow> i = j))"

definition kmap_wf :: "pagetree \<times> physmem \<Rightarrow> nat \<Rightarrow> bool" where
  "kmap_wf b n = (\<exists>k. n \<le> N_HASHENTRY_PER_PAGE * k \<and> slots_ok (fst b) (page_words (snd b)) k)"

lemma get_hash_ent_ok:
  assumes "slots_ok pt (page_words m) k" "idx < N_HASHENTRY_PER_PAGE * k"
  obtains p where "get_hash_ent nm (pt, m) idx = (Ok (p, idx mod N_HASHENTRY_PER_PAGE), pt, m)"
    "tree_page pt (idx div N_HASHENTRY_PER_PAGE) = Some p" "length (page_words m p) = 512"
proof -
  let ?j = "idx div N_HASHENTRY_PER_PAGE"
  have "?j < k" using assms(2) by (simp add: less_mult_imp_div_less mult.commute)
  then obtain p where p: "pt_lookup pt ?j = \<lparr>pe_page = Some p, pe_mode = page_excl\<rparr>" "length (page_words m p) = 512"
    using assms(1) by (auto simp: slots_ok_def)
  then have pr: "pe_page (pt_lookup pt ?j) \<noteq> None" by simp
  have wf: "pt_wf pt" using assms(1) by (simp add: slots_ok_def)
  obtain ep where ep: "pagetree_get_entp nm ?j (pt, m) = (Ok ep, pt, m)" "entp_ok pt ep ?j"
    using get_entp_present [OF wf pr] by blast
  have "pagetree_get_page nm ?j page_excl (pt, m) = (Ok (Some p), pt, m)"
    using ep p(1) read_ent_ok [OF ep(2)] by (simp add: pagetree_get_page_def Let_def)
  then show thesis using p that by (simp add: get_hash_ent_def tree_page_def)
qed

lemma slots_ok_write:
  "slots_ok pt words k \<Longrightarrow> length ws = length (words p) \<Longrightarrow> slots_ok pt (words(p := ws)) k"
  by (fastforce simp: slots_ok_def)

interpretation kmap: entry_store "map_ops nm" kmap_wf for nm
proof
  fix b :: "pagetree \<times> physmem" and n i j and e :: hashentry
  assume w: "kmap_wf b n" and i: "i < n"
  obtain pt m where b: "b = (pt, m)" by (cases b)
  from w b obtain k where k: "n \<le> N_HASHENTRY_PER_PAGE * k" "slots_ok pt (page_words m) k" by (auto simp: kmap_wf_def)
  let ?N = N_HASHENTRY_PER_PAGE
  have ik: "i < ?N * k" using i k(1) by simp
  obtain p where p: "get_hash_ent nm (pt, m) i = (Ok (p, i mod ?N), pt, m)" "tree_page pt (i div ?N) = Some p"
    "length (page_words m p) = 512" by (rule get_hash_ent_ok [OF k(2) ik])
  define m' where "m' = m\<lparr>page_words := (page_words m)(p := (page_words m p)[2 * (i mod ?N) := he_key e, 2 * (i mod ?N) + 1 := he_val e])\<rparr>"
  have s: "ent_set (map_ops nm) b i e = (pt, m')" using p(1) by (simp add: map_ops_def b m'_def)
  have sl: "slots_ok pt (page_words m') k" using k(2) by (simp add: m'_def slots_ok_write)
  then show "kmap_wf (ent_set (map_ops nm) b i e) n" using s k(1) by (auto simp: kmap_wf_def)
  have small: "2 * (x mod ?N) + 1 < 512" for x
    using pos_mod_bound [of "int ?N" "int x"] by (simp add: N_HASHENTRY_PER_PAGE_def)
  obtain p' where p': "get_hash_ent nm (pt, m') i = (Ok (p', i mod ?N), pt, m')" "tree_page pt (i div ?N) = Some p'"
    by (rule get_hash_ent_ok [OF sl ik])
  then have "p' = p" using p(2) by simp
  then show "ent_get (map_ops nm) (ent_set (map_ops nm) b i e) i = e"
    using p'(1) p(3) small [of i] by (simp add: s) (simp add: map_ops_def m'_def)
  assume j: "j < n" "i \<noteq> j"
  have jk: "j < ?N * k" using j k(1) by simp
  obtain q where q: "get_hash_ent nm (pt, m) j = (Ok (q, j mod ?N), pt, m)" "tree_page pt (j div ?N) = Some q"
    by (rule get_hash_ent_ok [OF k(2) jk])
  obtain q' where q': "get_hash_ent nm (pt, m') j = (Ok (q', j mod ?N), pt, m')" "tree_page pt (j div ?N) = Some q'"
    by (rule get_hash_ent_ok [OF sl jk])
  have qq: "q' = q" using q(2) q'(2) by simp
  have "j mod ?N \<noteq> i mod ?N" if "q = p"
  proof -
    have "i div ?N < k" "j div ?N < k" using ik jk by (simp_all add: less_mult_imp_div_less mult.commute)
    with that p(2) q(2) k(2) have "i div ?N = j div ?N" by (simp add: slots_ok_def)
    with j(2) show ?thesis by (metis div_mult_mod_eq)
  qed
  then show "ent_get (map_ops nm) (ent_set (map_ops nm) b i e) j = ent_get (map_ops nm) b j"
    using q(1) q'(1) qq small [of j] small [of i] p(3)
    by (cases "q = p") (simp_all add: s, simp_all add: map_ops_def m'_def b nth_list_update)
qed

subsection \<open>Maps\<close>

record map_slot =
  ms_back :: pagetree
  ms_capacity :: int
  ms_size :: int

record Map =
  map_slots :: "bool \<Rightarrow> map_slot"
  map_npages :: nat
  map_cur :: bool
  map_pid :: nat

definition slot_table :: "map_slot \<Rightarrow> physmem \<Rightarrow> (pagetree \<times> physmem) hashtable" where
  "slot_table s m = \<lparr>ht_back = (ms_back s, m), ht_capacity = ms_capacity s, ht_size = ms_size s\<rparr>"

definition table_slot :: "(pagetree \<times> physmem) hashtable \<Rightarrow> map_slot" where
  "table_slot t = \<lparr>ms_back = fst (ht_back t), ms_capacity = ht_capacity t, ms_size = ht_size t\<rparr>"

definition null_slot :: map_slot where
  "null_slot = \<lparr>ms_back = pagetree_init False 0, ms_capacity = 0, ms_size = 0\<rparr>"

definition map_init :: "nat \<Rightarrow> Map" where
  "map_init pid = \<lparr>map_slots = (\<lambda>_. null_slot), map_npages = 0, map_cur = False, map_pid = pid\<rparr>"

text \<open>
  The pages of the next table.  When the allocation fails the code frees the address of its own
  local variable, a pointer into the kernel stack, here \<open>stk\<close>.
\<close>

fun rehash_pages ::
  "numa \<Rightarrow> page \<times> nat \<Rightarrow> nat \<Rightarrow> nat \<Rightarrow> nat \<Rightarrow> pagetree \<times> physmem \<Rightarrow> unit result \<times> pagetree \<times> physmem"
where
  "rehash_pages nm stk pid i 0 s = (Ok (), s)"
| "rehash_pages nm stk pid i (Suc k) s =
     (let (pt, m) = s in
      case page_alloc nm pid m of
        (Ok va, m) \<Rightarrow>
          bind_r (pagetree_put_page nm i (Some va) (pt, m)) (\<lambda>_ (pt, m).
            rehash_pages nm stk pid (Suc i) k (pt, page_zero va m))
      | (Err e, m) \<Rightarrow>
          (case page_free nm (fst stk) (snd stk) m of (Ok _, m) \<Rightarrow> (Err e, pt, m) | (_, m) \<Rightarrow> (Panic, pt, m))
      | (Panic, m) \<Rightarrow> (Panic, pt, m))"

text \<open>The loop that puts every binding of the current table into the next one; \<open>k\<close> bounds its rounds.\<close>

fun rehash_copy ::
  "numa \<Rightarrow> map_slot \<Rightarrow> hashiter \<Rightarrow> nat \<Rightarrow> map_slot \<times> physmem \<Rightarrow> unit result \<times> map_slot \<times> physmem"
where
  "rehash_copy nm cur it 0 s = (Ok (), s)"
| "rehash_copy nm cur it (Suc k) s =
     (let (next, m) = s; (more, it) = hashiter_next (map_ops nm) (slot_table cur m) it in
      if \<not> more then (Ok (), next, m)
      else
        (let (r, t) = hash_put (map_ops nm) (slot_table next m) (hi_key it) (hi_val it) in
         case r of
           Ok _ \<Rightarrow> rehash_copy nm cur it k (table_slot t, snd (ht_back t))
         | _ \<Rightarrow> (Panic, table_slot t, snd (ht_back t))))"

definition rehash :: "numa \<Rightarrow> page \<times> nat \<Rightarrow> Map \<times> physmem \<Rightarrow> unit result \<times> Map \<times> physmem" where
  "rehash nm stk s =
     (let (mp, m) = s;
          npages = (if map_npages mp \<noteq> 0 then map_npages mp * 2 else 1);
          cur = map_slots mp (map_cur mp);
          next = map_slots mp (\<not> map_cur mp);
          (r, npt, m) = rehash_pages nm stk (map_pid mp) 0 npages (pagetree_init False (map_pid mp), m)
      in case r of
           Err e \<Rightarrow>
             (let (r, npt, m) = pagetree_free nm (npt, m);
                  mp = mp\<lparr>map_slots := (map_slots mp)(\<not> map_cur mp := next\<lparr>ms_back := npt\<rparr>)\<rparr>
              in bind_r (r, mp, m) (\<lambda>_ s. (Err e, s)))
         | Panic \<Rightarrow> (Panic, mp, m)
         | Ok _ \<Rightarrow>
             (let t = hash_init3 (map_ops nm) (npt, m) (npages * N_HASHENTRY_PER_PAGE);
                  (r, next, m) = rehash_copy nm cur hashiter_init (Suc (nat (ms_capacity cur))) (table_slot t, snd (ht_back t))
              in bind_r (r, mp\<lparr>map_slots := (map_slots mp)(\<not> map_cur mp := next)\<rparr>, m) (\<lambda>_ (mp, m).
                   let (r, cpt, m) = pagetree_free nm (ms_back cur, m);
                       mp = mp\<lparr>map_slots := (map_slots mp)(map_cur mp := cur\<lparr>ms_back := cpt\<rparr>)\<rparr>
                   in bind_r (r, mp, m) (\<lambda>_ (mp, m).
                        (Ok (), mp\<lparr>map_npages := npages, map_cur := \<not> map_cur mp\<rparr>, m)))))"

definition map_percent :: "map_slot \<Rightarrow> int" where
  "map_percent s = (if ms_capacity s \<noteq> 0 then 100 * ms_size s div ms_capacity s else 100)"

text \<open>The result of \<open>rehash\<close> is ignored; only a panic is passed on.\<close>

definition map_put ::
  "numa \<Rightarrow> page \<times> nat \<Rightarrow> u64 \<Rightarrow> u64 \<Rightarrow> Map \<times> physmem \<Rightarrow> unit result \<times> Map \<times> physmem"
where
  "map_put nm stk key val s =
     (if key = 0 then (Panic, s)
      else
        (let (r, mp, m) = (if 70 \<le> map_percent (map_slots (fst s) (map_cur (fst s))) then rehash nm stk s else (Ok (), s)) in
         case r of
           Panic \<Rightarrow> (Panic, mp, m)
         | _ \<Rightarrow>
             (let (r, t) = hash_put (map_ops nm) (slot_table (map_slots mp (map_cur mp)) m) key val;
                  s = (mp\<lparr>map_slots := (map_slots mp)(map_cur mp := table_slot t)\<rparr>, snd (ht_back t))
              in bind_r (r, s) (\<lambda>_ s. (Ok (), s)))))"

definition map_get :: "numa \<Rightarrow> u64 \<Rightarrow> Map \<times> physmem \<Rightarrow> u64 result" where
  "map_get nm key s = hash_get (map_ops nm) (slot_table (map_slots (fst s) (map_cur (fst s))) (snd s)) key"

definition map_erase :: "numa \<Rightarrow> u64 \<Rightarrow> Map \<times> physmem \<Rightarrow> unit result \<times> Map \<times> physmem" where
  "map_erase nm key s =
     (let (mp, m) = s; (r, t) = hash_del (map_ops nm) (slot_table (map_slots mp (map_cur mp)) m) key in
      (r, mp\<lparr>map_slots := (map_slots mp)(map_cur mp := table_slot t)\<rparr>, snd (ht_back t)))"

definition map_free :: "numa \<Rightarrow> Map \<times> physmem \<Rightarrow> unit result \<times> Map \<times> physmem" where
  "map_free nm s =
     (let (mp, m) = s; cur = map_slots mp (map_cur mp); (r, pt, m) = pagetree_free nm (ms_back cur, m) in
      (r, mp\<lparr>map_slots := (map_slots mp)(map_cur mp := cur\<lparr>ms_back := pt\<rparr>)\<rparr>, m))"

definition map_iter_init :: "hashiter" where
  "map_iter_init = hashiter_init"

definition map_iter_next :: "numa \<Rightarrow> Map \<times> physmem \<Rightarrow> hashiter \<Rightarrow> (u64 \<times> u64) option \<times> hashiter" where
  "map_iter_next nm s it =
     (let (more, it) = hashiter_next (map_ops nm) (slot_table (map_slots (fst s) (map_cur (fst s))) (snd s)) it in
      (if more then Some (hi_key it, hi_val it) else None, it))"

subsection \<open>Properties\<close>

lemma slot_table_slot [simp]: "slot_table (table_slot t) (snd (ht_back t)) = t"
  by (cases t) (simp add: slot_table_def table_slot_def)

definition map_table :: "Map \<times> physmem \<Rightarrow> (pagetree \<times> physmem) hashtable" where
  "map_table s = slot_table (map_slots (fst s) (map_cur (fst s))) (snd s)"

definition kmap_ok :: "numa \<Rightarrow> Map \<times> physmem \<Rightarrow> bool" where
  "kmap_ok nm s = ht_inv (map_ops nm) kmap_wf (map_table s)"

definition kmap_of :: "numa \<Rightarrow> Map \<times> physmem \<Rightarrow> u64 \<rightharpoonup> u64" where
  "kmap_of nm s = ht_map (map_ops nm) (map_table s)"

lemma map_get_ok:
  "kmap_ok nm s \<Longrightarrow> valid_key k \<Longrightarrow>
   map_get nm k s = (case kmap_of nm s k of None \<Rightarrow> Err E_NOT_FOUND | Some v \<Rightarrow> Ok v)"
  using kmap.get_correct [of nm "map_table s" k] by (simp add: kmap_ok_def kmap_of_def map_get_def map_table_def)

lemma map_put_ok:
  assumes ok: "kmap_ok nm s" and room: "map_percent (map_slots (fst s) (map_cur (fst s))) < 70"
    and k: "valid_key k" "kmap_of nm s k = None"
  obtains s' where "map_put nm stk k v s = (Ok (), s')" "kmap_ok nm s'" "kmap_of nm s' = (kmap_of nm s)(k \<mapsto> v)"
proof -
  obtain mp m where s: "s = (mp, m)" by (cases s)
  let ?c = "map_slots mp (map_cur mp)" and ?t = "map_table s"
  have sz: "ht_size ?t = ms_size ?c" "ht_capacity ?t = ms_capacity ?c" by (simp_all add: map_table_def slot_table_def s)
  have "0 \<le> ms_capacity ?c" "0 \<le> ms_size ?c" using ok sz by (auto simp: kmap_ok_def ht_inv_def)
  moreover have "ms_capacity ?c \<noteq> 0" using room s by (auto simp: map_percent_def)
  moreover have "\<not> ms_capacity ?c \<le> ms_size ?c"
  proof
    assume "ms_capacity ?c \<le> ms_size ?c"
    then have "100 * ms_capacity ?c div ms_capacity ?c \<le> 100 * ms_size ?c div ms_capacity ?c"
      using calculation by (intro zdiv_mono1) auto
    with calculation room s show False by (simp add: map_percent_def)
  qed
  ultimately have "ht_size ?t < ht_capacity ?t" using sz by simp
  then obtain t' where t': "hash_put (map_ops nm) ?t k v = (Ok v, t')" "ht_inv (map_ops nm) kmap_wf t'"
    "ht_map (map_ops nm) t' = (ht_map (map_ops nm) ?t)(k \<mapsto> v)"
    using kmap.put_fresh [of nm ?t k v] ok k by (auto simp: kmap_ok_def kmap_of_def)
  let ?s = "(mp\<lparr>map_slots := (map_slots mp)(map_cur mp := table_slot t')\<rparr>, snd (ht_back t'))"
  have mt: "map_table ?s = t'" by (simp add: map_table_def)
  have "map_put nm stk k v s = (Ok (), ?s)"
    using t'(1) k(1) room by (simp add: map_put_def s map_table_def valid_key_def)
  with t' mt show thesis by (intro that [of ?s]) (simp_all add: kmap_ok_def kmap_of_def)
qed

lemma map_erase_ok:
  assumes ok: "kmap_ok nm s" and k: "valid_key k" "kmap_of nm s k = Some v"
  obtains s' where "map_erase nm k s = (Ok (), s')" "kmap_ok nm s'" "kmap_of nm s' = (kmap_of nm s)(k := None)"
proof -
  obtain mp m where s: "s = (mp, m)" by (cases s)
  obtain t' where t': "hash_del (map_ops nm) (map_table s) k = (Ok (), t')" "ht_inv (map_ops nm) kmap_wf t'"
    "ht_map (map_ops nm) t' = (ht_map (map_ops nm) (map_table s))(k := None)"
    using kmap.del_present [of nm "map_table s" k v] ok k by (auto simp: kmap_ok_def kmap_of_def)
  let ?s = "(mp\<lparr>map_slots := (map_slots mp)(map_cur mp := table_slot t')\<rparr>, snd (ht_back t'))"
  have mt: "map_table ?s = t'" by (simp add: map_table_def)
  have "map_erase nm k s = (Ok (), ?s)" using t'(1) by (simp add: map_erase_def s map_table_def)
  with t' mt show thesis by (intro that [of ?s]) (simp_all add: kmap_ok_def kmap_of_def)
qed


definition tiny_map :: Map where
  "tiny_map = \<lparr>map_slots = (\<lambda>c. if c then null_slot else \<lparr>ms_back = one_page_tree, ms_capacity = 256, ms_size = 0\<rparr>),
     map_npages = 1, map_cur = False, map_pid = 0\<rparr>"

lemma tiny_slots: "slots_ok one_page_tree (page_words tiny_mem) 1"
  by (auto simp: slots_ok_def one_page_tree_def pt_wf_def pagetree_init_def pagetree_layout pt_lookup_def tiny_mem_def)

lemma tiny_map_ok: "kmap_ok nm (tiny_map, tiny_mem)" "kmap_of nm (tiny_map, tiny_mem) = Map.empty"
proof -
  let ?t = "map_table (tiny_map, tiny_mem)"
  have b: "ht_back ?t = (one_page_tree, tiny_mem)" "ht_capacity ?t = 256" "ht_size ?t = 0"
    by (simp_all add: map_table_def slot_table_def tiny_map_def)
  have "kmap_wf (ht_back ?t) 256"
    unfolding kmap_wf_def b using tiny_slots by (auto simp: N_HASHENTRY_PER_PAGE_def intro!: exI [of _ 1])
  moreover have "hash_ent (map_ops nm) ?t i = null_entry" if i: "i < 256" for i
  proof -
    have i': "i < N_HASHENTRY_PER_PAGE * 1" using i by (simp add: N_HASHENTRY_PER_PAGE_def)
    obtain p where "get_hash_ent nm (one_page_tree, tiny_mem) i = (Ok (p, i mod N_HASHENTRY_PER_PAGE), one_page_tree, tiny_mem)"
      using get_hash_ent_ok [OF tiny_slots i', of nm] by blast
    moreover have "page_words tiny_mem p ! n = 0" if "n < 512" for p n using that by (simp add: tiny_mem_def)
    ultimately show ?thesis
      using i by (simp add: hash_ent_def b map_ops_def null_entry_def N_HASHENTRY_PER_PAGE_def)
  qed
  ultimately have "ht_inv (map_ops nm) kmap_wf ?t \<and> ht_map (map_ops nm) ?t = Map.empty"
    by (intro kmap.empty_table_inv [of _ 256]) (auto simp: b)
  then show "kmap_ok nm (tiny_map, tiny_mem)" "kmap_of nm (tiny_map, tiny_mem) = Map.empty"
    by (auto simp: kmap_ok_def kmap_of_def)
qed


text \<open>
  When no page is free the first \<open>map_put\<close> on a fresh map does not fail but stops the kernel:
  \<open>rehash\<close> hands the address of its local variable to \<open>page_free\<close>, which panics on a pointer that
  is not page-aligned.
\<close>

theorem map_put_panics_without_memory:
  assumes "mem_inv nm P m R H I" and "free_pages m = {}"
    and "snd stk \<noteq> 0" and "\<not> pi_hwpage (page_infos m (fst stk))" and "k \<noteq> 0"
  shows "fst (map_put nm stk k v (map_init pid, m)) = Panic"
proof -
  obtain m' where "page_alloc nm pid m = (Err E_NO_MEM, m')" "page_infos m' = page_infos m"
    by (rule page_alloc_ok [OF assms(1), of pid]) (use assms(2) in auto)
  moreover from this have "fst (page_free nm (fst stk) (snd stk) m') = Panic"
    using assms(3,4) by (simp add: page_free_def page_to_pageinfo_def Let_def split: result.split)
  ultimately have "fst (rehash nm stk (map_init pid, m)) = Panic"
    by (cases "page_free nm (fst stk) (snd stk) m'") (simp add: rehash_def map_init_def Let_def)
  then show ?thesis
    using assms(5) by (cases "rehash nm stk (map_init pid, m)") (simp add: map_put_def map_percent_def map_init_def null_slot_def)
qed

definition full_mem :: physmem where
  "full_mem = snd (page_alloc tiny_numa 0 tiny_mem)"

theorem map_put_panics_without_memory_witness:
  "fst (map_put tiny_numa (9, 8) 7 70 (map_init 0, full_mem)) = Panic"
proof -
  have f: "fst (page_alloc tiny_numa 0 tiny_mem) = Ok 2"
    by (simp add: page_alloc_def tiny_numa_def tiny_mem_def arch_node_by_cpu_def page_to_pageinfo_def Let_def)
  have "mem_inv tiny_numa {1, 2} full_mem {#1#} {#} {#2#} \<and> free_pages full_mem = {}"
  proof (rule page_alloc_ok [OF tiny_mem_inv, of 0])
    fix p m'
    assume "page_alloc tiny_numa 0 tiny_mem = (Ok p, m')" "mem_inv tiny_numa {1, 2} m' {#1#} {#} (add_mset p {#})"
      "free_pages m' = free_pages tiny_mem - {p}"
    moreover have "free_pages tiny_mem = {2}" by (simp add: free_pages_def tiny_mem_def numeral_eq_Suc)
    ultimately show ?thesis using f by (auto simp: full_mem_def)
  qed (use f in auto)
  moreover have "\<not> pi_hwpage (page_infos full_mem 9)"
    by (simp add: full_mem_def page_alloc_def tiny_numa_def tiny_mem_def arch_node_by_cpu_def page_to_pageinfo_def
        set_pageinfo_def Let_def)
  ultimately show ?thesis using map_put_panics_without_memory [of tiny_numa "{1, 2}" full_mem "{#1#}" "{#}" "{#2#}" "(9, 8)" 7 70 0]
    by auto
qed

end
