(* ===== verification/Kmap_Rehash.thy ===== *)
theory Kmap_Rehash
  imports Kmap
begin

text \<open>
  Growing a kernel map: \<open>rehash\<close> moves every binding into a table of twice the size, keeps the
  page accounting and gives the pages of the old table back.
\<close>

subsection \<open>Allocating the pages of the new table\<close>

lemma lookup_in_refs: "pt_wf pt \<Longrightarrow> pe_page (pt_lookup pt j) = Some p \<Longrightarrow> p \<in># pt_refs pt"
proof -
  assume a: "pt_wf pt" "pe_page (pt_lookup pt j) = Some p"
  then have "pe_page (pt_lookup pt j) \<noteq> None" by simp
  then obtain ep where "entp_ok pt ep j" using get_entp_present [OF a(1)] by blast
  from ent_refs_sub [OF a(1) this] a(2) show ?thesis by (simp add: ent_refs_def)
qed

lemma refs_not_free: "pt_inv nm P m pt R H I \<Longrightarrow> p \<in># pt_refs pt \<Longrightarrow> p \<notin> free_pages m"
  by (auto simp: pt_inv_def mem_inv_def owned_ok_def)

lemma held_not_free: "pt_inv nm P m pt R H I \<Longrightarrow> p \<in># R + I \<Longrightarrow> p \<notin> free_pages m"
  by (auto simp: pt_inv_def mem_inv_def owned_ok_def)

lemma slots_page:
  assumes "slots_ok pt w k" "j < k"
  obtains p where "tree_page pt j = Some p" "length (w p) = 512" "p \<in># pt_refs pt"
    "pt_lookup pt j = \<lparr>pe_page = Some p, pe_mode = page_excl\<rparr>"
proof -
  from assms obtain p where p: "pt_lookup pt j = \<lparr>pe_page = Some p, pe_mode = page_excl\<rparr>" "length (w p) = 512"
    by (auto simp: slots_ok_def)
  moreover have "p \<in># pt_refs pt" using assms(1) p(1) by (intro lookup_in_refs [of pt j]) (auto simp: slots_ok_def)
  ultimately show thesis by (intro that) (simp_all add: tree_page_def)
qed

lemma slots_ok_words:
  assumes "slots_ok pt w k" and "\<And>j p. j < k \<Longrightarrow> tree_page pt j = Some p \<Longrightarrow> w' p = w p"
  shows "slots_ok pt w' k"
  using assms unfolding slots_ok_def tree_page_def by fastforce

lemma slots_ok_extend:
  assumes sl: "slots_ok pt w i" and wf: "pt_wf pt'" and va: "va \<notin># pt_refs pt"
    and lk: "pt_lookup pt' = (pt_lookup pt)(i := \<lparr>pe_page = Some va, pe_mode = page_excl\<rparr>)"
    and w: "\<And>j p. j < i \<Longrightarrow> tree_page pt j = Some p \<Longrightarrow> w' p = w p" and va': "length (w' va) = 512"
  shows "slots_ok pt' w' (Suc i)"
proof -
  have tp: "tree_page pt' j = (if j = i then Some va else tree_page pt j)" for j by (simp add: tree_page_def lk)
  have old: "\<exists>p. tree_page pt j = Some p \<and> length (w' p) = 512 \<and> p \<noteq> va \<and>
      pt_lookup pt j = \<lparr>pe_page = Some p, pe_mode = page_excl\<rparr>" if "j < i" for j
    using slots_page [OF sl that] w [OF that] va by metis
  have "\<exists>p. pt_lookup pt' j = \<lparr>pe_page = Some p, pe_mode = page_excl\<rparr> \<and> length (w' p) = 512" if "j < Suc i" for j
    using that old [of j] va' by (cases "j = i") (auto simp: lk)
  moreover have "j = l" if "j < Suc i" "l < Suc i" "tree_page pt' j = tree_page pt' l" for j l
  proof (cases "j = i \<or> l = i")
    case True
    then show ?thesis using that old [of j] old [of l] by (auto simp: tp split: if_splits)
  next
    case False
    then show ?thesis using that sl by (auto simp: tp slots_ok_def)
  qed
  ultimately show ?thesis using wf by (auto simp: slots_ok_def)
qed

definition new_slots :: "pagetree \<Rightarrow> nat \<Rightarrow> page multiset \<Rightarrow> bool" where
  "new_slots pt n X \<longleftrightarrow> (\<forall>j<n. \<forall>q. tree_page pt j = Some q \<longrightarrow> q \<notin># X)"

definition grew ::
  "numa \<Rightarrow> page set \<Rightarrow> page multiset \<Rightarrow> page multiset \<Rightarrow> page multiset \<Rightarrow> nat \<Rightarrow> unit result \<Rightarrow> pagetree \<Rightarrow> physmem \<Rightarrow> bool"
where
  "grew nm P R H I n r pt m \<longleftrightarrow>
     r = Ok () \<and> pt_inv nm P m pt R H I \<and> slots_ok pt (page_words m) n \<and> new_slots pt n (R + I) \<or>
     r = Err E_NO_MEM \<and> (\<exists>J. I \<subseteq># J \<and> pt_inv nm P m pt R H J) \<or>
     r = Panic"

lemma rehash_pages_ok:
  assumes "pt_inv nm P m pt R H I" "slots_ok pt (page_words m) i" "i + k < pt_capacity"
    "size (R + pt_refs pt) + k < 2 ^ 32" "new_slots pt i (R + I)" and off: "snd stk \<noteq> 0"
  shows "\<exists>r pt' m'. rehash_pages nm stk pid i k (pt, m) = (r, pt', m') \<and>
    (\<forall>q. q \<in># R + I \<longrightarrow> page_words m' q = page_words m q) \<and> grew nm P R H I (i + k) r pt' m'"
  using assms
proof (induction k arbitrary: i pt m)
  case 0
  then show ?case by (simp add: grew_def)
next
  case (Suc k)
  note inv = Suc.prems(1) and sl = Suc.prems(2)
  have mi: "mem_inv nm P m (R + pt_refs pt) H (I + pt_pages pt)" using inv by (simp add: pt_inv_def)
  show ?case
  proof (rule page_alloc_ok [OF mi, of pid])
    assume a: "page_alloc nm pid m = (Err E_NO_MEM, m\<lparr>page_failures := page_failures m + 1\<rparr>)"
    let ?m = "m\<lparr>page_failures := page_failures m + 1\<rparr>"
    have "snd (page_free nm (fst stk) (snd stk) ?m) = ?m"
      using off by (simp add: page_free_def Let_def split: result.splits)
    then obtain r where r: "page_free nm (fst stk) (snd stk) ?m = (r, ?m)" by (metis prod.collapse)
    have "pt_inv nm P ?m pt R H I" using inv by (simp add: pt_inv_def)
    then show ?thesis using a r
      by (cases r) (auto simp: grew_def intro: subset_mset.order_refl)
  next
    fix va m1
    assume a: "page_alloc nm pid m = (Ok va, m1)" "mem_inv nm P m1 (R + pt_refs pt) H (add_mset va (I + pt_pages pt))"
      "va \<in> free_pages m" "free_pages m1 = free_pages m - {va}" "page_words m1 = page_words m"
    have i1: "pt_inv nm P m1 pt R H (add_mset va I)" using inv a(2) by (simp add: pt_inv_def)
    have src: "put_source (Some va) R (add_mset va I) I" by (simp add: put_source_def)
    have sz: "Some va = None \<or> size (R + pt_refs pt) + 1 < 2 ^ 32" using Suc.prems(4) by simp
    from put_page_ok [OF i1 src sz, of i] obtain r pt' m' where
      p: "pagetree_put_page nm i (Some va) (pt, m1) = (r, pt', m')" "keeps_words m1 m'"
      and out: "r = Ok () \<and> pt_inv nm P m' pt' R H I \<and>
          pt_lookup pt' = (pt_lookup pt)(i := \<lparr>pe_page = Some va, pe_mode = page_excl\<rparr>) \<and>
          pt_refs pt' + ent_refs (pt_lookup pt i) = pt_refs pt + {#va#} \<or>
        r = Err E_NO_MEM \<and> pt_inv nm P m' pt' R H (add_mset va I)"
      using Suc.prems(3) by (auto simp: ent_refs_def)
    have kw: "keeps_words m m'" using p(2) a(4,5) by (auto simp: keeps_words_def)
    have fr: "page_words m' q = page_words m q" if "q \<in># R + I" for q
      using kw held_not_free [OF inv that] by (simp add: keeps_words_def)
    from out show ?thesis
    proof
      assume "r = Err E_NO_MEM \<and> pt_inv nm P m' pt' R H (add_mset va I)"
      then show ?thesis using a(1) p(1) fr
        by (auto simp: grew_def intro!: exI [of _ "add_mset va I"])
    next
      assume o: "r = Ok () \<and> pt_inv nm P m' pt' R H I \<and>
          pt_lookup pt' = (pt_lookup pt)(i := \<lparr>pe_page = Some va, pe_mode = page_excl\<rparr>) \<and>
          pt_refs pt' + ent_refs (pt_lookup pt i) = pt_refs pt + {#va#}"
      let ?m = "page_zero va m'"
      have nf: "q \<notin> free_pages m" if "q \<in># pt_refs pt" for q using refs_not_free [OF inv that] .
      have va: "va \<notin># pt_refs pt" using nf a(3) by blast
      have "page_words ?m q = page_words m q" if "j < i" "tree_page pt j = Some q" for j q
      proof -
        have "q \<in># pt_refs pt" using slots_page [OF sl that(1)] that(2) by auto
        then show ?thesis using nf kw va by (auto simp: keeps_words_def page_zero_def)
      qed
      then have sl': "slots_ok pt' (page_words ?m) (Suc i)"
        using o by (intro slots_ok_extend [OF sl _ va]) (auto simp: pt_inv_def page_zero_def)
      have "va \<notin># R + I" using held_not_free [OF inv] a(3) by blast
      then have ns: "new_slots pt' (Suc i) (R + I)"
        using Suc.prems(5) o by (auto simp: new_slots_def tree_page_def less_Suc_eq)
      have "size (pt_refs pt') \<le> size (pt_refs pt) + 1"
        using o by (metis le_add1 size_single size_union)
      then have "size (R + pt_refs pt') + k < 2 ^ 32" using Suc.prems(4) by simp
      moreover have i2: "pt_inv nm P ?m pt' R H I" using o by simp
      ultimately obtain r2 pt2 m2 where ih: "rehash_pages nm stk pid (Suc i) k (pt', ?m) = (r2, pt2, m2)"
        "\<forall>q. q \<in># R + I \<longrightarrow> page_words m2 q = page_words ?m q" "grew nm P R H I (Suc i + k) r2 pt2 m2"
        using Suc.IH [OF i2 sl'] Suc.prems(3) ns off by auto
      have "page_words m2 q = page_words m q" if "q \<in># R + I" for q
        using ih(2) fr [OF that] held_not_free [OF inv that] a(3) that by (auto simp: page_zero_def)
      then show ?thesis using ih(1,3) a(1) p(1) o by simp
    qed
  qed
qed

subsection \<open>What the operations of a table write\<close>

definition wrote :: "pagetree \<Rightarrow> nat \<Rightarrow> physmem \<Rightarrow> physmem \<Rightarrow> bool" where
  "wrote pt k m m' \<longleftrightarrow>
     (\<exists>w. m' = m\<lparr>page_words := w\<rparr> \<and> (\<forall>q. (\<forall>j<k. tree_page pt j \<noteq> Some q) \<longrightarrow> w q = page_words m q))"

definition table_step :: "nat \<Rightarrow> (pagetree \<times> physmem) hashtable \<Rightarrow> (pagetree \<times> physmem) hashtable \<Rightarrow> bool" where
  "table_step k t t' \<longleftrightarrow>
     fst (ht_back t') = fst (ht_back t) \<and> wrote (fst (ht_back t)) k (snd (ht_back t)) (snd (ht_back t')) \<and>
     slots_ok (fst (ht_back t)) (page_words (snd (ht_back t'))) k"

lemma wrote_refl: "wrote pt k m m"
  by (auto simp: wrote_def intro!: exI [of _ "page_words m"])

lemma wrote_trans: "wrote pt k m m' \<Longrightarrow> wrote pt k m' m'' \<Longrightarrow> wrote pt k m m''"
  by (auto simp: wrote_def)

lemma wrote_frame: "wrote pt k m m' \<Longrightarrow> (\<And>j. j < k \<Longrightarrow> tree_page pt j \<noteq> Some q) \<Longrightarrow> page_words m' q = page_words m q"
  by (auto simp: wrote_def)

lemma wrote_inv [simp]:
  assumes "wrote pt k m m'"
  shows "mem_inv nm P m' R H I = mem_inv nm P m R H I" "free_pages m' = free_pages m"
    "pt_inv nm P m' x R H I = pt_inv nm P m x R H I"
  using assms by (auto simp: wrote_def pt_inv_def)

lemma table_step_refl: "slots_ok (fst (ht_back t)) (page_words (snd (ht_back t))) k \<Longrightarrow> table_step k t t"
  by (simp add: table_step_def wrote_refl)

lemma table_step_trans: "table_step k t t' \<Longrightarrow> table_step k t' t'' \<Longrightarrow> table_step k t t''"
  by (auto simp: table_step_def intro: wrote_trans)

lemma store_ent_step:
  assumes sl: "slots_ok (fst (ht_back t)) (page_words (snd (ht_back t))) k" and i: "i < N_HASHENTRY_PER_PAGE * k"
  shows "table_step k t (store_ent (map_ops nm) t i e)"
proof -
  obtain pt m where b: "ht_back t = (pt, m)" by (cases "ht_back t")
  obtain p where p: "get_hash_ent nm (pt, m) i = (Ok (p, i mod N_HASHENTRY_PER_PAGE), pt, m)"
    "tree_page pt (i div N_HASHENTRY_PER_PAGE) = Some p" "length (page_words m p) = 512"
    using get_hash_ent_ok [of pt m k i nm] sl i b by auto
  have "i div N_HASHENTRY_PER_PAGE < k" using i by (simp add: less_mult_imp_div_less mult.commute)
  with p(2) have "wrote pt k m (m\<lparr>page_words := (page_words m)(p := ws)\<rparr>)" for ws
    by (auto simp: wrote_def intro!: exI [of _ "(page_words m)(p := ws)"])
  moreover have "slots_ok pt (page_words (m\<lparr>page_words := (page_words m)(p := ws)\<rparr>)) k" if "length ws = 512" for ws
    using slots_ok_write [of pt "page_words m" k ws p] sl b p(3) that by simp
  ultimately show ?thesis
    using b p by (simp add: table_step_def store_ent_def) (simp add: map_ops_def)
qed

lemma clear_ents_step:
  assumes sl: "slots_ok (fst (ht_back t)) (page_words (snd (ht_back t))) k" and n: "n \<le> N_HASHENTRY_PER_PAGE * k"
  shows "table_step k t (clear_ents (map_ops nm) t n)"
  using n
proof (induction n)
  case 0
  then show ?case using sl by (simp add: clear_ents_def table_step_refl)
next
  case (Suc n)
  let ?u = "clear_ents (map_ops nm) t n"
  have u: "table_step k t ?u" using Suc by simp
  have "table_step k ?u (store_ent (map_ops nm) ?u n null_entry)"
    using u Suc.prems by (intro store_ent_step) (auto simp: table_step_def)
  then show ?case using table_step_trans [OF u] by (simp add: clear_ents_def)
qed

lemma put_scan_probe:
  "hash_put_scan ops t key skip p i n = Ok q \<Longrightarrow> q = p \<or> (\<exists>j. q = hash_probe t key j)"
  by (induction n arbitrary: p i) (auto simp: Let_def split: if_splits)

lemma hash_put_step:
  assumes sl: "slots_ok (fst (ht_back t)) (page_words (snd (ht_back t))) k"
    and cap: "ht_capacity t = int (N_HASHENTRY_PER_PAGE * k)" "ht_capacity t dvd 2 ^ 64"
    and p: "hash_put (map_ops nm) t key v = (r, t')"
  shows "table_step k t t'"
proof (cases "t' = t")
  case True
  then show ?thesis using sl by (simp add: table_step_refl)
next
  case False
  with p obtain q where q: "hash_put_scan (map_ops nm) t key None 0 0 (nat (ht_capacity t)) = Ok q"
    and t': "\<exists>n e. t' = store_ent (map_ops nm) (t\<lparr>ht_size := n\<rparr>) q e" and pos: "0 < ht_capacity t"
    by (auto simp: hash_put_def hash_put_fn_def Let_def split: if_splits result.splits) (metis hashtable.surjective hashtable.update_convs)+
  have "q < nat (ht_capacity t)" using put_scan_probe [OF q] probe_less [OF pos cap(2)] pos by auto
  then have "q < N_HASHENTRY_PER_PAGE * k" using cap(1) by (simp only: nat_int)
  then have "table_step k (t\<lparr>ht_size := n\<rparr>) (store_ent (map_ops nm) (t\<lparr>ht_size := n\<rparr>) q e)" for n e
    using sl by (intro store_ent_step) auto
  then show ?thesis using t' by (auto simp: table_step_def)
qed

subsection \<open>Reading a table whose pages did not change\<close>

lemma ent_get_words:
  assumes sl: "slots_ok pt (page_words m) k" and i: "i < N_HASHENTRY_PER_PAGE * k"
    and w: "\<And>j q. j < k \<Longrightarrow> tree_page pt j = Some q \<Longrightarrow> page_words m' q = page_words m q"
  shows "ent_get (map_ops nm) (pt, m') i = ent_get (map_ops nm) (pt, m) i"
proof -
  have sl': "slots_ok pt (page_words m') k" using sl w by (rule slots_ok_words)
  obtain p where p: "get_hash_ent nm (pt, m) i = (Ok (p, i mod N_HASHENTRY_PER_PAGE), pt, m)"
    "tree_page pt (i div N_HASHENTRY_PER_PAGE) = Some p" by (rule get_hash_ent_ok [OF sl i])
  obtain p' where p': "get_hash_ent nm (pt, m') i = (Ok (p', i mod N_HASHENTRY_PER_PAGE), pt, m')"
    "tree_page pt (i div N_HASHENTRY_PER_PAGE) = Some p'" by (rule get_hash_ent_ok [OF sl' i])
  have "i div N_HASHENTRY_PER_PAGE < k" using i by (simp add: less_mult_imp_div_less mult.commute)
  then have "p' = p" "page_words m' p = page_words m p" using p p' w by auto
  then show ?thesis using p p' by (simp add: map_ops_def)
qed

lemma table_cong:
  assumes "\<And>i. i < nat (ht_capacity t) \<Longrightarrow> hash_ent ops t' i = hash_ent ops t i"
    and "ht_capacity t' = ht_capacity t" "ht_size t' = ht_size t"
  shows "ht_assocs ops t' = ht_assocs ops t" "ht_map ops t' = ht_map ops t"
    "ht_inv ops wf1 t \<Longrightarrow> wf2 (ht_back t') (nat (ht_capacity t)) \<Longrightarrow> ht_inv ops wf2 t'"
proof -
  have e: "ht_ents ops t' = ht_ents ops t" using assms by (simp add: ht_ents_def)
  then show a: "ht_assocs ops t' = ht_assocs ops t" by (simp add: ht_assocs_def)
  then show "ht_map ops t' = ht_map ops t" by (simp add: ht_map_def)
  have pr: "hash_probe t' = hash_probe t" using assms(2) by (intro ext) (simp add: hash_probe_def)
  assume inv: "ht_inv ops wf1 t" and wf2: "wf2 (ht_back t') (nat (ht_capacity t))"
  have "chain_ok ops t'"
    unfolding chain_ok_def assms(2) pr
  proof (intro allI impI)
    fix j key l
    assume j: "j < nat (ht_capacity t)" and k: "he_key (hash_ent ops t' (hash_probe t key j)) = key" "valid_key key" and l: "l < j"
    have c: "0 < ht_capacity t" "ht_capacity t dvd 2 ^ 64" using inv j by (auto simp: ht_inv_def)
    have "hash_probe t key i < nat (ht_capacity t)" for i by (rule probe_less [OF c])
    then show "he_key (hash_ent ops t' (hash_probe t key l)) \<noteq> 0"
      using inv j k l assms(1) by (auto simp: ht_inv_def chain_ok_def)
  qed
  then show "ht_inv ops wf2 t'" using inv wf2 assms a by (simp add: ht_inv_def)
qed

lemma hashiter_next_cong:
  assumes e: "\<And>i. i < nat (ht_capacity t) \<Longrightarrow> hash_ent ops t' i = hash_ent ops t i"
    and c: "ht_capacity t' = ht_capacity t" and i: "0 \<le> hi_index it"
  shows "hashiter_next ops t' it = hashiter_next ops t it"
proof -
  have "hashiter_scan ops t' it a n = hashiter_scan ops t it a n" if "a + n \<le> nat (ht_capacity t)" for a n
    using that by (induction n arbitrary: a) (auto simp: e Let_def)
  moreover have "nat (hi_index it) + nat (ht_capacity t - hi_index it) \<le> nat (ht_capacity t) \<or>
      nat (ht_capacity t - hi_index it) = 0" using i by linarith
  ultimately show ?thesis by (auto simp: hashiter_next_def c)
qed

lemma hashiter_next_index: "hashiter_next ops t it = (b, it') \<Longrightarrow> b \<Longrightarrow> 0 \<le> hi_index it'"
proof -
  have "hashiter_scan ops t it i n = (True, it') \<Longrightarrow> 0 \<le> hi_index it'" for i n
    by (induction n arbitrary: i) (auto simp: Let_def split: if_splits)
  then show "hashiter_next ops t it = (b, it') \<Longrightarrow> b \<Longrightarrow> 0 \<le> hi_index it'" by (auto simp: hashiter_next_def)
qed

lemma hash_iterate_cong:
  assumes e: "\<And>i. i < nat (ht_capacity t) \<Longrightarrow> hash_ent ops t' i = hash_ent ops t i"
    and c: "ht_capacity t' = ht_capacity t" and i: "0 \<le> hi_index it"
  shows "hash_iterate ops t' it n = hash_iterate ops t it n"
  using i
proof (induction n arbitrary: it)
  case (Suc n)
  obtain more it' where nx: "hashiter_next ops t it = (more, it')" by (cases "hashiter_next ops t it")
  then have "hashiter_next ops t' it = (more, it')" using hashiter_next_cong [OF e c Suc.prems] by simp
  then show ?case using nx Suc.IH [of it'] hashiter_next_index [OF nx] by simp
qed simp

subsection \<open>Moving the bindings\<close>

definition disjoint_trees :: "pagetree \<Rightarrow> nat \<Rightarrow> pagetree \<Rightarrow> nat \<Rightarrow> bool" where
  "disjoint_trees pt k pt' k' \<longleftrightarrow> (\<forall>i<k. \<forall>j<k'. \<forall>q. tree_page pt i = Some q \<longrightarrow> tree_page pt' j \<noteq> Some q)"

lemma slot_ent_words:
  assumes sl: "slots_ok (ms_back c) (page_words m) k" and cap: "ms_capacity c = int (N_HASHENTRY_PER_PAGE * k)"
    and w: "\<And>j q. j < k \<Longrightarrow> tree_page (ms_back c) j = Some q \<Longrightarrow> page_words m' q = page_words m q"
    and i: "i < nat (ht_capacity (slot_table c m))"
  shows "hash_ent (map_ops nm) (slot_table c m') i = hash_ent (map_ops nm) (slot_table c m) i"
proof -
  have "i < N_HASHENTRY_PER_PAGE * k" using i cap by (simp add: slot_table_def nat_mult_distrib)
  from ent_get_words [OF sl this w] show ?thesis by (simp add: hash_ent_def slot_table_def)
qed

lemma rehash_copy_ok:
  assumes cur: "slots_ok (ms_back cur) (page_words m) kc" "ms_capacity cur = int (N_HASHENTRY_PER_PAGE * kc)"
    and sl: "slots_ok (ms_back next) (page_words m) kn" "ms_capacity next = int (N_HASHENTRY_PER_PAGE * kn)"
    and dj: "disjoint_trees (ms_back cur) kc (ms_back next) kn"
    and inv: "ht_inv (map_ops nm) kmap_wf (slot_table next m)"
    and xs: "hash_iterate (map_ops nm) (slot_table cur m) it k = xs" "0 \<le> hi_index it"
    and keys: "distinct (map fst xs)" "\<forall>x\<in>set xs. valid_key (fst x) \<and> ht_map (map_ops nm) (slot_table next m) (fst x) = None"
    and room: "ms_size next + int (length xs) \<le> ms_capacity next"
  shows "\<exists>next' m'. rehash_copy nm cur it k (next, m) = (Ok (), next', m') \<and>
    ms_back next' = ms_back next \<and> ms_capacity next' = ms_capacity next \<and> ms_size next' = ms_size next + int (length xs) \<and>
    wrote (ms_back next) kn m m' \<and> slots_ok (ms_back next) (page_words m') kn \<and>
    ht_inv (map_ops nm) kmap_wf (slot_table next' m') \<and>
    ht_map (map_ops nm) (slot_table next' m') = ht_map (map_ops nm) (slot_table next m) ++ map_of xs"
  using assms
proof (induction k arbitrary: it "next" m xs)
  case 0
  then show ?case by (auto simp: wrote_refl)
next
  case (Suc k)
  note cur = Suc.prems(1,2) and sl = Suc.prems(3,4) and dj = Suc.prems(5) and inv = Suc.prems(6)
  obtain more it' where n: "hashiter_next (map_ops nm) (slot_table cur m) it = (more, it')"
    by (cases "hashiter_next (map_ops nm) (slot_table cur m) it")
  show ?case
  proof (cases more)
    case False
    then show ?thesis using Suc.prems n by (auto simp: wrote_refl)
  next
    case True
    define ys where "ys = hash_iterate (map_ops nm) (slot_table cur m) it' k"
    have xs: "xs = (hi_key it', hi_val it') # ys" using Suc.prems(7) n True by (simp add: ys_def)
    let ?t = "slot_table next m" and ?k = "hi_key it'" and ?v = "hi_val it'"
    have vk: "valid_key ?k" "ht_map (map_ops nm) ?t ?k = None" using Suc.prems(10) xs by auto
    have lt: "ht_size ?t < ht_capacity ?t" using Suc.prems(11) xs by (simp add: slot_table_def)
    obtain t' where p: "hash_put (map_ops nm) ?t ?k ?v = (Ok ?v, t')" "ht_inv (map_ops nm) kmap_wf t'"
      "ht_map (map_ops nm) t' = (ht_map (map_ops nm) ?t)(?k \<mapsto> ?v)" "ht_size t' = ht_size ?t + 1"
      "ht_capacity t' = ht_capacity ?t"
      using kmap.put_fresh [OF inv vk lt] by blast
    have "ht_capacity ?t dvd 2 ^ 64" using inv lt by (auto simp: ht_inv_def)
    then have st: "table_step kn ?t t'"
      using sl by (intro hash_put_step [OF _ _ _ p(1)]) (simp_all add: slot_table_def)
    let ?next = "table_slot t'" and ?m = "snd (ht_back t')"
    have st': "fst (ht_back t') = ms_back next" "wrote (ms_back next) kn m ?m" "slots_ok (ms_back next) (page_words ?m) kn"
      using st by (simp_all add: table_step_def slot_table_def)
    have w: "page_words ?m q = page_words m q" if "j < kc" "tree_page (ms_back cur) j = Some q" for j q
      using wrote_frame [OF st'(2)] dj that by (auto simp: disjoint_trees_def)
    have cur': "slots_ok (ms_back cur) (page_words ?m) kc" using cur(1) w by (rule slots_ok_words)
    have same: "hash_ent (map_ops nm) (slot_table cur ?m) i = hash_ent (map_ops nm) (slot_table cur m) i"
      if "i < nat (ht_capacity (slot_table cur m))" for i
      using cur w that by (rule slot_ent_words)
    have it': "0 \<le> hi_index it'" using hashiter_next_index [OF n] True by simp
    have ys: "hash_iterate (map_ops nm) (slot_table cur ?m) it' k = ys"
      unfolding ys_def by (rule hash_iterate_cong [OF same _ it']) (simp_all add: slot_table_def)
    have st'': "slot_table ?next ?m = t'" by simp
    have "\<exists>next' m'. rehash_copy nm cur it' k (?next, ?m) = (Ok (), next', m') \<and>
      ms_back next' = ms_back ?next \<and> ms_capacity next' = ms_capacity ?next \<and> ms_size next' = ms_size ?next + int (length ys) \<and>
      wrote (ms_back ?next) kn ?m m' \<and> slots_ok (ms_back ?next) (page_words m') kn \<and>
      ht_inv (map_ops nm) kmap_wf (slot_table next' m') \<and>
      ht_map (map_ops nm) (slot_table next' m') = ht_map (map_ops nm) (slot_table ?next ?m) ++ map_of ys"
    proof (rule Suc.IH [OF cur' cur(2) _ _ _ _ ys it'])
      show "slots_ok (ms_back ?next) (page_words ?m) kn" using st' by (simp add: table_slot_def)
      show "ms_capacity ?next = int (N_HASHENTRY_PER_PAGE * kn)" using p(5) sl(2) by (simp add: table_slot_def slot_table_def)
      show "disjoint_trees (ms_back cur) kc (ms_back ?next) kn" using dj st' by (simp add: table_slot_def)
      show "ht_inv (map_ops nm) kmap_wf (slot_table ?next ?m)" using p(2) st'' by simp
      show "distinct (map fst ys)" using Suc.prems(9) xs by simp
      show "\<forall>x\<in>set ys. valid_key (fst x) \<and> ht_map (map_ops nm) (slot_table ?next ?m) (fst x) = None"
        using Suc.prems(9,10) xs p(3) st'' by (auto simp: rev_image_eqI)
      show "ms_size ?next + int (length ys) \<le> ms_capacity ?next"
        using Suc.prems(11) xs p(4,5) by (simp add: table_slot_def slot_table_def)
    qed
    then obtain next' m' where ih: "rehash_copy nm cur it' k (?next, ?m) = (Ok (), next', m')"
      "ms_back next' = ms_back ?next" "ms_capacity next' = ms_capacity ?next" "ms_size next' = ms_size ?next + int (length ys)"
      "wrote (ms_back ?next) kn ?m m'" "slots_ok (ms_back ?next) (page_words m') kn"
      "ht_inv (map_ops nm) kmap_wf (slot_table next' m')"
      "ht_map (map_ops nm) (slot_table next' m') = ht_map (map_ops nm) (slot_table ?next ?m) ++ map_of ys" by blast
    have bk: "ms_back ?next = ms_back next" and sz: "ms_capacity ?next = ms_capacity next" "ms_size ?next = ms_size next + 1"
      using st' p(4,5) by (simp_all add: table_slot_def slot_table_def)
    show ?thesis
    proof (intro exI conjI)
      show "rehash_copy nm cur it (Suc k) (next, m) = (Ok (), next', m')" using n True p(1) ih(1) by (simp add: Let_def)
      show "wrote (ms_back next) kn m m'" using wrote_trans [OF st'(2)] ih(5) bk by simp
      show "ht_map (map_ops nm) (slot_table next' m') = ht_map (map_ops nm) ?t ++ map_of xs"
        using ih(8) st'' p(3) Suc.prems(9) xs by (simp add: map_add_upd_left dom_map_of_conv_image_fst)
    qed (use ih sz bk xs in simp_all)
  qed
qed

subsection \<open>Rehashing\<close>

text \<open>
  A map in use: the current table lies in the pages of its tree, which the map owns, and the
  other slot holds nothing.
\<close>

definition kmap_inv ::
  "numa \<Rightarrow> page set \<Rightarrow> page multiset \<Rightarrow> page multiset \<Rightarrow> page multiset \<Rightarrow> Map \<times> physmem \<Rightarrow> bool"
where
  "kmap_inv nm P R H I s \<longleftrightarrow>
     (case s of (mp, m) \<Rightarrow>
        let c = map_slots mp (map_cur mp) in
        kmap_ok nm s \<and> pt_inv nm P m (ms_back c) R H I \<and> slots_ok (ms_back c) (page_words m) (map_npages mp) \<and>
        new_slots (ms_back c) (map_npages mp) (R + I) \<and>
        ms_capacity c = int (N_HASHENTRY_PER_PAGE * map_npages mp) \<and>
        pt_empty (ms_back (map_slots mp (\<not> map_cur mp))))"

lemma slots_disjoint:
  assumes "slots_ok pt w k" "new_slots pt' k' (R + pt_refs pt + I)"
  shows "disjoint_trees pt k pt' k'"
  unfolding disjoint_trees_def
proof (intro allI impI notI)
  fix i j q
  assume "i < k" "j < k'" "tree_page pt i = Some q" "tree_page pt' j = Some q"
  then show False using slots_page [OF assms(1), of i] assms(2) by (auto simp: new_slots_def)
qed

lemma iterate_assocs:
  assumes inv: "ht_inv ops wfb t"
  shows "hash_iterate ops t hashiter_init (Suc (nat (ht_capacity t))) = ht_assocs ops t"
    "distinct (map fst (ht_assocs ops t))" "\<And>x. x \<in> set (ht_assocs ops t) \<Longrightarrow> valid_key (fst x)"
    "ht_size t = int (length (ht_assocs ops t))" "ht_size t \<le> ht_capacity t"
proof -
  show "hash_iterate ops t hashiter_init (Suc (nat (ht_capacity t))) = ht_assocs ops t"
    using inv by (subst hash_iterate_spec) (auto simp: hashiter_init_def ht_assocs_alt ht_inv_def)
  show "distinct (map fst (ht_assocs ops t))" "ht_size t = int (length (ht_assocs ops t))"
    using inv by (auto simp: ht_inv_def)
  show "x \<in> set (ht_assocs ops t) \<Longrightarrow> valid_key (fst x)" for x
    by (auto simp: ht_assocs_def live_valid_key)
  have "length (ht_assocs ops t) \<le> length (ht_ents ops t)" by (simp add: ht_assocs_def)
  then show "ht_size t \<le> ht_capacity t" using inv by (auto simp: ht_inv_def ht_ents_def)
qed

lemma slot_kept:
  assumes inv: "kmap_ok nm (mp, m)" and sl: "slots_ok (ms_back (map_slots mp (map_cur mp))) (page_words m) (map_npages mp)"
    and cap: "ms_capacity (map_slots mp (map_cur mp)) = int (N_HASHENTRY_PER_PAGE * map_npages mp)"
    and w: "\<And>j q. j < map_npages mp \<Longrightarrow> tree_page (ms_back (map_slots mp (map_cur mp))) j = Some q \<Longrightarrow>
        page_words m' q = page_words m q"
    and mp': "map_slots mp' (map_cur mp') = map_slots mp (map_cur mp)"
  shows "kmap_ok nm (mp', m')" "kmap_of nm (mp', m') = kmap_of nm (mp, m)"
    "ht_assocs (map_ops nm) (map_table (mp', m')) = ht_assocs (map_ops nm) (map_table (mp, m))"
proof -
  let ?c = "map_slots mp (map_cur mp)"
  have t: "map_table (mp, m) = slot_table ?c m" "map_table (mp', m') = slot_table ?c m'" by (simp_all add: map_table_def mp')
  have ents: "hash_ent (map_ops nm) (slot_table ?c m') i = hash_ent (map_ops nm) (slot_table ?c m) i"
    if "i < nat (ht_capacity (slot_table ?c m))" for i
    using sl cap w that by (rule slot_ent_words)
  have sl': "slots_ok (ms_back ?c) (page_words m') (map_npages mp)" using sl w by (rule slots_ok_words)
  have wf: "kmap_wf (ht_back (slot_table ?c m')) (nat (ht_capacity (slot_table ?c m)))"
    unfolding kmap_wf_def using sl' cap by (intro exI [of _ "map_npages mp"]) (simp add: slot_table_def nat_mult_distrib)
  note c = table_cong [of "slot_table ?c m" "map_ops nm" "slot_table ?c m'", OF ents]
  show "kmap_ok nm (mp', m')" using c(3) [of kmap_wf kmap_wf] inv wf by (simp add: kmap_ok_def t slot_table_def)
  show "kmap_of nm (mp', m') = kmap_of nm (mp, m)"
    "ht_assocs (map_ops nm) (map_table (mp', m')) = ht_assocs (map_ops nm) (map_table (mp, m))"
    using c(1,2) by (simp_all add: kmap_of_def t slot_table_def)
qed

lemma rehash_move:
  assumes ok: "kmap_ok nm (mp, m)" and slc: "slots_ok (ms_back c) (page_words m) (map_npages mp)"
    and c: "c = map_slots mp (map_cur mp)" and cap: "ms_capacity c = int (N_HASHENTRY_PER_PAGE * map_npages mp)"
    and n: "map_npages mp < n" "int (n * N_HASHENTRY_PER_PAGE) dvd 2 ^ 64"
    and sl: "slots_ok npt (page_words m) n" and dj: "disjoint_trees (ms_back c) (map_npages mp) npt n"
    and t: "t = hash_init3 (map_ops nm) (npt, m) (n * N_HASHENTRY_PER_PAGE)"
  shows "\<exists>next' m'. rehash_copy nm c hashiter_init (Suc (nat (ms_capacity c))) (table_slot t, snd (ht_back t)) = (Ok (), next', m') \<and>
    ms_back next' = npt \<and> ms_capacity next' = int (N_HASHENTRY_PER_PAGE * n) \<and> ms_size next' = ms_size c \<and>
    wrote npt n m m' \<and> slots_ok npt (page_words m') n \<and>
    ht_inv (map_ops nm) kmap_wf (slot_table next' m') \<and> ht_map (map_ops nm) (slot_table next' m') = kmap_of nm (mp, m)"
proof -
  let ?ops = "map_ops nm" and ?t0 = "\<lparr>ht_back = (npt, m), ht_capacity = int (n * N_HASHENTRY_PER_PAGE), ht_size = 0\<rparr>"
  have cn: "table_step n ?t0 t"
    unfolding t hash_init3_def using sl by (intro clear_ents_step) (simp_all add: mult.commute)
  then have b: "fst (ht_back t) = npt" "wrote npt n m (snd (ht_back t))" "slots_ok npt (page_words (snd (ht_back t))) n"
    by (simp_all add: table_step_def)
  have wf: "kmap_wf (npt, m) (n * N_HASHENTRY_PER_PAGE)"
    unfolding kmap_wf_def using sl by (intro exI [of _ n]) (simp add: mult.commute)
  have ti: "ht_inv ?ops kmap_wf t" "ht_map ?ops t = Map.empty"
    using kmap.init3_correct [OF wf] n(2) by (simp_all add: t)
  have tc: "ht_capacity t = int (n * N_HASHENTRY_PER_PAGE)" "ht_size t = 0"
    using kmap.clear_ents_spec [of ?t0 "n * N_HASHENTRY_PER_PAGE" "n * N_HASHENTRY_PER_PAGE" nm] wf by (simp_all add: t hash_init3_def)
  let ?m = "snd (ht_back t)"
  have w: "page_words ?m q = page_words m q" if "j < map_npages mp" "tree_page (ms_back c) j = Some q" for j q
    using wrote_frame [OF b(2)] dj that by (auto simp: disjoint_trees_def)
  have slc': "slots_ok (ms_back c) (page_words ?m) (map_npages mp)" using slc w by (rule slots_ok_words)
  have kept: "kmap_ok nm (mp, ?m)" "kmap_of nm (mp, ?m) = kmap_of nm (mp, m)"
    using slot_kept [OF ok, of ?m mp] slc cap w by (auto simp: c)
  have tb: "map_table (mp, ?m) = slot_table c ?m" by (simp add: map_table_def c)
  have inv: "ht_inv ?ops kmap_wf (slot_table c ?m)" using kept(1) by (simp add: kmap_ok_def tb)
  note it = iterate_assocs [OF inv]
  have st: "slot_table (table_slot t) ?m = t" by simp
  let ?xs = "ht_assocs ?ops (slot_table c ?m)"
  have "\<exists>next' m'. rehash_copy nm c hashiter_init (Suc (nat (ms_capacity c))) (table_slot t, ?m) = (Ok (), next', m') \<and>
    ms_back next' = ms_back (table_slot t) \<and> ms_capacity next' = ms_capacity (table_slot t) \<and>
    ms_size next' = ms_size (table_slot t) + int (length ?xs) \<and>
    wrote (ms_back (table_slot t)) n ?m m' \<and> slots_ok (ms_back (table_slot t)) (page_words m') n \<and>
    ht_inv ?ops kmap_wf (slot_table next' m') \<and>
    ht_map ?ops (slot_table next' m') = ht_map ?ops (slot_table (table_slot t) ?m) ++ map_of ?xs"
  proof (rule rehash_copy_ok [OF slc' cap])
    show "hash_iterate ?ops (slot_table c ?m) hashiter_init (Suc (nat (ms_capacity c))) = ?xs"
      using it(1) by (simp add: slot_table_def)
    have "N_HASHENTRY_PER_PAGE * map_npages mp \<le> n * N_HASHENTRY_PER_PAGE" using n(1) by simp
    then have "ht_capacity (slot_table c ?m) \<le> int (n * N_HASHENTRY_PER_PAGE)"
      unfolding slot_table_def hashtable.select_convs cap by (simp only: of_nat_le_iff)
    then show "ms_size (table_slot t) + int (length ?xs) \<le> ms_capacity (table_slot t)"
      using it(4,5) tc by (simp add: table_slot_def)
  qed (use b ti tc dj it st in \<open>auto simp: table_slot_def mult.commute hashiter_init_def\<close>)
  then obtain next' m' where r: "rehash_copy nm c hashiter_init (Suc (nat (ms_capacity c))) (table_slot t, ?m) = (Ok (), next', m')"
    "ms_back next' = ms_back (table_slot t)" "ms_capacity next' = ms_capacity (table_slot t)"
    "ms_size next' = ms_size (table_slot t) + int (length ?xs)" "wrote (ms_back (table_slot t)) n ?m m'"
    "slots_ok (ms_back (table_slot t)) (page_words m') n" "ht_inv ?ops kmap_wf (slot_table next' m')"
    "ht_map ?ops (slot_table next' m') = ht_map ?ops (slot_table (table_slot t) ?m) ++ map_of ?xs" by blast
  have tt: "ms_back (table_slot t) = npt" "ms_size (table_slot t) = 0" "ms_capacity (table_slot t) = int (N_HASHENTRY_PER_PAGE * n)"
    using b tc by (simp_all add: table_slot_def mult.commute)
  show ?thesis
  proof (intro exI conjI)
    show "wrote npt n m m'" using wrote_trans [OF b(2)] r(5) tt(1) by simp
    show "ht_map ?ops (slot_table next' m') = kmap_of nm (mp, m)"
      using r(8) st ti(2) kept(2) by (simp add: kmap_of_def tb ht_map_def)
    show "ms_size next' = ms_size c" using r(4) tt(2) it(4) by (simp add: slot_table_def)
  qed (use r tt in simp_all)
qed

definition map_npages_ok :: "Map \<Rightarrow> bool" where
  "map_npages_ok mp \<longleftrightarrow> map_npages mp = 0 \<or> map_npages mp dvd 2 ^ 20"

lemma next_size:
  assumes "map_npages_ok mp"
  defines "n \<equiv> if map_npages mp \<noteq> 0 then map_npages mp * 2 else 1"
  shows "0 < n" "n \<le> 2 ^ 21" "int (n * N_HASHENTRY_PER_PAGE) dvd 2 ^ 64" "map_npages mp < n"
proof -
  have d: "n dvd 2 ^ 21" using assms by (auto simp: map_npages_ok_def mult.commute)
  then show "0 < n" "n \<le> 2 ^ 21" by (auto intro: dvd_imp_le dvd_pos_nat [of "2 ^ 21"])
  show "map_npages mp < n" by (simp add: n_def)
  have "n * N_HASHENTRY_PER_PAGE dvd 2 ^ 21 * 2 ^ 8" using d by (simp add: N_HASHENTRY_PER_PAGE_def mult_dvd_mono)
  also have "(2::nat) ^ 21 * 2 ^ 8 dvd 2 ^ 64" by (simp flip: power_add) 
  finally have "int (n * N_HASHENTRY_PER_PAGE) dvd int (2 ^ 64)" by (simp only: int_dvd_int_iff)
  then show "int (n * N_HASHENTRY_PER_PAGE) dvd 2 ^ 64" by simp
qed

text \<open>What a rehash leaves: the same bindings, in a larger table when there was memory for it.\<close>

definition rehashed ::
  "numa \<Rightarrow> page set \<Rightarrow> page multiset \<Rightarrow> page multiset \<Rightarrow> page multiset \<Rightarrow> Map \<times> physmem \<Rightarrow> unit result \<Rightarrow> Map \<times> physmem \<Rightarrow> bool"
where
  "rehashed nm P R H I s r s' \<longleftrightarrow>
     (let c = map_slots (fst s) (map_cur (fst s)); c' = map_slots (fst s') (map_cur (fst s')) in
      (\<forall>q. q \<in># R + I \<longrightarrow> page_words (snd s') q = page_words (snd s) q) \<and>
      (r = Panic \<or>
       kmap_of nm s' = kmap_of nm s \<and> ms_size c' = ms_size c \<and>
       (r = Ok () \<and> kmap_inv nm P R H I s' \<and>
          map_npages (fst s') = (if map_npages (fst s) = 0 then 1 else 2 * map_npages (fst s)) \<or>
        r = Err E_NO_MEM \<and> (\<exists>J. I \<subseteq># J \<and> kmap_inv nm P R H J s') \<and> map_npages (fst s') = map_npages (fst s))))"

lemma rehash_ok:
  assumes inv: "kmap_inv nm P R H I (mp, m)" and off: "snd stk \<noteq> 0" and np: "map_npages_ok mp"
    and sz: "size (R + pt_refs (ms_back (map_slots mp (map_cur mp)))) + 2 ^ 21 < 2 ^ 32"
  shows "\<exists>r s'. rehash nm stk (mp, m) = (r, s') \<and> rehashed nm P R H I (mp, m) r s'"
proof -
  let ?c = "map_slots mp (map_cur mp)" and ?ops = "map_ops nm"
  define n where "n = (if map_npages mp \<noteq> 0 then map_npages mp * 2 else 1)"
  note n = next_size [OF np, folded n_def]
  from inv have ok: "kmap_ok nm (mp, m)" and pi: "pt_inv nm P m (ms_back ?c) R H I"
    and slc: "slots_ok (ms_back ?c) (page_words m) (map_npages mp)"
    and nsc: "new_slots (ms_back ?c) (map_npages mp) (R + I)"
    and capc: "ms_capacity ?c = int (N_HASHENTRY_PER_PAGE * map_npages mp)"
    and oth: "pt_empty (ms_back (map_slots mp (\<not> map_cur mp)))" by (auto simp: kmap_inv_def Let_def)
  let ?R = "R + pt_refs (ms_back ?c)" and ?I = "I + pt_pages (ms_back ?c)"
  let ?pt0 = "pagetree_init False (map_pid mp)"
  have e0: "pt_empty ?pt0" by (rule pagetree_init_empty)
  have i0: "pt_inv nm P m ?pt0 ?R H ?I"
    using pi e0 by (auto simp: pt_inv_def intro: subset_mset.order_trans) (simp add: pt_empty_def)
  have s0: "slots_ok ?pt0 (page_words m) 0" using e0 by (simp add: slots_ok_def pt_empty_def)
  have "2 ^ 21 < pt_capacity" by (simp add: pt_capacity_def)
  then obtain r1 npt m1 where p1: "rehash_pages nm stk (map_pid mp) 0 n (?pt0, m) = (r1, npt, m1)"
    "\<forall>q. q \<in># ?R + ?I \<longrightarrow> page_words m1 q = page_words m q" "grew nm P ?R H ?I n r1 npt m1"
    using rehash_pages_ok [OF i0 s0, of n stk "map_pid mp"] n sz off e0 by (auto simp: new_slots_def)
  have curw: "page_words m1 q = page_words m q" if "j < map_npages mp" "tree_page (ms_back ?c) j = Some q" for j q
    using slots_page [OF slc that(1)] that(2) p1(2) by auto
  from p1(3) consider
    "r1 = Ok ()" "pt_inv nm P m1 npt ?R H ?I" "slots_ok npt (page_words m1) n" "new_slots npt n (?R + ?I)"
    | J where "r1 = Err E_NO_MEM" "?I \<subseteq># J" "pt_inv nm P m1 npt ?R H J" | "r1 = Panic"
    by (auto simp: grew_def)
  then show ?thesis
  proof cases
    case 3
    then have "rehash nm stk (mp, m) = (Panic, mp, m1)" using p1(1) by (simp add: rehash_def n_def Let_def)
    then show ?thesis using p1(2) by (auto simp: rehashed_def Let_def)
  next
    case 2
    obtain npt' m2 where f: "pagetree_free nm (npt, m1) = (Ok (), npt', m2)" "mem_inv nm P m2 ?R H J" "pt_empty npt'"
      "page_words m2 = page_words m1" using pagetree_free_ok [OF 2(3)] by blast
    let ?mp = "mp\<lparr>map_slots := (map_slots mp)(\<not> map_cur mp := (map_slots mp (\<not> map_cur mp))\<lparr>ms_back := npt'\<rparr>)\<rparr>"
    have r: "rehash nm stk (mp, m) = (Err E_NO_MEM, ?mp, m2)" using p1(1) 2(1) f(1) by (simp add: rehash_def n_def Let_def)
    have same: "map_slots ?mp (map_cur ?mp) = ?c" by simp
    note kept = slot_kept [OF ok slc capc, of m2 ?mp, OF _ same]
    have kw: "page_words m2 q = page_words m q" if "j < map_npages mp" "tree_page (ms_back ?c) j = Some q" for j q
      using curw that f(4) by simp
    obtain X where X: "J = I + X + pt_pages (ms_back ?c)"
      using 2(2) by (metis add.assoc add.commute subset_mset.add_diff_inverse)
    have "q \<notin># X" if "j < map_npages mp" "tree_page (ms_back ?c) j = Some q" for j q
      using slots_page [OF slc that(1)] that(2) f(2) X by (auto simp: mem_inv_def owned_ok_def)
    then have "new_slots (ms_back ?c) (map_npages mp) (R + (I + X))" using nsc by (auto simp: new_slots_def)
    then have "kmap_inv nm P R H (I + X) (?mp, m2)"
      unfolding kmap_inv_def prod.case Let_def same
      using kept(1) kw f X slots_ok_words [OF slc kw] capc pi by (simp add: pt_inv_def)
    then show ?thesis
      using r kept(2) kw p1(2) f(4) by (auto simp: rehashed_def Let_def intro!: exI [of _ "I + X"])
  next
    case 1
    have dj: "disjoint_trees (ms_back ?c) (map_npages mp) npt n"
      using slots_disjoint [OF slc, of npt n R "I + pt_pages (ms_back ?c)"] 1(4) by (simp add: ac_simps)
    have ok1: "kmap_ok nm (mp, m1)" "kmap_of nm (mp, m1) = kmap_of nm (mp, m)"
      using slot_kept [OF ok slc capc, of m1 mp] curw by blast+
    have slc1: "slots_ok (ms_back ?c) (page_words m1) (map_npages mp)" using slc curw by (rule slots_ok_words)
    define t where "t = hash_init3 ?ops (npt, m1) (n * N_HASHENTRY_PER_PAGE)"
    obtain next' m3 where c: "rehash_copy nm ?c hashiter_init (Suc (nat (ms_capacity ?c))) (table_slot t, snd (ht_back t)) = (Ok (), next', m3)"
      "ms_back next' = npt" "ms_capacity next' = int (N_HASHENTRY_PER_PAGE * n)" "ms_size next' = ms_size ?c"
      "wrote npt n m1 m3" "slots_ok npt (page_words m3) n" "ht_inv ?ops kmap_wf (slot_table next' m3)"
      "ht_map ?ops (slot_table next' m3) = kmap_of nm (mp, m)"
      using rehash_move [OF ok1(1) slc1 refl capc n(4,3) 1(3) dj t_def] ok1(2) by auto
    have i3: "pt_inv nm P m3 (ms_back ?c) (R + pt_refs npt) H (I + pt_pages npt)"
      using 1(2) c(5) pi by (simp add: pt_inv_def ac_simps) (metis mset_subset_eq_add_left subset_mset.order_trans)
    obtain cpt m4 where f: "pagetree_free nm (ms_back ?c, m3) = (Ok (), cpt, m4)"
      "mem_inv nm P m4 (R + pt_refs npt) H (I + pt_pages npt)" "pt_empty cpt" "page_words m4 = page_words m3"
      using pagetree_free_ok [OF i3] by blast
    let ?mp = "mp\<lparr>map_slots := (map_slots mp)(\<not> map_cur mp := next', map_cur mp := ?c\<lparr>ms_back := cpt\<rparr>),
      map_npages := n, map_cur := \<not> map_cur mp\<rparr>"
    have r: "rehash nm stk (mp, m) = (Ok (), ?mp, m4)"
      unfolding rehash_def Let_def prod.case n_def [symmetric] p1(1) [unfolded 1(1)] result.case t_def [symmetric] c(1)
        bind_r_simps f(1) by simp
    have nx: "map_slots ?mp (map_cur ?mp) = next'" by simp
    have "kmap_ok nm (?mp, m3)" "kmap_of nm (?mp, m3) = kmap_of nm (mp, m)"
      using c(7,8) by (simp_all add: kmap_ok_def kmap_of_def map_table_def)
    then have ok4: "kmap_ok nm (?mp, m4)" "kmap_of nm (?mp, m4) = kmap_of nm (mp, m)"
      using slot_kept [of nm ?mp m3 m4 ?mp] c(2,3,6) f(4) by auto
    have "new_slots npt n (R + I)" using 1(4) by (auto simp: new_slots_def)
    then have "kmap_inv nm P R H I (?mp, m4)"
      unfolding kmap_inv_def prod.case Let_def nx using ok4 f c pi 1(2) by (simp add: pt_inv_def)
    moreover have "page_words m4 q = page_words m q" if "q \<in># R + I" for q
    proof -
      have "page_words m3 q = page_words m1 q" using 1(4) that by (intro wrote_frame [OF c(5)]) (auto simp: new_slots_def)
      then show ?thesis using f(4) p1(2) that by auto
    qed
    ultimately show ?thesis using r ok4(2) c(4) by (auto simp: rehashed_def Let_def n_def)
  qed
qed

subsection \<open>The operations of a map\<close>

lemma del_scan_step:
  assumes sl: "slots_ok (fst (ht_back t)) (page_words (snd (ht_back t))) k"
    and pr: "\<And>j. hash_probe t key j < N_HASHENTRY_PER_PAGE * k"
  shows "hash_del_scan (map_ops nm) t key i n = (r, t') \<Longrightarrow> table_step k t t'"
proof (induction n arbitrary: i)
  case 0
  then show ?case using sl by (simp add: table_step_refl)
next
  case (Suc n)
  have "table_step k (t\<lparr>ht_size := c\<rparr>) (store_ent (map_ops nm) (t\<lparr>ht_size := c\<rparr>) (hash_probe t key i) e)" for c e
    using sl pr by (intro store_ent_step) simp_all
  then have "table_step k t (store_ent (map_ops nm) (t\<lparr>ht_size := c\<rparr>) (hash_probe t key i) e)" for c e
    by (simp add: table_step_def)
  then show ?case using Suc sl by (auto simp: Let_def table_step_refl split: if_splits)
qed

lemma kmap_table_step:
  assumes inv: "kmap_inv nm P R H I (mp, m)" and st: "table_step (map_npages mp) (slot_table (map_slots mp (map_cur mp)) m) t'"
    and t': "ht_inv (map_ops nm) kmap_wf t'" "ht_capacity t' = ms_capacity (map_slots mp (map_cur mp))"
  defines "s' \<equiv> (mp\<lparr>map_slots := (map_slots mp)(map_cur mp := table_slot t')\<rparr>, snd (ht_back t'))"
  shows "kmap_inv nm P R H I s'" "kmap_of nm s' = ht_map (map_ops nm) t'"
    "\<And>q. q \<in># R + I \<Longrightarrow> page_words (snd s') q = page_words m q"
proof -
  let ?c = "map_slots mp (map_cur mp)" and ?m = "snd (ht_back t')"
  have b: "fst (ht_back t') = ms_back ?c" "wrote (ms_back ?c) (map_npages mp) m ?m"
    "slots_ok (ms_back ?c) (page_words ?m) (map_npages mp)"
    using st by (simp_all add: table_step_def slot_table_def)
  have mt: "map_table s' = t'" by (simp add: map_table_def s'_def)
  show "kmap_inv nm P R H I s'"
    using inv b t' mt by (simp add: kmap_inv_def s'_def Let_def kmap_ok_def) (simp add: table_slot_def)
  show "kmap_of nm s' = ht_map (map_ops nm) t'" by (simp add: kmap_of_def mt)
  show "page_words (snd s') q = page_words m q" if "q \<in># R + I" for q
    using inv that wrote_frame [OF b(2), of q] by (auto simp: s'_def kmap_inv_def Let_def new_slots_def)
qed

lemma kmap_inv_table:
  assumes "kmap_inv nm P R H I (mp, m)"
  defines "c \<equiv> map_slots mp (map_cur mp)"
  shows "ht_inv (map_ops nm) kmap_wf (slot_table c m)" "slots_ok (ms_back c) (page_words m) (map_npages mp)"
    "ms_capacity c = int (N_HASHENTRY_PER_PAGE * map_npages mp)" "kmap_of nm (mp, m) = ht_map (map_ops nm) (slot_table c m)"
  using assms by (simp_all add: kmap_inv_def Let_def kmap_ok_def kmap_of_def map_table_def)

lemma table_put:
  assumes ti: "ht_inv (map_ops nm) kmap_wf t" and k: "valid_key k" "ht_map (map_ops nm) t k = None"
  obtains t' where "hash_put (map_ops nm) t k v = (Ok v, t')" "ht_inv (map_ops nm) kmap_wf t'"
      "ht_map (map_ops nm) t' = (ht_map (map_ops nm) t)(k \<mapsto> v)" "ht_capacity t' = ht_capacity t" "ht_size t < ht_capacity t"
    | "hash_put (map_ops nm) t k v = (Err E_NO_SPACE, t)" "ht_size t = ht_capacity t"
proof (cases "ht_size t = ht_capacity t")
  case True
  then have "hash_put (map_ops nm) t k v = (Err E_NO_SPACE, t)"
    using k(1) by (simp add: hash_put_def hash_put_fn_def valid_key_def)
  then show ?thesis using True that(2) by simp
next
  case False
  then have lt: "ht_size t < ht_capacity t" using iterate_assocs(5) [OF ti] by simp
  show ?thesis using kmap.put_fresh [OF ti k lt] that(1) lt by metis
qed

lemma put_in_table:
  fixes v :: "64 word"
  assumes inv: "kmap_inv nm P R H I (mp, m)" and k: "valid_key k" "kmap_of nm (mp, m) k = None"
  defines "c \<equiv> map_slots mp (map_cur mp)"
  defines "t \<equiv> hash_put (map_ops nm) (slot_table c m) k v"
  defines "s' \<equiv> (mp\<lparr>map_slots := (map_slots mp)(map_cur mp := table_slot (snd t))\<rparr>, snd (ht_back (snd t)))"
  shows "kmap_inv nm P R H I s'" "\<And>q. q \<in># R + I \<Longrightarrow> page_words (snd s') q = page_words m q"
    "fst t = Ok v \<and> kmap_of nm s' = (kmap_of nm (mp, m))(k \<mapsto> v) \<and> ms_size c < ms_capacity c \<or>
     fst t = Err E_NO_SPACE \<and> kmap_of nm s' = kmap_of nm (mp, m) \<and> ms_size c = ms_capacity c"
proof -
  note tb = kmap_inv_table [OF inv, folded c_def]
  let ?t = "slot_table c m"
  have fresh: "ht_map (map_ops nm) ?t k = None" using k(2) tb(4) by simp
  have res: "fst t = Ok v \<and> ht_map (map_ops nm) (snd t) = (ht_map (map_ops nm) ?t)(k \<mapsto> v) \<and> ms_size c < ms_capacity c \<or>
      fst t = Err E_NO_SPACE \<and> snd t = ?t \<and> ms_size c = ms_capacity c"
    by (rule table_put [OF tb(1) k(1) fresh, of v]) (simp_all add: t_def slot_table_def)
  have ti: "ht_inv (map_ops nm) kmap_wf (snd t) \<and> ht_capacity (snd t) = ms_capacity c"
    by (rule table_put [OF tb(1) k(1) fresh, of v]) (use tb(1) in \<open>simp_all add: t_def slot_table_def\<close>)
  have st: "table_step (map_npages mp) ?t (snd t)"
  proof (cases "ms_size c = ms_capacity c")
    case True
    then show ?thesis using res tb(2) by (auto simp: slot_table_def intro!: table_step_refl)
  next
    case False
    then have "ht_capacity ?t dvd 2 ^ 64" using tb(1) res by (auto simp: ht_inv_def slot_table_def)
    then show ?thesis
      using tb(2,3) by (intro hash_put_step [of _ _ nm k v "fst t"]) (simp_all add: slot_table_def t_def)
  qed
  note ks = kmap_table_step [OF inv st [unfolded c_def] conjunct1 [OF ti] conjunct2 [OF ti, unfolded c_def]]
  show "kmap_inv nm P R H I s'" "\<And>q. q \<in># R + I \<Longrightarrow> page_words (snd s') q = page_words m q"
    using ks(1,3) by (simp_all add: s'_def)
  show "fst t = Ok v \<and> kmap_of nm s' = (kmap_of nm (mp, m))(k \<mapsto> v) \<and> ms_size c < ms_capacity c \<or>
     fst t = Err E_NO_SPACE \<and> kmap_of nm s' = kmap_of nm (mp, m) \<and> ms_size c = ms_capacity c"
    using ks(2) res tb(4) by (auto simp: s'_def)
qed


lemma map_init_inv:
  assumes "mem_inv nm P m R H I" "H \<subseteq># R"
  shows "kmap_inv nm P R H I (map_init pid, m)" "kmap_of nm (map_init pid, m) = Map.empty"
proof -
  let ?pt = "pagetree_init False 0" and ?t = "map_table (map_init pid, m)"
  have e: "pt_empty ?pt" by (rule pagetree_init_empty)
  have b: "ht_back ?t = (?pt, m)" "ht_capacity ?t = 0" "ht_size ?t = 0"
    by (simp_all add: map_table_def slot_table_def map_init_def null_slot_def)
  have sl: "slots_ok ?pt (page_words m) 0" using e by (simp add: slots_ok_def pt_empty_def)
  then have "kmap_wf (ht_back ?t) 0" unfolding kmap_wf_def b by (auto intro!: exI [of _ 0])
  then have ti: "ht_inv (map_ops nm) kmap_wf ?t \<and> ht_map (map_ops nm) ?t = Map.empty"
    by (intro kmap.empty_table_inv [of _ 0]) (auto simp: b)
  then show "kmap_of nm (map_init pid, m) = Map.empty" by (simp add: kmap_of_def)
  have "pt_inv nm P m ?pt R H I" using assms e by (simp add: pt_inv_def) (simp add: pt_empty_def)
  then show "kmap_inv nm P R H I (map_init pid, m)"
    using ti sl e by (simp add: kmap_inv_def kmap_ok_def map_init_def null_slot_def Let_def new_slots_def)
qed


end
