(* ===== verification/Pmap.thy ===== *)
theory Pmap
  imports Page_Alloc
begin

text \<open>
  The hardware page tables (\<^verbatim>\<open>kern/arch/amd64/pmap.c\<close>).  A page map is a page of 512 entries, read
  and written as the words of that page; level 3 is the root and level 0 holds the entries of the
  mapped pages.  An interior map is the level 1 table of a 1 GB region that several roots share.
  A kernel pointer to a page is the number of the page; \<open>pa2kva\<close> and \<open>kva2pa\<close> are modelled on
  addresses at the end.
\<close>

subsection \<open>Entries\<close>

definition NPTLVLS :: nat where
  [layout_consts]: "NPTLVLS = 3"

definition NPTENTRIES :: nat where
  [layout_consts]: "NPTENTRIES = 512"

definition PDSHIFT :: "nat \<Rightarrow> nat" where
  "PDSHIFT n = 12 + 9 * n"

definition PDX :: "nat \<Rightarrow> u64 \<Rightarrow> nat" where
  "PDX n la = unat (drop_bit (PDSHIFT n) la AND 0x1FF)"

definition PTE_P :: u64 where "PTE_P = 0x001"
definition PTE_W :: u64 where "PTE_W = 0x002"
definition PTE_U :: u64 where "PTE_U = 0x004"
definition PTE_PS :: u64 where "PTE_PS = 0x080"
definition PTE_NX :: u64 where "PTE_NX = 0x8000000000000000"

lemmas pte_bits = PTE_P_def PTE_W_def PTE_U_def PTE_PS_def PTE_NX_def

definition PTE_ADDR :: "u64 \<Rightarrow> u64" where
  "PTE_ADDR pte = pte AND 0xffffffffff000"

definition ULIM :: u64 where
  "ULIM = 0x0000800000000000"

definition SEGMAP_EXEC :: u32 where "SEGMAP_EXEC = 0x01"
definition SEGMAP_WRITE :: u32 where "SEGMAP_WRITE = 0x02"
definition SEGMAP_READ :: u32 where "SEGMAP_READ = 0x04"

lemmas segmap_bits = SEGMAP_EXEC_def SEGMAP_WRITE_def SEGMAP_READ_def

definition page_pa :: "page \<Rightarrow> u64" where
  "page_pa p = push_bit 12 (of_nat p)"

definition pte_page :: "u64 \<Rightarrow> page" where
  "pte_page pte = unat (drop_bit 12 (PTE_ADDR pte))"

definition pm_ent :: "physmem \<Rightarrow> page \<Rightarrow> nat \<Rightarrow> u64" where
  "pm_ent m p i = page_words m p ! i"

definition set_ent :: "page \<times> nat \<Rightarrow> u64 \<Rightarrow> physmem \<Rightarrow> physmem" where
  "set_ent e v m = m\<lparr>page_words := (page_words m)(fst e := (page_words m (fst e))[snd e := v])\<rparr>"

abbreviation pte_present :: "u64 \<Rightarrow> bool" where
  "pte_present e \<equiv> e AND PTE_P \<noteq> 0"

fun idx_loop :: "(nat \<Rightarrow> 's \<Rightarrow> unit result \<times> 's) \<Rightarrow> nat \<Rightarrow> nat \<Rightarrow> 's \<Rightarrow> unit result \<times> 's" where
  "idx_loop f i 0 s = (Ok (), s)"
| "idx_loop f i (Suc k) s = bind_r (f i s) (\<lambda>_ s. idx_loop f (Suc i) k s)"

subsection \<open>Allocation and release of page maps\<close>

primrec page_map_free_level :: "numa \<Rightarrow> nat \<Rightarrow> page \<Rightarrow> physmem \<Rightarrow> unit result \<times> physmem" where
  "page_map_free_level nm 0 pgmap m = idx_loop (\<lambda>i m. (Ok (), set_ent (pgmap, i) 0 m)) 0 NPTENTRIES m"
| "page_map_free_level nm (Suc l) pgmap m =
     idx_loop (\<lambda>i m.
       let ptent = pm_ent m pgmap i; m = set_ent (pgmap, i) 0 m in
       if \<not> pte_present ptent then (Ok (), m)
       else
         (let pm = pte_page ptent in
          if pi_pmap (page_to_pageinfo m pm) then (Ok (), m)
          else bind_r (page_map_free_level nm l pm m) (\<lambda>_ m. page_free nm pm 0 m)))
       0 (if Suc l = NPTLVLS then NPTENTRIES div 2 else NPTENTRIES) m"

definition page_map_free :: "numa \<Rightarrow> page \<Rightarrow> physmem \<Rightarrow> unit result \<times> physmem" where
  "page_map_free nm pm m =
     (if \<not> pi_pmap (page_to_pageinfo m pm) then (Panic, m)
      else
        bind_r (page_map_free_level nm NPTLVLS pm (set_pageinfo pm (\<lambda>pi. pi\<lparr>pi_pmap := False\<rparr>) m)) (\<lambda>_ m.
          page_free nm pm 0 m))"

text \<open>\<open>bootpml4\<close> is the statically initialised root map of each processor.\<close>

definition page_map_alloc ::
  "numa \<Rightarrow> (nat \<Rightarrow> u64 list) \<Rightarrow> bool \<Rightarrow> nat \<Rightarrow> physmem \<Rightarrow> page result \<times> physmem"
where
  "page_map_alloc nm bootpml4 interior pid m =
     bind_r (page_alloc nm pid m) (\<lambda>pmap m.
       let m = set_pageinfo pmap (\<lambda>pi. pi\<lparr>pi_pmap := True, pi_pmap_int := interior\<rparr>) m in
       (Ok pmap, m\<lparr>page_words := (page_words m)(pmap := bootpml4 (cur_cpu nm))\<rparr>))"

subsection \<open>Traversal\<close>

record trav_flags =
  PM_TRAV_CREATE :: bool
  PM_TRAV_LINK :: bool

primrec page_map_traverse_internal ::
  "numa \<Rightarrow> trav_flags \<Rightarrow> (page \<times> nat \<Rightarrow> u64 \<Rightarrow> 'a \<times> physmem \<Rightarrow> 'a \<times> physmem) \<Rightarrow> nat \<Rightarrow>
   nat \<Rightarrow> page \<Rightarrow> u64 \<Rightarrow> u64 \<Rightarrow> u64 \<Rightarrow> 'a \<times> physmem \<Rightarrow> unit result \<times> 'a \<times> physmem"
where
  "page_map_traverse_internal nm flags cb pid 0 pgmap first lst va_base s =
     (let first_idx = PDX 0 first; last_idx = PDX 0 lst in
      idx_loop (\<lambda>idx (a, m).
        let ent_va = va_base + push_bit (PDSHIFT 0) (of_nat idx) in
        if PM_TRAV_CREATE flags \<or> pte_present (pm_ent m pgmap idx)
        then (Ok (), cb (pgmap, idx) ent_va (a, m)) else (Ok (), a, m))
        first_idx (last_idx + 1 - first_idx) s)"
| "page_map_traverse_internal nm flags cb pid (Suc l) pgmap first lst va_base s =
     (let first_idx = PDX (Suc l) first; last_idx = PDX (Suc l) lst in
      idx_loop (\<lambda>idx (a, m).
        let pm_ent0 = pm_ent m pgmap idx;
            ent_va = va_base + push_bit (PDSHIFT (Suc l)) (of_nat idx)
        in if Suc l = 1 \<and> pm_ent0 AND PTE_PS \<noteq> 0 then (Ok (), cb (pgmap, idx) ent_va (a, m))
           else if Suc l = 2 \<and> PM_TRAV_LINK flags then (Ok (), cb (pgmap, idx) ent_va (a, m))
           else if \<not> pte_present pm_ent0 \<and> \<not> PM_TRAV_CREATE flags then (Ok (), a, m)
           else
             (case (if pte_present pm_ent0 then (Ok (pte_page pm_ent0), m)
                    else bind_r (page_alloc nm pid m) (\<lambda>p m.
                      let e = page_pa p OR PTE_P OR PTE_U OR PTE_W in
                      (Ok (pte_page e), set_ent (pgmap, idx) e (page_zero p m))))
              of (Ok pm_next, m) \<Rightarrow>
                   page_map_traverse_internal nm flags cb pid l pm_next
                     (if idx = first_idx then first else 0) (if idx = last_idx then lst else - 1) ent_va (a, m)
               | (Err e, m) \<Rightarrow> (Err e, a, m)
               | (Panic, m) \<Rightarrow> (Panic, a, m)))
        first_idx (last_idx + 1 - first_idx) s)"

primrec page_map_invalidate_internal :: "nat \<Rightarrow> page \<Rightarrow> u64 \<Rightarrow> u64 \<Rightarrow> physmem \<Rightarrow> unit result \<times> physmem" where
  "page_map_invalidate_internal 0 pgmap first lst m =
     (let first_idx = PDX 0 first; last_idx = PDX 0 lst in
      idx_loop (\<lambda>idx m. (Ok (), if pte_present (pm_ent m pgmap idx) then set_ent (pgmap, idx) 0 m else m))
        first_idx (last_idx + 1 - first_idx) m)"
| "page_map_invalidate_internal (Suc l) pgmap first lst m =
     (let first_idx = PDX (Suc l) first; last_idx = PDX (Suc l) lst in
      idx_loop (\<lambda>idx m.
        let e = pm_ent m pgmap idx in
        if \<not> pte_present e then (Ok (), m)
        else if pi_pmap (page_to_pageinfo m (pte_page e)) then (Ok (), set_ent (pgmap, idx) 0 m)
        else page_map_invalidate_internal l (pte_page e)
               (if idx = first_idx then first else 0) (if idx = last_idx then lst else - 1) m)
        first_idx (last_idx + 1 - first_idx) m)"

definition page_map_invalidate :: "page \<Rightarrow> u64 \<Rightarrow> u64 \<Rightarrow> physmem \<Rightarrow> unit result \<times> physmem" where
  "page_map_invalidate pgmap first lst m =
     (if \<not> lst < ULIM then (Panic, m)
      else page_map_invalidate_internal (if pi_pmap_int (page_to_pageinfo m pgmap) then 1 else NPTLVLS)
             pgmap first lst m)"

subsection \<open>Installing and looking up pages\<close>

definition pgdir_walk_cb :: "page \<times> nat \<Rightarrow> u64 \<Rightarrow> (page \<times> nat) option \<times> physmem \<Rightarrow> (page \<times> nat) option \<times> physmem" where
  "pgdir_walk_cb ptep va s = (Some ptep, snd s)"

definition pgdir_walk ::
  "numa \<Rightarrow> page \<Rightarrow> nat \<Rightarrow> u64 \<Rightarrow> trav_flags \<Rightarrow> nat \<Rightarrow> physmem \<Rightarrow> (page \<times> nat) option result \<times> physmem"
where
  "pgdir_walk nm pgmap pmlevel va flags pid m =
     (if ULIM \<le> va then (Panic, m)
      else
        (case page_map_traverse_internal nm flags pgdir_walk_cb pid pmlevel pgmap va va 0 (None, m) of
           (Ok _, pte_store, m) \<Rightarrow>
             if PM_TRAV_CREATE flags \<and> pte_store = None then (Err E_INVAL, m) else (Ok pte_store, m)
         | (Err e, _, m) \<Rightarrow> (Err e, m)
         | (Panic, _, m) \<Rightarrow> (Panic, m)))"

definition as_arch_page_invalidate_cb :: "page \<times> nat \<Rightarrow> u64 \<Rightarrow> 'a \<times> physmem \<Rightarrow> 'a \<times> physmem" where
  "as_arch_page_invalidate_cb ptep va s =
     (if pte_present (pm_ent (snd s) (fst ptep) (snd ptep)) then (fst s, set_ent ptep 0 (snd s)) else s)"

definition seg_ptflags :: "u32 \<Rightarrow> u64" where
  "seg_ptflags flags =
     (let ptflags = PTE_P OR PTE_U OR PTE_NX;
          ptflags = (if flags AND SEGMAP_WRITE \<noteq> 0 then ptflags OR PTE_W else ptflags)
      in if flags AND SEGMAP_EXEC \<noteq> 0 then ptflags AND NOT PTE_NX else ptflags)"

definition as_arch_putpage ::
  "numa \<Rightarrow> page \<Rightarrow> u64 \<Rightarrow> page \<Rightarrow> u32 \<Rightarrow> nat \<Rightarrow> physmem \<Rightarrow> unit result \<times> physmem"
where
  "as_arch_putpage nm pgmap va pp flags pid m =
     bind_r (pgdir_walk nm pgmap (if pi_pmap_int (page_to_pageinfo m pgmap) then 1 else NPTLVLS) va
               \<lparr>PM_TRAV_CREATE = True, PM_TRAV_LINK = False\<rparr> pid m) (\<lambda>ptep m.
       case ptep of
         None \<Rightarrow> (Panic, m)
       | Some e \<Rightarrow> (Ok (), set_ent e (page_pa pp OR seg_ptflags flags) m))"

definition as_arch_putinterior ::
  "numa \<Rightarrow> page \<Rightarrow> u64 \<Rightarrow> page \<Rightarrow> nat \<Rightarrow> physmem \<Rightarrow> unit result \<times> physmem"
where
  "as_arch_putinterior nm pgmap va pimap pid m =
     bind_r (pgdir_walk nm pgmap NPTLVLS va \<lparr>PM_TRAV_CREATE = True, PM_TRAV_LINK = True\<rparr> pid m) (\<lambda>ptep m.
       case ptep of
         None \<Rightarrow> (Panic, m)
       | Some e \<Rightarrow>
           (let pte = pm_ent m (fst e) (snd e) in
            if \<not> pte_present pte then (Ok (), set_ent e (page_pa pimap OR PTE_P OR PTE_U OR PTE_W) m)
            else if PTE_ADDR pte = page_pa pimap then (Ok (), m) else (Panic, m)))"

text \<open>The page mapped at an address with its entry, if there is one.\<close>

definition page_lookup :: "numa \<Rightarrow> page \<Rightarrow> u64 \<Rightarrow> physmem \<Rightarrow> (page \<times> u64) option result \<times> physmem" where
  "page_lookup nm pgmap va m =
     (if ULIM \<le> va then (Panic, m)
      else
        (case pgdir_walk nm pgmap NPTLVLS va \<lparr>PM_TRAV_CREATE = False, PM_TRAV_LINK = False\<rparr> 0 m of
           (Ok None, m) \<Rightarrow> (Ok None, m)
         | (Ok (Some e), m) \<Rightarrow>
             (let pte = pm_ent m (fst e) (snd e) in
              (Ok (if pte_present pte then Some (pte_page pte, pte) else None), m))
         | (_, m) \<Rightarrow> (Panic, m)))"

subsection \<open>Physical and kernel addresses\<close>

definition KERNBASE :: u64 where "KERNBASE = 0xffffffff80000000"
definition PHYSBASE :: u64 where "PHYSBASE = 0xffff800000000000"

definition pa2kva :: "u64 \<Rightarrow> u64" where
  "pa2kva pa = pa + PHYSBASE"

text \<open>The address of the linker symbol \<^verbatim>\<open>end\<close> and the number of pages are arguments.\<close>

definition kva2pa :: "u64 \<Rightarrow> u64 \<Rightarrow> u64 \<Rightarrow> u64 result" where
  "kva2pa kern_end global_npages va =
     (if KERNBASE \<le> va \<and> va < kern_end then Ok (va - KERNBASE)
      else if PHYSBASE \<le> va \<and> va < PHYSBASE + push_bit 12 global_npages then Ok (va - PHYSBASE)
      else Panic)"

definition pa2ppn :: "u64 \<Rightarrow> u64 \<Rightarrow> u64 result" where
  "pa2ppn global_npages pa =
     (let pn = drop_bit 12 pa in if global_npages < pn then Panic else Ok pn)"

definition ppn2pa :: "u64 \<Rightarrow> u64 \<Rightarrow> u64 result" where
  "ppn2pa global_npages pn = (if global_npages < pn then Panic else Ok (push_bit 12 pn))"

subsection \<open>Words of entries\<close>

lemma PTE_ADDR_page_pa:
  assumes p: "p < 2 ^ 40" and f: "f AND 0xffffffffff000 = 0"
  shows "PTE_ADDR (page_pa p OR f) = page_pa p"
proof -
  have M: "(0xffffffffff000::u64) = push_bit 12 (mask 40)" by (simp add: push_bit_eq_mult mask_eq_exp_minus_1)
  have "take_bit 40 p = p" using p by (rule take_bit_nat_eq_self)
  then have "of_nat p AND mask 40 = (of_nat p :: u64)" by (metis take_bit_of_nat take_bit_eq_mask)
  then have "page_pa p AND 0xffffffffff000 = page_pa p" unfolding page_pa_def M by (metis push_bit_and)
  with f show ?thesis by (simp add: PTE_ADDR_def bit.conj_disj_distrib2)
qed

lemma unat_page_pa: "p < 2 ^ 40 \<Longrightarrow> unat (page_pa p) = p * 4096"
  by (simp add: page_pa_def push_bit_eq_mult unat_word_ariths unat_of_nat)

lemma pte_page_pa: "p < 2 ^ 40 \<Longrightarrow> f AND 0xffffffffff000 = 0 \<Longrightarrow> pte_page (page_pa p OR f) = p"
  by (simp add: pte_page_def PTE_ADDR_page_pa unat_page_pa drop_bit_eq_div unat_div)

lemma page_pa_low:
  assumes "f AND M = f" "page_pa p AND M = 0"
  shows "(page_pa p OR f) AND M = f"
  using assms by (simp add: bit.conj_disj_distrib2)

lemma page_pa_and_small: "page_pa p AND 0xFFF = 0"
proof -
  have "page_pa p AND 0xFFF = take_bit 12 (page_pa p)" by (simp add: take_bit_eq_mask mask_eq_exp_minus_1)
  also have "\<dots> = 0" by (simp add: page_pa_def take_bit_push_bit)
  finally show ?thesis .
qed

lemma page_pa_and_low:
  assumes "0xFFF AND M = M"
  shows "page_pa p AND M = 0"
proof -
  have "page_pa p AND M = (page_pa p AND 0xFFF) AND M" using assms by (simp only: and.assoc)
  also have "\<dots> = 0" by (simp add: page_pa_and_small)
  finally show ?thesis .
qed

lemma table_entry [simp]:
  "p < 2 ^ 40 \<Longrightarrow> pte_page (page_pa p OR PTE_P OR PTE_U OR PTE_W) = p"
  "(page_pa p OR PTE_P OR PTE_U OR PTE_W) AND PTE_P \<noteq> 0"
  "(page_pa p OR PTE_P OR PTE_U OR PTE_W) AND PTE_PS = 0"
proof -
  show "p < 2 ^ 40 \<Longrightarrow> pte_page (page_pa p OR PTE_P OR PTE_U OR PTE_W) = p"
    by (rule pte_page_pa) (simp_all add: pte_bits)
  have "page_pa p AND PTE_P = 0" "page_pa p AND PTE_PS = 0" by (rule page_pa_and_low; simp add: pte_bits)+
  then show "(page_pa p OR PTE_P OR PTE_U OR PTE_W) AND PTE_P \<noteq> 0"
    "(page_pa p OR PTE_P OR PTE_U OR PTE_W) AND PTE_PS = 0"
    by (simp_all add: bit.conj_disj_distrib2) (simp_all add: pte_bits)
qed

lemma seg_ptflags_cases:
  "seg_ptflags flags \<in> {PTE_P OR PTE_U OR PTE_NX, PTE_P OR PTE_U OR PTE_NX OR PTE_W, PTE_P OR PTE_U, PTE_P OR PTE_U OR PTE_W}"
  by (simp add: seg_ptflags_def Let_def pte_bits)

lemma mapped_entry:
  assumes "p < 2 ^ 40"
  shows "pte_page (page_pa p OR seg_ptflags flags) = p" "(page_pa p OR seg_ptflags flags) AND PTE_P \<noteq> 0"
proof -
  show "pte_page (page_pa p OR seg_ptflags flags) = p"
    using assms seg_ptflags_cases [of flags] by (intro pte_page_pa) (auto simp: pte_bits)
  have "page_pa p AND PTE_P = 0" by (rule page_pa_and_low) (simp add: pte_bits)
  then show "(page_pa p OR seg_ptflags flags) AND PTE_P \<noteq> 0"
    using seg_ptflags_cases [of flags] by (auto simp: bit.conj_disj_distrib2 pte_bits)
qed

lemma PDX_nat: "PDX n va = unat va div 2 ^ PDSHIFT n mod 512"
proof -
  have "drop_bit (PDSHIFT n) va AND 0x1FF = take_bit 9 (drop_bit (PDSHIFT n) va)"
    by (simp add: take_bit_eq_mask mask_eq_exp_minus_1)
  then have "PDX n va = take_bit 9 (drop_bit (PDSHIFT n) (unat va))"
    unfolding PDX_def using take_bit_nat_eq_self [OF unsigned_less [of va]]
    by (simp only: unsigned_take_bit_eq unsigned_drop_bit_eq)
  then show ?thesis by (simp add: take_bit_eq_mod drop_bit_eq_div)
qed

lemma PDX_less [simp]: "PDX n va < 512"
  by (simp add: PDX_nat)

subsection \<open>The tree of a page map\<close>

fun node :: "physmem \<Rightarrow> page \<Rightarrow> nat list \<Rightarrow> page option" where
  "node m p [] = Some p"
| "node m p (i # is) = (if pte_present (pm_ent m p i) then node m (pte_page (pm_ent m p i)) is else None)"

primrec vpath :: "nat \<Rightarrow> u64 \<Rightarrow> nat list" where
  "vpath 0 va = []"
| "vpath (Suc l) va = PDX (Suc l) va # vpath l va"

text \<open>The entry that maps an address below a map of level \<open>L\<close>.\<close>

definition mapping :: "physmem \<Rightarrow> page \<Rightarrow> nat \<Rightarrow> u64 \<Rightarrow> u64 option" where
  "mapping m p L va =
     (case node m p (vpath L va) of
        None \<Rightarrow> None
      | Some q \<Rightarrow> if pte_present (pm_ent m q (PDX 0 va)) then Some (pm_ent m q (PDX 0 va)) else None)"

text \<open>The paths through the user half of a root map.\<close>

definition ok_path :: "nat \<Rightarrow> nat list \<Rightarrow> bool" where
  "ok_path L \<pi> \<longleftrightarrow> length \<pi> \<le> L \<and> (\<forall>i\<in>set \<pi>. i < 512) \<and> (L = NPTLVLS \<and> \<pi> \<noteq> [] \<longrightarrow> hd \<pi> < 256)"

definition nodes :: "physmem \<Rightarrow> page \<Rightarrow> nat \<Rightarrow> page set" where
  "nodes m p L = {q. \<exists>\<pi>. ok_path L \<pi> \<and> node m p \<pi> = Some q}"

text \<open>No table is reached twice, and there are no large pages.\<close>

definition pm_tree :: "physmem \<Rightarrow> page \<Rightarrow> nat \<Rightarrow> bool" where
  "pm_tree m p L \<longleftrightarrow>
     (\<forall>\<pi> \<rho> q. ok_path L \<pi> \<and> ok_path L \<rho> \<and> node m p \<pi> = Some q \<and> node m p \<rho> = Some q \<longrightarrow> \<pi> = \<rho>) \<and>
     (\<forall>\<pi> q. ok_path L \<pi> \<and> node m p \<pi> = Some q \<longrightarrow> length (page_words m q) = 512) \<and>
     (\<forall>\<pi> q i. ok_path L \<pi> \<and> Suc (length \<pi>) = L \<and> node m p \<pi> = Some q \<and> i < 512 \<longrightarrow> pm_ent m q i AND PTE_PS = 0)"

lemma length_vpath [simp]: "length (vpath L va) = L"
  by (induction L) auto

lemma hd_vpath: "0 < L \<Longrightarrow> hd (vpath L va) = PDX L va"
  by (cases L) auto

lemma vpath_less: "i \<in> set (vpath L va) \<Longrightarrow> i < 512"
  by (induction L) auto

lemma vpath_nth: "k < L \<Longrightarrow> vpath L va ! k = PDX (L - k) va"
proof (induction L arbitrary: k)
  case (Suc L)
  then show ?case by (cases k) auto
qed simp

lemma node_append: "node m p (\<pi> @ \<rho>) = (case node m p \<pi> of None \<Rightarrow> None | Some q \<Rightarrow> node m q \<rho>)"
  by (induction \<pi> arbitrary: p) auto

lemma node_cong:
  assumes "\<And>k q. k < length \<rho> \<Longrightarrow> node m p (take k \<rho>) = Some q \<Longrightarrow> pm_ent m' q (\<rho> ! k) = pm_ent m q (\<rho> ! k)"
  shows "node m' p \<rho> = node m p \<rho>"
  using assms
proof (induction \<rho> arbitrary: p)
  case (Cons i \<rho>)
  have e: "pm_ent m' p i = pm_ent m p i" using Cons.prems [of 0] by simp
  show ?case
  proof (cases "pte_present (pm_ent m p i)")
    case True
    have "node m' (pte_page (pm_ent m p i)) \<rho> = node m (pte_page (pm_ent m p i)) \<rho>"
      using Cons.prems [of "Suc k" for k] True by (intro Cons.IH) simp
    with True e show ?thesis by simp
  next
    case False
    with e show ?thesis by simp
  qed
qed simp

lemma ok_path_prefix: "ok_path L (\<pi> @ \<rho>) \<Longrightarrow> ok_path L \<pi>"
  by (cases \<pi>) (auto simp: ok_path_def)

lemma ok_path_take: "ok_path L \<rho> \<Longrightarrow> ok_path L (take k \<rho>)"
  using ok_path_prefix [of L "take k \<rho>" "drop k \<rho>"] by simp

lemma ok_path_vpath: "va < ULIM \<Longrightarrow> ok_path L (vpath L va)"
proof -
  assume va: "va < ULIM"
  have "unat va < 2 ^ 47" using va by (simp add: word_less_nat_alt ULIM_def)
  then have "PDX 3 va < 256"
    by (simp add: PDX_nat PDSHIFT_def order_le_less_trans [OF mod_less_eq_dividend] less_mult_imp_div_less)
  then show ?thesis by (simp add: ok_path_def vpath_less NPTLVLS_def hd_vpath)
qed

lemma ok_path_snoc: "ok_path L (vpath L va) \<Longrightarrow> k < L \<Longrightarrow> ok_path L (take k (vpath L va) @ [PDX (L - k) va])"
  using ok_path_take [of L "vpath L va" "Suc k"] by (simp add: take_Suc_conv_app_nth vpath_nth)

lemma nodes_I: "ok_path L \<pi> \<Longrightarrow> node m p \<pi> = Some q \<Longrightarrow> q \<in> nodes m p L"
  by (auto simp: nodes_def)

lemma pm_ent_set_ent:
  "pm_ent (set_ent (q, i) v m) q' j = (if q' = q \<and> j = i \<and> i < length (page_words m q) then v else pm_ent m q' j)"
  by (cases "i < length (page_words m q)") (auto simp: pm_ent_def set_ent_def nth_list_update list_update_beyond)

lemma pm_ent_page_zero: "j < 512 \<Longrightarrow> pm_ent (page_zero r m) q j = (if q = r then 0 else pm_ent m q j)"
  by (simp add: pm_ent_def page_zero_def)

lemma words_page_zero [simp]: "page_words (page_zero r m) q = (if q = r then replicate 512 0 else page_words m q)"
  by (simp add: page_zero_def)

lemma length_words_set_ent [simp]: "length (page_words (set_ent e v m) q) = length (page_words m q)"
  by (simp add: set_ent_def)

lemma set_ent_frame: "q \<noteq> fst e \<Longrightarrow> page_words (set_ent e v m) q = page_words m q"
  by (simp add: set_ent_def)

lemma mem_inv_set_ent [simp]: "mem_inv nm P (set_ent e v m) R H I = mem_inv nm P m R H I"
  by (simp add: set_ent_def)

lemma free_pages_set_ent [simp]: "free_pages (set_ent e v m) = free_pages m" "free_pages (page_zero r m) = free_pages m"
  by (simp_all add: set_ent_def page_zero_def free_pages_def)

lemma pm_words_cong:
  assumes "page_words m' = page_words m"
  shows "node m' = node m" "mapping m' = mapping m" "nodes m' = nodes m" "pm_tree m' = pm_tree m" "pm_ent m' = pm_ent m"
proof -
  show e: "pm_ent m' = pm_ent m" using assms by (simp add: pm_ent_def fun_eq_iff)
  have "node m' p \<rho> = node m p \<rho>" for p \<rho> using e by (intro node_cong) simp
  then show n: "node m' = node m" by (intro ext)
  show "mapping m' = mapping m" "nodes m' = nodes m" "pm_tree m' = pm_tree m"
    unfolding mapping_def [abs_def] nodes_def [abs_def] pm_tree_def [abs_def] e n assms by (rule refl)+
qed

subsubsection \<open>Adding a table\<close>

lemma install_table:
  fixes m :: physmem
  assumes tree: "pm_tree m p L" and ok: "ok_path L (\<pi> @ [i])" and q: "node m p \<pi> = Some q"
    and np: "\<not> pte_present (pm_ent m q i)" and r: "r \<notin> nodes m p L" "r < 2 ^ 40"
    and m': "m' = set_ent (q, i) (page_pa r OR PTE_P OR PTE_U OR PTE_W) (page_zero r m)"
  shows install_node: "ok_path L \<rho> \<Longrightarrow> node m' p \<rho> = (if \<rho> = \<pi> @ [i] then Some r else node m p \<rho>)"
    and install_tree: "pm_tree m' p L"
    and install_nodes: "nodes m' p L = insert r (nodes m p L)"
    and install_mapping: "va < ULIM \<Longrightarrow> mapping m' p L va = mapping m p L va"
proof -
  have inj: "ok_path L \<pi> \<Longrightarrow> ok_path L \<rho> \<Longrightarrow> node m p \<pi> = Some x \<Longrightarrow> node m p \<rho> = Some x \<Longrightarrow> \<pi> = \<rho>" for \<pi> \<rho> x
    using tree by (auto simp: pm_tree_def)
  have ok\<pi>: "ok_path L \<pi>" and i: "i < 512" using ok ok_path_prefix by (auto simp: ok_path_def)
  have qn: "q \<in> nodes m p L" using ok\<pi> q by (rule nodes_I)
  have qr: "q \<noteq> r" using qn r by auto
  have len: "length (page_words m q) = 512" using tree ok\<pi> q by (auto simp: pm_tree_def)
  have ent: "pm_ent m' x j = (if x = r then 0 else if x = q \<and> j = i then page_pa r OR PTE_P OR PTE_U OR PTE_W else pm_ent m x j)"
    if "j < 512" for x j
    using that i qr len by (simp add: m' pm_ent_set_ent pm_ent_page_zero)
  have out: "node m' p \<rho> = node m p \<rho>" if ok\<rho>: "ok_path L \<rho>" and no: "\<And>\<sigma>. \<rho> \<noteq> \<pi> @ i # \<sigma>" for \<rho>
  proof (rule node_cong)
    fix k x
    assume k: "k < length \<rho>" and x: "node m p (take k \<rho>) = Some x"
    have okk: "ok_path L (take k \<rho>)" using ok\<rho> by (rule ok_path_take)
    have "\<not> (x = q \<and> \<rho> ! k = i)"
    proof
      assume *: "x = q \<and> \<rho> ! k = i"
      then have "take k \<rho> = \<pi>" using inj [OF okk ok\<pi> x] q by simp
      with * k no [of "drop (Suc k) \<rho>"] show False by (metis id_take_nth_drop)
    qed
    moreover have "x \<noteq> r" using nodes_I [OF okk x] r by auto
    moreover have "\<rho> ! k < 512" using ok\<rho> k by (auto simp: ok_path_def)
    ultimately show "pm_ent m' x (\<rho> ! k) = pm_ent m x (\<rho> ! k)" by (auto simp: ent)
  qed
  have q': "node m' p \<pi> = Some q" using out [OF ok\<pi>] q by simp
  show nd: "node m' p \<rho> = (if \<rho> = \<pi> @ [i] then Some r else node m p \<rho>)" if ok\<rho>: "ok_path L \<rho>" for \<rho>
  proof (cases "\<exists>\<sigma>. \<rho> = \<pi> @ i # \<sigma>")
    case True
    then obtain \<sigma> where \<sigma>: "\<rho> = \<pi> @ i # \<sigma>" by blast
    have "node m p \<rho> = None" using q np by (simp add: \<sigma> node_append)
    moreover have "node m' p \<rho> = node m' r \<sigma>" using q' r qr i by (simp add: \<sigma> node_append ent)
    moreover have "node m' r (j # \<tau>) = None" if "\<sigma> = j # \<tau>" for j \<tau>
      using ok\<rho> that by (simp add: \<sigma> ok_path_def ent)
    ultimately show ?thesis by (cases \<sigma>) (auto simp: \<sigma>)
  next
    case False
    with out [OF ok\<rho>] show ?thesis by auto
  qed
  show nds: "nodes m' p L = insert r (nodes m p L)"
  proof (intro set_eqI iffI)
    fix x
    assume "x \<in> nodes m' p L"
    then show "x \<in> insert r (nodes m p L)" using nd by (auto simp: nodes_def split: if_splits)
  next
    fix x
    assume "x \<in> insert r (nodes m p L)"
    then consider "x = r" | \<rho> where "ok_path L \<rho>" "node m p \<rho> = Some x" by (auto simp: nodes_def)
    then show "x \<in> nodes m' p L"
    proof cases
      case 2
      moreover have "\<rho> \<noteq> \<pi> @ [i]" using 2 q np by (auto simp: node_append)
      ultimately show ?thesis using nd [of \<rho>] by (auto intro: nodes_I)
    qed (use nd [OF ok] ok in \<open>auto intro: nodes_I\<close>)
  qed
  show "pm_tree m' p L"
    unfolding pm_tree_def
  proof (intro conjI allI impI)
    fix \<tau> \<rho> x
    assume "ok_path L \<tau> \<and> ok_path L \<rho> \<and> node m' p \<tau> = Some x \<and> node m' p \<rho> = Some x"
    then show "\<tau> = \<rho>" using nd inj nodes_I r by (metis option.inject)
  next
    fix \<tau> x
    assume "ok_path L \<tau> \<and> node m' p \<tau> = Some x"
    then have "x = r \<or> ok_path L \<tau> \<and> node m p \<tau> = Some x" using nd by (auto split: if_splits)
    then show "length (page_words m' x) = 512" using tree by (auto simp: m' pm_tree_def)
  next
    fix \<tau> x and j :: nat
    assume "ok_path L \<tau> \<and> Suc (length \<tau>) = L \<and> node m' p \<tau> = Some x \<and> j < 512"
    moreover from this have "x = r \<or> node m p \<tau> = Some x" using nd by (auto split: if_splits)
    ultimately show "pm_ent m' x j AND PTE_PS = 0" using tree by (auto simp: ent pm_tree_def)
  qed
  show "mapping m' p L va = mapping m p L va" if va: "va < ULIM" for va
  proof -
    have okv: "ok_path L (vpath L va)" using va by (rule ok_path_vpath)
    show ?thesis
    proof (cases "vpath L va = \<pi> @ [i]")
      case True
      then show ?thesis using nd [OF okv] q np by (simp add: mapping_def node_append ent)
    next
      case False
      have "x \<noteq> r \<and> x \<noteq> q" if "node m p (vpath L va) = Some x" for x
      proof
        show "x \<noteq> r" using nodes_I [OF okv that] r by auto
        have "length \<pi> < L" using ok by (simp add: ok_path_def)
        then show "x \<noteq> q" using inj [OF okv ok\<pi> that] q by auto
      qed
      then show ?thesis using False nd [OF okv] by (auto simp: mapping_def ent split: option.splits)
    qed
  qed
qed

subsubsection \<open>Walking with creation\<close>

text \<open>
  What a walk does to the tree: it may add tables, taken from the free pages, and changes no
  mapping.
\<close>

definition pm_ext ::
  "numa \<Rightarrow> page set \<Rightarrow> page multiset \<Rightarrow> page multiset \<Rightarrow> page \<Rightarrow> nat \<Rightarrow> page multiset \<Rightarrow> physmem \<Rightarrow>
   page multiset \<Rightarrow> physmem \<Rightarrow> bool"
where
  "pm_ext nm P R H p L I m I' m' \<longleftrightarrow>
     pm_tree m' p L \<and> mem_inv nm P m' R H I' \<and> nodes m' p L \<inter> free_pages m' = {} \<and>
     (\<forall>va. va < ULIM \<longrightarrow> mapping m' p L va = mapping m p L va) \<and>
     free_pages m' \<subseteq> free_pages m \<and> I \<subseteq># I' \<and> nodes m' p L = nodes m p L \<union> set_mset (I' - I) \<and>
     (\<forall>x. x \<notin> nodes m p L \<union> free_pages m \<longrightarrow> page_words m' x = page_words m x)"

lemma pm_ext_refl:
  "pm_tree m p L \<Longrightarrow> mem_inv nm P m R H I \<Longrightarrow> nodes m p L \<inter> free_pages m = {} \<Longrightarrow> pm_ext nm P R H p L I m I m"
  by (simp add: pm_ext_def)

lemma pm_ext_trans:
  assumes "pm_ext nm P R H p L I m I' m'" and "pm_ext nm P R H p L I' m' I'' m''"
    and "set_mset (I' - I) \<subseteq> free_pages m"
  shows "pm_ext nm P R H p L I m I'' m''"
proof -
  have s: "I \<subseteq># I'" "I' \<subseteq># I''" using assms by (auto simp: pm_ext_def)
  then have "I'' - I = (I'' - I') + (I' - I)" by (simp add: multiset_eq_iff subseteq_mset_def)
  then have "set_mset (I'' - I) = set_mset (I'' - I') \<union> set_mset (I' - I)" by simp
  moreover have "nodes m' p L \<subseteq> nodes m p L \<union> free_pages m" using assms by (auto simp: pm_ext_def)
  ultimately show ?thesis
    using assms s unfolding pm_ext_def
    by (auto intro: subset_mset.order_trans)
qed

lemma pm_ext_install:
  assumes tree: "pm_tree m p L" and inv: "mem_inv nm P m R H I" and nf: "nodes m p L \<inter> free_pages m = {}"
    and ok: "ok_path L (\<pi> @ [i])" and q: "node m p \<pi> = Some q" and np: "\<not> pte_present (pm_ent m q i)"
    and inv1: "mem_inv nm P m1 R H (add_mset r I)" and r: "r \<in> free_pages m" "r < 2 ^ 40"
    and free1: "free_pages m1 = free_pages m - {r}" and w1: "page_words m1 = page_words m"
    and m': "m' = set_ent (q, i) (page_pa r OR PTE_P OR PTE_U OR PTE_W) (page_zero r m1)"
  shows "pm_ext nm P R H p L I m (add_mset r I) m'" "node m' p (\<pi> @ [i]) = Some r"
proof -
  note c = pm_words_cong [OF w1]
  have rn: "r \<notin> nodes m1 p L" using nf r c by auto
  have t1: "pm_tree m1 p L" and q1: "node m1 p \<pi> = Some q" and np1: "\<not> pte_present (pm_ent m1 q i)"
    using tree q np c by auto
  note ins = install_table [OF t1 ok q1 np1 rn r(2) m']
  have qn: "q \<in> nodes m p L" using ok_path_prefix [OF ok] q by (rule nodes_I)
  have "page_words m' x = page_words m x" if "x \<notin> nodes m p L \<union> free_pages m" for x
    using that r(1) qn w1 by (auto simp: m' set_ent_def)
  moreover have "\<forall>va. va < ULIM \<longrightarrow> mapping m' p L va = mapping m p L va" using ins(4) c by simp
  moreover have "mem_inv nm P m' R H (add_mset r I)" "free_pages m' = free_pages m - {r}"
    using inv1 free1 by (simp_all add: m')
  moreover have "nodes m' p L = insert r (nodes m p L)" using ins(3) c by simp
  ultimately show "pm_ext nm P R H p L I m (add_mset r I) m'"
    using ins(2) nf unfolding pm_ext_def by auto
  show "node m' p (\<pi> @ [i]) = Some r" using ins(1) [OF ok] by simp
qed

lemma idx_loop_one: "idx_loop f i (Suc 0) s = f i s"
proof -
  have "bind_r rs (\<lambda>_. idx_loop f (Suc i) 0) = rs" for rs by (cases rs; cases "fst rs") auto
  then show ?thesis by simp
qed

abbreviation create_flags :: trav_flags where
  "create_flags \<equiv> \<lparr>PM_TRAV_CREATE = True, PM_TRAV_LINK = False\<rparr>"

lemma walk_create:
  assumes "pm_tree m p L" "mem_inv nm P m R H I" "nodes m p L \<inter> free_pages m = {}"
    and P: "P \<subseteq> {..<2 ^ 40}" and va: "va < ULIM"
    and "l \<le> L" "node m p (take (L - l) (vpath L va)) = Some q"
  shows "\<exists>r a m' I'.
     page_map_traverse_internal nm create_flags pgdir_walk_cb pid l q va va base (None, m) = (r, a, m') \<and>
     pm_ext nm P R H p L I m I' m' \<and> set_mset (I' - I) \<subseteq> free_pages m \<and>
     (r = Ok () \<and> (\<exists>x. node m' p (vpath L va) = Some x \<and> a = Some (x, PDX 0 va)) \<or>
      r = Err E_NO_MEM \<and> free_pages m' = {})"
  using assms
proof (induction l arbitrary: m q I base)
  case 0
  then show ?case
    by (intro exI [of _ "Ok ()"] exI [of _ "Some (q, PDX 0 va)"] exI [of _ m] exI [of _ I])
      (simp add: idx_loop_one pgdir_walk_cb_def pm_ext_refl Let_def)
next
  case (Suc l)
  let ?\<pi> = "take (L - Suc l) (vpath L va)" and ?i = "PDX (Suc l) va"
  note okv = ok_path_vpath [OF va, of L]
  have snoc: "take (L - l) (vpath L va) = ?\<pi> @ [?i]"
    using Suc.prems(6) by (simp add: Suc_diff_Suc [symmetric, of l L] take_Suc_conv_app_nth vpath_nth)
  have ok: "ok_path L (?\<pi> @ [?i])" using ok_path_take [OF okv, of "L - l"] by (simp add: snoc)
  have q: "node m p ?\<pi> = Some q" using Suc.prems by simp
  have ps: "\<not> (Suc l = 1 \<and> pm_ent m q ?i AND PTE_PS \<noteq> 0)"
  proof
    assume *: "Suc l = 1 \<and> pm_ent m q ?i AND PTE_PS \<noteq> 0"
    then have "Suc (length ?\<pi>) = L" using Suc.prems(6) by simp
    then have "pm_ent m q ?i AND PTE_PS = 0"
      using Suc.prems(1) q ok_path_take [OF okv, of "L - Suc l"] PDX_less unfolding pm_tree_def by blast
    with * show False by simp
  qed
  let ?T = "page_map_traverse_internal nm create_flags pgdir_walk_cb pid"
  have lL: "l \<le> L" using Suc.prems(6) by simp
  have one: "PDX (Suc l) va + 1 - PDX (Suc l) va = Suc 0" by simp
  have unf: "?T (Suc l) q va va base (None, m) =
     (case (if pte_present (pm_ent m q ?i) then (Ok (pte_page (pm_ent m q ?i)), m)
            else bind_r (page_alloc nm pid m) (\<lambda>p m.
              (Ok (pte_page (page_pa p OR PTE_P OR PTE_U OR PTE_W)),
               set_ent (q, ?i) (page_pa p OR PTE_P OR PTE_U OR PTE_W) (page_zero p m))))
      of (Ok n, m) \<Rightarrow> ?T l n va va (base + push_bit (PDSHIFT (Suc l)) (of_nat ?i)) (None, m)
       | (Err e, m) \<Rightarrow> (Err e, None, m) | (Panic, m) \<Rightarrow> (Panic, None, m))"
    unfolding page_map_traverse_internal.simps(2) Let_def one idx_loop_one prod.case if_not_P [OF ps] by simp
  show ?case
  proof (cases "pte_present (pm_ent m q ?i)")
    case True
    then have "node m p (take (L - l) (vpath L va)) = Some (pte_page (pm_ent m q ?i))"
      by (simp add: snoc node_append q)
    from Suc.IH [OF Suc.prems(1,2,3,4,5) _ this] Suc.prems(6) True show ?thesis by (simp only: unf) simp
  next
    case False
    from Suc.prems(2) show ?thesis
    proof (rule page_alloc_ok [where pid = pid])
      fix r m1
      assume a: "page_alloc nm pid m = (Ok r, m1)" "mem_inv nm P m1 R H (add_mset r I)" "r \<in> free_pages m"
        "free_pages m1 = free_pages m - {r}" "page_words m1 = page_words m"
      have r40: "r < 2 ^ 40" using a(3) Suc.prems(2) P by (auto simp: mem_inv_def owned_ok_def)
      define m2 where "m2 = set_ent (q, ?i) (page_pa r OR PTE_P OR PTE_U OR PTE_W) (page_zero r m1)"
      have e: "pm_ext nm P R H p L I m (add_mset r I) m2" and n: "node m2 p (take (L - l) (vpath L va)) = Some r"
        using pm_ext_install [OF Suc.prems(1,2,3) ok q False a(2) a(3) r40 a(4,5) m2_def] by (simp_all add: snoc)
      from e have e': "pm_tree m2 p L" "mem_inv nm P m2 R H (add_mset r I)" "nodes m2 p L \<inter> free_pages m2 = {}"
        "free_pages m2 \<subseteq> free_pages m" by (auto simp: pm_ext_def)
      obtain rr a' m' I' where ih: "?T l r va va (base + push_bit (PDSHIFT (Suc l)) (of_nat ?i)) (None, m2) = (rr, a', m')"
        "pm_ext nm P R H p L (add_mset r I) m2 I' m'" "set_mset (I' - add_mset r I) \<subseteq> free_pages m2"
        "rr = Ok () \<and> (\<exists>x. node m' p (vpath L va) = Some x \<and> a' = Some (x, PDX 0 va)) \<or>
         rr = Err E_NO_MEM \<and> free_pages m' = {}"
        using Suc.IH [OF e'(1,2,3) P va lL n, of "base + push_bit (PDSHIFT (Suc l)) (of_nat ?i)"] by blast
      have "pm_ext nm P R H p L I m I' m'" using pm_ext_trans [OF e ih(2)] a(3) by simp
      moreover have "set_mset (I' - I) \<subseteq> free_pages m"
      proof -
        have "set_mset (I' - I) \<subseteq> insert r (set_mset (I' - add_mset r I))"
          by (auto simp: in_diff_count split: if_splits)
        then show ?thesis using ih(3) e'(4) a(3) by auto
      qed
      ultimately show ?thesis
        using ih(1,4) False a(1) r40 by (simp only: unf) (auto simp: m2_def)
    next
      assume a: "page_alloc nm pid m = (Err E_NO_MEM, m\<lparr>page_failures := page_failures m + 1\<rparr>)" "free_pages m = {}"
      let ?m = "m\<lparr>page_failures := page_failures m + 1\<rparr>"
      have w: "page_words ?m = page_words m" by simp
      have "pm_ext nm P R H p L I m I ?m"
        using Suc.prems(1,2,3) by (simp add: pm_ext_def pm_words_cong [OF w])
      with a False show ?thesis by (simp only: unf) (auto intro!: exI [of _ I])
    qed
  qed
qed

subsubsection \<open>Writing the entry of a page and looking it up\<close>

lemma set_leaf:
  assumes tree: "pm_tree m p L" and x: "node m p (vpath L va) = Some x" and va: "va < ULIM"
    and m': "m' = set_ent (x, PDX 0 va) e m"
  shows leaf_node: "ok_path L \<rho> \<Longrightarrow> node m' p \<rho> = node m p \<rho>"
    and leaf_tree: "pm_tree m' p L" and leaf_nodes: "nodes m' p L = nodes m p L"
    and leaf_mapping: "va' < ULIM \<Longrightarrow> mapping m' p L va' =
      (if vpath L va' = vpath L va \<and> PDX 0 va' = PDX 0 va then (if pte_present e then Some e else None)
       else mapping m p L va')"
proof -
  have inj: "ok_path L \<pi> \<Longrightarrow> ok_path L \<rho> \<Longrightarrow> node m p \<pi> = Some x \<Longrightarrow> node m p \<rho> = Some x \<Longrightarrow> \<pi> = \<rho>" for \<pi> \<rho> x
    using tree by (auto simp: pm_tree_def)
  note okv = ok_path_vpath [OF va, of L]
  have ent: "pm_ent m' y j = (if y = x \<and> j = PDX 0 va then e else pm_ent m y j)" for y j
    using tree okv x by (auto simp: m' pm_ent_set_ent pm_tree_def)
  show nd: "node m' p \<rho> = node m p \<rho>" if ok: "ok_path L \<rho>" for \<rho>
  proof (rule node_cong)
    fix k y
    assume k: "k < length \<rho>" and y: "node m p (take k \<rho>) = Some y"
    have "length (take k \<rho>) < L" using k ok by (simp add: ok_path_def)
    then have "y \<noteq> x" using inj [OF ok_path_take [OF ok] okv y] x by (metis length_vpath less_irrefl)
    then show "pm_ent m' y (\<rho> ! k) = pm_ent m y (\<rho> ! k)" by (simp add: ent)
  qed
  show "nodes m' p L = nodes m p L" using nd by (auto simp: nodes_def)
  show "pm_tree m' p L"
    unfolding pm_tree_def
  proof (intro conjI allI impI)
    fix \<tau> \<rho> y
    assume "ok_path L \<tau> \<and> ok_path L \<rho> \<and> node m' p \<tau> = Some y \<and> node m' p \<rho> = Some y"
    then show "\<tau> = \<rho>" using nd inj by metis
  next
    fix \<tau> y
    assume "ok_path L \<tau> \<and> node m' p \<tau> = Some y"
    then have "ok_path L \<tau> \<and> node m p \<tau> = Some y" using nd [of \<tau>] by auto
    then have "length (page_words m y) = 512" using tree unfolding pm_tree_def by blast
    then show "length (page_words m' y) = 512" by (simp add: m')
  next
    fix \<tau> y and j :: nat
    assume *: "ok_path L \<tau> \<and> Suc (length \<tau>) = L \<and> node m' p \<tau> = Some y \<and> j < 512"
    then have "\<tau> \<noteq> vpath L va" by (metis length_vpath n_not_Suc_n)
    then have "y \<noteq> x" using * inj [of \<tau> "vpath L va"] okv nd [of \<tau>] x by metis
    moreover have "pm_ent m y j AND PTE_PS = 0" using * tree nd unfolding pm_tree_def by metis
    ultimately show "pm_ent m' y j AND PTE_PS = 0" by (simp add: ent)
  qed
  show "mapping m' p L va' =
      (if vpath L va' = vpath L va \<and> PDX 0 va' = PDX 0 va then (if pte_present e then Some e else None)
       else mapping m p L va')" if "va' < ULIM" for va'
  proof (cases "node m p (vpath L va')")
    case (Some y)
    have okv': "ok_path L (vpath L va')" using that by (rule ok_path_vpath)
    have "y = x \<longleftrightarrow> vpath L va' = vpath L va" using inj [OF okv' okv] Some x by auto
    then show ?thesis using Some nd [OF okv'] by (auto simp: mapping_def ent)
  next
    case None
    have okv': "ok_path L (vpath L va')" using that by (rule ok_path_vpath)
    show ?thesis using None nd [OF okv'] x by (auto simp: mapping_def)
  qed
qed

lemma as_arch_putpage_ok:
  assumes tree: "pm_tree m p L" and inv: "mem_inv nm P m R H I" and nf: "nodes m p L \<inter> free_pages m = {}"
    and P: "P \<subseteq> {..<2 ^ 40}" and va: "va < ULIM"
    and L: "L = (if pi_pmap_int (page_infos m p) then 1 else NPTLVLS)" and pp: "pp < 2 ^ 40"
  obtains m' I' where "as_arch_putpage nm p va pp flags pid m = (Ok (), m')"
      "mem_inv nm P m' R H I'" "I \<subseteq># I'" "pm_tree m' p L" "nodes m' p L \<inter> free_pages m' = {}"
      "nodes m' p L = nodes m p L \<union> set_mset (I' - I)"
      "\<And>va'. va' < ULIM \<Longrightarrow> mapping m' p L va' =
         (if vpath L va' = vpath L va \<and> PDX 0 va' = PDX 0 va then Some (page_pa pp OR seg_ptflags flags)
          else mapping m p L va')"
  | m' I' where "as_arch_putpage nm p va pp flags pid m = (Err E_NO_MEM, m')" "free_pages m' = {}"
      "pm_ext nm P R H p L I m I' m'"
proof -
  have "node m p (take (L - L) (vpath L va)) = Some p" by simp
  from walk_create [OF tree inv nf P va order_refl this, of pid 0]
  obtain r a m1 I1 where w: "page_map_traverse_internal nm create_flags pgdir_walk_cb pid L p va va 0 (None, m) = (r, a, m1)"
    "pm_ext nm P R H p L I m I1 m1"
    "r = Ok () \<and> (\<exists>x. node m1 p (vpath L va) = Some x \<and> a = Some (x, PDX 0 va)) \<or> r = Err E_NO_MEM \<and> free_pages m1 = {}"
    by blast
  have walk: "pgdir_walk nm p L va create_flags pid m =
     (case r of Ok _ \<Rightarrow> if a = None then (Err E_INVAL, m1) else (Ok a, m1) | Err e \<Rightarrow> (Err e, m1) | Panic \<Rightarrow> (Panic, m1))"
    using va w(1) by (simp add: pgdir_walk_def not_le split: result.splits)
  from w(3) show thesis
  proof
    assume "r = Err E_NO_MEM \<and> free_pages m1 = {}"
    with walk w(2) show thesis by (intro that(2) [of m1 I1]) (simp_all add: as_arch_putpage_def page_to_pageinfo_def L)
  next
    assume "r = Ok () \<and> (\<exists>x. node m1 p (vpath L va) = Some x \<and> a = Some (x, PDX 0 va))"
    then obtain x where x: "r = Ok ()" "node m1 p (vpath L va) = Some x" "a = Some (x, PDX 0 va)" by blast
    let ?e = "page_pa pp OR seg_ptflags flags"
    define m' where "m' = set_ent (x, PDX 0 va) ?e m1"
    have e: "pm_tree m1 p L" "mem_inv nm P m1 R H I1" "nodes m1 p L \<inter> free_pages m1 = {}" "I \<subseteq># I1"
      "nodes m1 p L = nodes m p L \<union> set_mset (I1 - I)" "\<And>va'. va' < ULIM \<Longrightarrow> mapping m1 p L va' = mapping m p L va'"
      using w(2) by (auto simp: pm_ext_def)
    note leaf = set_leaf [OF e(1) x(2) va m'_def]
    have put: "as_arch_putpage nm p va pp flags pid m = (Ok (), m')"
      using walk x by (simp add: as_arch_putpage_def page_to_pageinfo_def L m'_def)
    show thesis
      using e leaf(2,3) mapped_entry(2) [OF pp] leaf(4)
      by (intro that(1) [OF put, of I1]) (simp_all add: m'_def)
  qed
qed

abbreviation lookup_flags :: trav_flags where
  "lookup_flags \<equiv> \<lparr>PM_TRAV_CREATE = False, PM_TRAV_LINK = False\<rparr>"

lemma walk_lookup:
  assumes tree: "pm_tree m p L" and va: "va < ULIM"
    and "l \<le> L" "node m p (take (L - l) (vpath L va)) = Some q"
  shows "page_map_traverse_internal nm lookup_flags pgdir_walk_cb pid l q va va base (None, m) =
     (Ok (), case node m p (vpath L va) of
        None \<Rightarrow> None
      | Some x \<Rightarrow> if pte_present (pm_ent m x (PDX 0 va)) then Some (x, PDX 0 va) else None, m)"
  using assms(3,4)
proof (induction l arbitrary: q base)
  case 0
  have one: "PDX 0 va + 1 - PDX 0 va = Suc 0" by simp
  show ?case
    unfolding page_map_traverse_internal.simps(1) Let_def one idx_loop_one prod.case
    using 0 by (simp add: pgdir_walk_cb_def)
next
  case (Suc l)
  let ?\<pi> = "take (L - Suc l) (vpath L va)" and ?i = "PDX (Suc l) va"
  note okv = ok_path_vpath [OF va, of L]
  have snoc: "take (L - l) (vpath L va) = ?\<pi> @ [?i]"
    using Suc.prems(1) by (simp add: Suc_diff_Suc [symmetric, of l L] take_Suc_conv_app_nth vpath_nth)
  have ps: "\<not> (Suc l = 1 \<and> pm_ent m q ?i AND PTE_PS \<noteq> 0)"
  proof
    assume *: "Suc l = 1 \<and> pm_ent m q ?i AND PTE_PS \<noteq> 0"
    then have "Suc (length ?\<pi>) = L" using Suc.prems(1) by simp
    then have "pm_ent m q ?i AND PTE_PS = 0"
      using tree Suc.prems(2) ok_path_take [OF okv, of "L - Suc l"] PDX_less unfolding pm_tree_def by blast
    with * show False by simp
  qed
  have one: "PDX (Suc l) va + 1 - PDX (Suc l) va = Suc 0" by simp
  note unf = page_map_traverse_internal.simps(2) Let_def one idx_loop_one prod.case if_not_P [OF ps]
  show ?case
  proof (cases "pte_present (pm_ent m q ?i)")
    case True
    then have "node m p (take (L - l) (vpath L va)) = Some (pte_page (pm_ent m q ?i))"
      by (simp add: snoc node_append Suc.prems(2))
    from Suc.IH [OF _ this] Suc.prems(1) True show ?thesis unfolding unf by simp
  next
    case False
    have "vpath L va = take (L - l) (vpath L va) @ drop (L - l) (vpath L va)" by simp
    then have "node m p (vpath L va) = None"
      using False Suc.prems(2) by (metis (no_types, lifting) node_append snoc node.simps(2) option.case)
    then show ?thesis unfolding unf using False by simp
  qed
qed

lemma page_lookup_mapping:
  assumes "pm_tree m p NPTLVLS" and "va < ULIM"
  shows "page_lookup nm p va m = (Ok (map_option (\<lambda>e. (pte_page e, e)) (mapping m p NPTLVLS va)), m)"
proof -
  have "node m p (take (NPTLVLS - NPTLVLS) (vpath NPTLVLS va)) = Some p" by simp
  from walk_lookup [OF assms order_refl this, of nm 0 0] assms(2) show ?thesis
    by (auto simp: page_lookup_def pgdir_walk_def mapping_def Let_def not_le split: option.splits)
qed

lemma split_digits:
  fixes x :: nat
  assumes "x < 512 ^ 4"
  shows "x = x mod 512 + 512 * (x div 512 mod 512 + 512 * (x div 512 ^ 2 mod 512 + 512 * (x div 512 ^ 3 mod 512)))"
proof -
  have "x div 512 ^ 3 < 512" using assms by (simp add: less_mult_imp_div_less)
  moreover have "x div 512 ^ 2 = x div 512 div 512" "x div 512 ^ 3 = x div 512 div 512 div 512"
    by (simp_all flip: div_mult2_eq)
  ultimately show ?thesis by (simp add: mod_mult_div_eq)
qed

lemma same_va_slot:
  assumes "va < ULIM" "va' < ULIM"
  shows "vpath NPTLVLS va' = vpath NPTLVLS va \<and> PDX 0 va' = PDX 0 va \<longleftrightarrow> unat va' div 4096 = unat va div 4096"
proof -
  have digit: "PDX n w = unat w div 4096 div 512 ^ n mod 512" for n and w :: u64
    by (simp add: PDX_nat PDSHIFT_def power_add power_mult div_mult2_eq)
  have lim: "unat w div 4096 < 512 ^ 4" if "w < ULIM" for w :: u64
    using that by (simp add: word_less_nat_alt ULIM_def less_mult_imp_div_less)
  have path: "vpath NPTLVLS w = [PDX 3 w, PDX 2 w, PDX 1 w]" for w
    by (simp add: NPTLVLS_def numeral_3_eq_3 numeral_2_eq_2)
  define x y where "x = unat va div 4096" and "y = unat va' div 4096"
  have d: "PDX 0 va = x mod 512" "PDX 1 va = x div 512 mod 512" "PDX 2 va = x div 512 ^ 2 mod 512"
    "PDX 3 va = x div 512 ^ 3 mod 512" "PDX 0 va' = y mod 512" "PDX 1 va' = y div 512 mod 512"
    "PDX 2 va' = y div 512 ^ 2 mod 512" "PDX 3 va' = y div 512 ^ 3 mod 512"
    unfolding digit x_def y_def by (simp_all only: power_0 power_one_right div_by_1)
  have x4: "x < 512 ^ 4" and y4: "y < 512 ^ 4" unfolding x_def y_def using lim assms by blast+
  have "vpath NPTLVLS va' = vpath NPTLVLS va \<and> PDX 0 va' = PDX 0 va \<longleftrightarrow> y = x"
  proof
    assume "vpath NPTLVLS va' = vpath NPTLVLS va \<and> PDX 0 va' = PDX 0 va"
    then have "y mod 512 = x mod 512" "y div 512 mod 512 = x div 512 mod 512"
      "y div 512 ^ 2 mod 512 = x div 512 ^ 2 mod 512" "y div 512 ^ 3 mod 512 = x div 512 ^ 3 mod 512"
      unfolding path d by simp_all
    then show "y = x" using split_digits [OF x4] split_digits [OF y4] by metis
  next
    assume "y = x"
    then show "vpath NPTLVLS va' = vpath NPTLVLS va \<and> PDX 0 va' = PDX 0 va" unfolding path d by simp
  qed
  then show ?thesis by (simp only: x_def y_def)
qed

lemma ptflags_bits:
  assumes "pp < 2 ^ 40"
  defines "e \<equiv> \<lambda>flags. page_pa pp OR seg_ptflags flags"
  shows "e flags AND PTE_U \<noteq> 0" "e flags AND PTE_W \<noteq> 0 \<longleftrightarrow> flags AND SEGMAP_WRITE \<noteq> 0"
    "e flags AND PTE_NX = 0 \<longleftrightarrow> flags AND SEGMAP_EXEC \<noteq> 0"
proof -
  have low: "page_pa pp AND PTE_U = 0" "page_pa pp AND PTE_W = 0" by (rule page_pa_and_low; simp add: pte_bits)+
  have "take_bit 40 pp = pp" using assms(1) by (rule take_bit_nat_eq_self)
  then have "take_bit 40 (of_nat pp :: u64) = of_nat pp" by (metis take_bit_of_nat)
  then have "\<not> bit (of_nat pp :: u64) 51" using bit_take_bit_iff [of 40 "of_nat pp :: u64" 51] by simp
  then have "\<not> bit (page_pa pp) 63" by (simp add: page_pa_def bit_push_bit_iff)
  then have "page_pa pp AND PTE_NX = 0" using and_exp_eq_0_iff_not_bit [of "page_pa pp" 63] by (simp add: PTE_NX_def)
  with low show "e flags AND PTE_U \<noteq> 0" "e flags AND PTE_W \<noteq> 0 \<longleftrightarrow> flags AND SEGMAP_WRITE \<noteq> 0"
    "e flags AND PTE_NX = 0 \<longleftrightarrow> flags AND SEGMAP_EXEC \<noteq> 0"
    by (simp_all add: e_def bit.conj_disj_distrib2 seg_ptflags_def Let_def) (simp_all add: pte_bits)
qed

subsection \<open>Properties\<close>

text \<open>
  C12: Installing a page in a root page map and looking it up.  A successful \<open>as_arch_putpage\<close> maps
  the page at the address with the permissions asked for, leaves every other user page of the
  address space as it was, and takes the tables it needs from the free pages.  It fails only when
  no page is free, and then changes no mapping.
\<close>

theorem as_arch_putpage_maps:
  assumes tree: "pm_tree m p NPTLVLS" "\<not> pi_pmap_int (page_infos m p)"
    and inv: "mem_inv nm P m R H I" "nodes m p NPTLVLS \<inter> free_pages m = {}" "P \<subseteq> {..<2 ^ 40}"
    and va: "va < ULIM" and pp: "pp < 2 ^ 40"
  shows "case as_arch_putpage nm p va pp flags pid m of (r, m') \<Rightarrow>
    pm_tree m' p NPTLVLS \<and> nodes m' p NPTLVLS \<inter> free_pages m' = {} \<and>
    (\<exists>I'. mem_inv nm P m' R H I' \<and> I \<subseteq># I' \<and> nodes m' p NPTLVLS = nodes m p NPTLVLS \<union> set_mset (I' - I)) \<and>
    (case r of
       Ok _ \<Rightarrow>
         (\<exists>e. page_lookup nm p va m' = (Ok (Some (pp, e)), m') \<and> e AND PTE_U \<noteq> 0 \<and>
              (e AND PTE_W \<noteq> 0 \<longleftrightarrow> flags AND SEGMAP_WRITE \<noteq> 0) \<and> (e AND PTE_NX = 0 \<longleftrightarrow> flags AND SEGMAP_EXEC \<noteq> 0)) \<and>
         (\<forall>va'. va' < ULIM \<and> unat va' div 4096 \<noteq> unat va div 4096 \<longrightarrow>
              fst (page_lookup nm p va' m') = fst (page_lookup nm p va' m))
     | Err e \<Rightarrow> e = E_NO_MEM \<and> free_pages m' = {} \<and>
         (\<forall>va'. va' < ULIM \<longrightarrow> fst (page_lookup nm p va' m') = fst (page_lookup nm p va' m))
     | Panic \<Rightarrow> False)"
proof -
  have L: "NPTLVLS = (if pi_pmap_int (page_infos m p) then 1 else NPTLVLS)" using tree(2) by simp
  from tree(1) inv va L pp show ?thesis
  proof (rule as_arch_putpage_ok [where flags = flags and pid = pid])
    fix m' I'
    assume m': "as_arch_putpage nm p va pp flags pid m = (Ok (), m')" "mem_inv nm P m' R H I'" "I \<subseteq># I'"
      "pm_tree m' p NPTLVLS" "nodes m' p NPTLVLS \<inter> free_pages m' = {}"
      "nodes m' p NPTLVLS = nodes m p NPTLVLS \<union> set_mset (I' - I)"
      "\<And>va'. va' < ULIM \<Longrightarrow> mapping m' p NPTLVLS va' =
         (if vpath NPTLVLS va' = vpath NPTLVLS va \<and> PDX 0 va' = PDX 0 va
          then Some (page_pa pp OR seg_ptflags flags) else mapping m p NPTLVLS va')"
    have "\<exists>e. page_lookup nm p va m' = (Ok (Some (pp, e)), m') \<and> e AND PTE_U \<noteq> 0 \<and>
        (e AND PTE_W \<noteq> 0 \<longleftrightarrow> flags AND SEGMAP_WRITE \<noteq> 0) \<and> (e AND PTE_NX = 0 \<longleftrightarrow> flags AND SEGMAP_EXEC \<noteq> 0)"
      using m'(7) [OF va] ptflags_bits [OF pp] mapped_entry(1) [OF pp]
      by (simp add: page_lookup_mapping [OF m'(4) va])
    moreover have "fst (page_lookup nm p va' m') = fst (page_lookup nm p va' m)"
      if "va' < ULIM" "unat va' div 4096 \<noteq> unat va div 4096" for va'
      using m'(7) [OF that(1)] same_va_slot [OF va that(1)] that(2)
      by (simp add: page_lookup_mapping [OF m'(4) that(1)] page_lookup_mapping [OF tree(1) that(1)])
    ultimately show ?thesis using m'(1-6) by auto
  next
    fix m' I'
    assume m': "as_arch_putpage nm p va pp flags pid m = (Err E_NO_MEM, m')" "free_pages m' = {}"
      "pm_ext nm P R H p NPTLVLS I m I' m'"
    then have t: "pm_tree m' p NPTLVLS" by (simp add: pm_ext_def)
    have "fst (page_lookup nm p va' m') = fst (page_lookup nm p va' m)" if "va' < ULIM" for va'
      using m'(3) that by (simp add: page_lookup_mapping [OF t that] page_lookup_mapping [OF tree(1) that] pm_ext_def)
    then show ?thesis using m' by (auto simp: pm_ext_def)
  qed
qed

text \<open>An empty root map in page 1; page 2 is free.\<close>

lemma empty_node:
  assumes "page_words m p = replicate 512 0" "ok_path L \<rho>"
  shows "node m p \<rho> = (if \<rho> = [] then Some p else None)"
  using assms by (cases \<rho>) (auto simp: ok_path_def pm_ent_def)

lemma empty_tree:
  assumes "page_words m p = replicate 512 0"
  shows "pm_tree m p L" "nodes m p L = {p}"
proof -
  have iff: "ok_path L \<rho> \<and> node m p \<rho> = Some q \<longleftrightarrow> \<rho> = [] \<and> q = p" for \<rho> q
  proof -
    have "ok_path L []" by (simp add: ok_path_def)
    then show ?thesis using empty_node [OF assms, of L \<rho>] by (cases "ok_path L \<rho>") (auto split: if_splits)
  qed
  show "pm_tree m p L"
    unfolding pm_tree_def
  proof (intro conjI allI impI)
    fix \<pi> \<rho> q
    assume "ok_path L \<pi> \<and> ok_path L \<rho> \<and> node m p \<pi> = Some q \<and> node m p \<rho> = Some q"
    then show "\<pi> = \<rho>" using iff [of \<pi> q] iff [of \<rho> q] by simp
  next
    fix \<pi> q
    assume "ok_path L \<pi> \<and> node m p \<pi> = Some q"
    then show "length (page_words m q) = 512" using iff [of \<pi> q] assms by simp
  next
    fix \<pi> q and i :: nat
    assume "ok_path L \<pi> \<and> Suc (length \<pi>) = L \<and> node m p \<pi> = Some q \<and> i < 512"
    then have "q = p" "i < 512" using iff [of \<pi> q] by auto
    then show "pm_ent m q i AND PTE_PS = 0" using assms by (simp add: pm_ent_def)
  qed
  show "nodes m p L = {p}" by (auto simp: nodes_def iff)
qed

theorem as_arch_putpage_maps_witness:
  "case as_arch_putpage tiny_numa 1 0x400000 9 SEGMAP_WRITE 0 tiny_mem of (r, m') \<Rightarrow> pm_tree m' 1 NPTLVLS"
proof -
  have w: "page_words tiny_mem 1 = replicate 512 0" by (simp add: tiny_mem_def)
  have "nodes tiny_mem 1 NPTLVLS \<inter> free_pages tiny_mem = {}"
    using empty_tree(2) [OF w] by (simp add: free_pages_def tiny_mem_def numeral_eq_Suc)
  from as_arch_putpage_maps [OF empty_tree(1) [OF w] _ tiny_mem_inv this, where va = "0x400000" and pp = 9
      and flags = SEGMAP_WRITE and pid = 0]
  show ?thesis by (auto simp: tiny_mem_def ULIM_def split: prod.splits)
qed

subsubsection \<open>Releasing an interior map\<close>

text \<open>An interior map in page 1 with one table, page 2, that maps the data page 3.\<close>

definition interior_mem :: physmem where
  "interior_mem =
     \<lparr>page_free_list = replicate 16 [],
      page_infos = (\<lambda>p. \<lparr>pi_ref = (if p = 3 then 1 else 0), pi_freepage = False, pi_hwpage = False,
        pi_pmap = (p = 1), pi_pmap_int = (p = 1), pi_clear = True, pi_hw_ref = 0\<rparr>),
      page_words = (\<lambda>p. if p = 1 then (page_pa 2 OR PTE_P OR PTE_U OR PTE_W) # replicate 511 0
                        else if p = 2 then (page_pa 3 OR PTE_P OR PTE_U OR PTE_W) # replicate 511 0
                        else replicate 512 0),
      page_failures = 0\<rparr>"

lemma set_ent_same: "pm_ent m p i = v \<Longrightarrow> set_ent (p, i) v m = m"
  unfolding set_ent_def pm_ent_def by (drule sym) simp

lemma idx_loop_id: "(\<And>j. i \<le> j \<Longrightarrow> j < i + k \<Longrightarrow> f j s = (Ok (), s)) \<Longrightarrow> idx_loop f i k s = (Ok (), s)"
  by (induction k arbitrary: i) auto

lemma free_level_empty:
  assumes "page_words m p = replicate 512 0"
  shows "page_map_free_level nm l p m = (Ok (), m)"
proof -
  have z: "pm_ent m p j = 0" if "j < 512" for j using that assms by (simp add: pm_ent_def)
  show ?thesis
  proof (cases l)
    case 0
    then show ?thesis using z by (simp add: NPTENTRIES_def set_ent_same idx_loop_id)
  next
    case (Suc k)
    have "(if Suc k = NPTLVLS then NPTENTRIES div 2 else NPTENTRIES) \<le> 512" by (simp add: NPTENTRIES_def)
    then show ?thesis
      unfolding Suc page_map_free_level.simps by (intro idx_loop_id) (simp add: z Let_def set_ent_same)
  qed
qed

lemma free_level_one:
  assumes w: "page_words m p = (page_pa q OR PTE_P OR PTE_U OR PTE_W) # replicate 511 0" and q: "q < 2 ^ 40"
    and np: "\<not> pi_pmap (page_infos m q)" and qp: "q \<noteq> p"
    and r: "page_map_free_level nm l q (set_ent (p, 0) 0 m) = (Ok (), m1)"
    and f: "page_free nm q 0 m1 = (Ok (), m2)" and w2: "page_words m2 p = replicate 512 0"
  shows "page_map_free_level nm (Suc l) p m = (Ok (), m2)"
proof -
  define f where "f = (\<lambda>i m.
       let ptent = pm_ent m p i; m = set_ent (p, i) 0 m in
       if \<not> pte_present ptent then (Ok (), m)
       else
         (let pm = pte_page ptent in
          if pi_pmap (page_to_pageinfo m pm) then (Ok (), m)
          else bind_r (page_map_free_level nm l pm m) (\<lambda>_ m. page_free nm pm 0 m)))"
  have "pm_ent m p 0 = page_pa q OR PTE_P OR PTE_U OR PTE_W" by (simp add: pm_ent_def w)
  then have f0: "f 0 m = (Ok (), m2)"
    using q np r f by (simp add: f_def Let_def page_to_pageinfo_def) (simp add: set_ent_def)
  have ft: "f j m2 = (Ok (), m2)" if "j < 512" for j
  proof -
    have "pm_ent m2 p j = 0" using that w2 by (simp add: pm_ent_def)
    then show ?thesis by (simp add: f_def Let_def set_ent_same)
  qed
  have "idx_loop f 0 (Suc k) m = (Ok (), m2)" if "k < 512" for k
    using that f0 ft by (simp add: idx_loop_id)
  from this [of "(if Suc l = NPTLVLS then NPTENTRIES div 2 else NPTENTRIES) - 1"] show ?thesis
    by (simp add: f_def NPTENTRIES_def)
qed

definition freed :: "page \<Rightarrow> nat \<Rightarrow> physmem \<Rightarrow> physmem" where
  "freed p n m =
     (set_pageinfo p (\<lambda>i. i\<lparr>pi_freepage := True, pi_clear := False\<rparr>) m)
       \<lparr>page_free_list := (page_free_list m)[n := p # page_free_list m ! n]\<rparr>"

lemma freed_simps [simp]:
  "page_infos (freed p n m) q = (if q = p then (page_infos m p)\<lparr>pi_freepage := True, pi_clear := False\<rparr> else page_infos m q)"
  "page_words (freed p n m) = page_words m"
  "page_free_list (freed p n m) = (page_free_list m)[n := p # page_free_list m ! n]"
  by (simp_all add: freed_def set_pageinfo_def)

lemma page_free_freed:
  "\<not> pi_hwpage (page_infos m p) \<Longrightarrow> page_node nm p = Ok n \<Longrightarrow> \<not> pi_freepage (page_infos m p) \<Longrightarrow>
   page_free nm p 0 m = (Ok (), freed p n m)"
  by (simp add: page_free_def page_to_pageinfo_def freed_def set_pageinfo_def Let_def)

text \<open>
  C13: Releasing an interior map frees the data pages it maps.  \<open>page_map_free\<close> starts at the root
  level for every map; for an interior map, whose entries are one level above the mapped pages, it
  descends too far and hands a page that a segment still references to the allocator.
\<close>

theorem page_map_free_interior_frees_data:
  "case page_map_free tiny_numa 1 interior_mem of (r, m') \<Rightarrow>
     r = Ok () \<and> 3 \<in> free_pages m' \<and> pi_ref (page_infos m' 3) = 1"
proof -
  have n: "page_node tiny_numa p = Ok 0" if "p < 4" for p
    using that by (auto simp: page_node_def arch_node_by_addr_def tiny_numa_def word_less_nat_alt unat_word_ariths unat_of_nat)
  let ?m0 = "set_pageinfo 1 (\<lambda>pi. pi\<lparr>pi_pmap := False\<rparr>) interior_mem"
  let ?m1 = "set_ent (1, 0) 0 ?m0"
  let ?m2 = "set_ent (2, 0) 0 ?m1"
  let ?m3 = "freed 3 0 ?m2" and ?m4 = "freed 2 0 (freed 3 0 ?m2)"
  note sm = set_pageinfo_def interior_mem_def set_ent_def
  have f3: "page_free tiny_numa 3 0 ?m2 = (Ok (), ?m3)" by (rule page_free_freed) (simp_all add: n, simp_all add: sm)
  have f4: "page_free tiny_numa 2 0 ?m3 = (Ok (), ?m4)" by (rule page_free_freed) (simp_all add: n, simp_all add: sm)
  have f5: "page_free tiny_numa 1 0 ?m4 = (Ok (), freed 1 0 ?m4)"
    by (rule page_free_freed) (simp_all add: n, simp_all add: sm)
  have cons: "(0::u64) # replicate 511 0 = replicate 512 0" by (simp flip: replicate_Suc)
  have w: "page_words ?m2 1 = replicate 512 0" "page_words ?m2 2 = replicate 512 0" "page_words ?m2 3 = replicate 512 0"
    by (simp_all add: sm cons)
  have l1: "page_map_free_level tiny_numa (Suc 0) 3 ?m2 = (Ok (), ?m2)" by (rule free_level_empty [OF w(3)])
  have l2: "page_map_free_level tiny_numa (Suc (Suc 0)) 2 ?m1 = (Ok (), ?m3)"
    by (rule free_level_one [OF _ _ _ _ l1 f3]) (simp_all add: w, simp_all add: sm cons)
  have l3: "page_map_free_level tiny_numa (Suc (Suc (Suc 0))) 1 ?m0 = (Ok (), ?m4)"
    by (rule free_level_one [OF _ _ _ _ l2 f4]) (simp_all add: w, simp_all add: sm cons)
  have "pi_pmap (page_infos interior_mem 1)" by (simp add: interior_mem_def)
  then have "page_map_free tiny_numa 1 interior_mem = (Ok (), freed 1 0 ?m4)"
    using l3 f5 by (simp add: page_map_free_def page_to_pageinfo_def NPTLVLS_def numeral_3_eq_3)
  moreover have "page_free_list (freed 1 0 ?m4) = (replicate 16 [])[0 := [1, 2, 3]]"
    by simp (simp add: sm)
  then have "3 \<in> free_pages (freed 1 0 ?m4)" unfolding free_pages_def by (simp add: numeral_eq_Suc)
  moreover have "pi_ref (page_infos (freed 1 0 ?m4) 3) = 1" by simp (simp add: sm)
  ultimately show ?thesis by simp
qed

end
