(* ===== verification/Kobject.thy ===== *)
theory Kobject
  imports Kmap Pmap
begin

text \<open>
  Kernel objects (\<^verbatim>\<open>kern/kern/kobj.c\<close>, \<^verbatim>\<open>kern/kern/kobjhdr.h\<close>, \<^verbatim>\<open>kern/kern/id.c\<close>) and the state of
  the kernel that the objects live in.

  An object occupies one page and is named by the number of that page, as are pointers to it.
  The linked lists of the code are the lists of their elements, in order from the head, which is
  faithful as long as no element is inserted twice.  Object locks are abstracted: every operation
  is atomic.  Reading an object as one of another type has no defined meaning in the code; the
  model stops there as it does for a failed assertion.
\<close>

subsection \<open>Object types and their contents\<close>

record sobj_ref =
  so_share :: u64
  so_object :: u64

definition SOBJ :: "u64 \<Rightarrow> u64 \<Rightarrow> sobj_ref" where
  "SOBJ sh ob = \<lparr>so_share = sh, so_object = ob\<rparr>"

datatype kobject_type =
  kobj_segment | kobj_address_tree | kobj_processor | kobj_share | kobj_device | kobj_any

record kobject_hdr =
  ko_id :: u64
  ko_type :: kobject_type
  ko_name :: string
  ko_ref :: u64
  ko_pid :: nat

text \<open>Pointers to the mappings and blobs that live inside pages: the page and the offset in it.\<close>

type_synonym kptr = "page \<times> nat"

record Segment =
  sg_map_list :: "kptr list"
  sg_pages :: darray

record Address_tree =
  at_ps_list :: "page list"
  at_pgmap :: "page option"
  at_utrap_entry :: u64
  at_utrap_stack_base :: u64
  at_utrap_stack_top :: u64
  at_interior :: bool
  at_map_list :: "kptr list"
  at_uaddrmap :: darray
  at_addrmap :: darray
  at_obj_ref :: sobj_ref
  at_obj_ko :: page
  at_obj_ps_id :: u64
  at_range_va_start :: u64
  at_range_va_end :: u64
  at_range_uam :: "kptr option"

record Sharemap =
  sm_map :: Map
  sm_owner :: page
  sm_mask :: u32

text \<open>Programs pass the mode as a number, so other values than the three named ones occur.\<close>

datatype ps_mode_t = ps_mode_reg | ps_mode_vm | ps_mode_mon | ps_mode_bad u32

text \<open>The registers of a trap frame that the kernel itself reads or writes.\<close>

record Trapframe =
  tf_rax :: u64
  tf_rdi :: u64
  tf_rsi :: u64
  tf_rdx :: u64
  tf_rcx :: u64
  tf_r8 :: u64
  tf_r9 :: u64
  tf_r10 :: u64
  tf_r11 :: u64
  tf_rbx :: u64
  tf_rbp :: u64
  tf_r12 :: u64
  tf_r13 :: u64
  tf_r14 :: u64
  tf_r15 :: u64
  tf_rip :: u64
  tf_rsp :: u64
  tf_rflags :: u64
  tf_cs :: u64
  tf_ss :: u64

record Processor =
  ps_tf :: Trapframe
  ps_fp_enabled :: bool
  ps_pid :: nat
  ps_running :: bool
  ps_halt :: bool
  ps_interval_hz :: u64
  ps_mode :: ps_mode_t
  ps_sharemap :: Sharemap
  ps_monitor_obj :: "sobj_ref list"
  ps_at :: "page option"
  ps_atref :: sobj_ref

record share_pool =
  sp_free :: "kptr list"
  sp_npages :: nat
  sp_pt :: pagetree

record Share =
  sh_kobject_map :: Map
  sh_blob :: "nat \<Rightarrow> share_pool"
  sh_mask :: u32

record Device =
  dv_dh :: nat

datatype kobject_body =
    KSegment Segment
  | KAddress_tree Address_tree
  | KProcessor Processor
  | KShare Share
  | KDevice Device

record kobject =
  ko_hdr :: kobject_hdr
  ko_body :: kobject_body

record share_info =
  si_ko :: page
  si_co :: u64
  si_cnt :: u32

record share_action =
  sa_blob :: kptr
  sa_sh :: page
  sa_si :: kptr

subsection \<open>The state of the kernel\<close>

text \<open>Interrupts that one processor sends to another.\<close>

datatype ipi = IPI_halt nat | IPI_tlbflush nat

record device_handler =
  dh_type :: nat
  dh_id :: nat
  dh_dev :: "page option"

record device_slot =
  ds_dh :: "device_handler option"
  ds_alloced :: bool

datatype cons_source = cons_source_none | cons_source_user | cons_source_kernel

record cons_buf =
  cb_buf :: "u8 list"
  cb_src :: cons_source

record kst =
  km :: physmem
  kobjs :: "page \<Rightarrow> kobject"
  ko_gc_list :: "nat \<Rightarrow> page list"
  id_counter :: "nat \<Rightarrow> u64"
  sh_infos :: "kptr \<Rightarrow> share_info"
  sh_ci_list :: "nat \<Rightarrow> share_action list"
  sh_rm_list :: "nat \<Rightarrow> share_action list"
  processors :: "nat \<Rightarrow> page option"
  processor_free :: "nat \<Rightarrow> bool"
  devices :: "device_slot list"
  ndev :: nat
  ipis :: "ipi list"
  timer_hz :: "nat \<Rightarrow> u64"
  cr3 :: "nat \<Rightarrow> page option"
  uaccess :: "nat \<Rightarrow> bool"
  ustores :: "(u64 \<times> u64 list) list"
  cons_bufs :: "nat \<Rightarrow> cons_buf"
  cons_outs :: "nat list"
  cons_log :: "(nat \<times> u8 \<times> cons_source) list"

text \<open>
  \<open>uaccess\<close> says which processors are inside a guarded access to user memory, \<open>ustores\<close> is the log
  of the stores through pointers that user programs supplied (address and 64-bit words, latest
  first).  \<open>cons_bufs\<close> are the console buffers of the processors, \<open>cons_outs\<close> the console devices that
  have an output function, and \<open>cons_log\<close> what was handed to them.

  What is fixed while the kernel runs: the node tables with the number of the processor that
  executes, the static page maps, the number of processors, which of them have an interval timer,
  an address on the kernel stack and the number of nested page-fault frames the stack can hold.
\<close>

record kenv =
  ke_numa :: numa
  ke_bootpml4 :: "nat \<Rightarrow> u64 list"
  ke_ncpu :: nat
  ke_inttimer :: "nat \<Rightarrow> bool"
  ke_stack :: "page \<times> nat"
  ke_depth :: nat

abbreviation arch_cpu :: "kenv \<Rightarrow> nat" where
  "arch_cpu e \<equiv> cur_cpu (ke_numa e)"

definition JOS_NCPU :: nat where
  [layout_consts]: "JOS_NCPU = 16"

text \<open>Running a step on the physical memory inside the kernel state.\<close>

definition on_mem :: "(physmem \<Rightarrow> 'a result \<times> physmem) \<Rightarrow> kst \<Rightarrow> 'a result \<times> kst" where
  "on_mem f s = (case f (km s) of (r, m) \<Rightarrow> (r, s\<lparr>km := m\<rparr>))"

text \<open>
  Steps that may wait for another processor forever: \<open>None\<close> is a state in which the step cannot go
  on by itself.
\<close>

definition bind_w ::
  "('a result \<times> kst) option \<Rightarrow> ('a \<Rightarrow> kst \<Rightarrow> ('b result \<times> kst) option) \<Rightarrow> ('b result \<times> kst) option"
where
  "bind_w x f =
     (case x of None \<Rightarrow> None
      | Some (Ok a, s) \<Rightarrow> f a s
      | Some (Err e, s) \<Rightarrow> Some (Err e, s)
      | Some (Panic, s) \<Rightarrow> Some (Panic, s))"

text \<open>An \<^verbatim>\<open>assert\<close> that a call succeeded: a failure stops the kernel.\<close>

definition assert_ok :: "'a result \<times> 's \<Rightarrow> 'a result \<times> 's" where
  "assert_ok x = (case x of (Err e, s) \<Rightarrow> (Panic, s) | _ \<Rightarrow> x)"

text \<open>Kernel pointers as the machine words that are stored in pages and maps.\<close>

definition kptr_va :: "kptr \<Rightarrow> u64" where
  "kptr_va a = pa2kva (of_nat (fst a * 4096 + snd a))"

definition va_kptr :: "u64 \<Rightarrow> kptr" where
  "va_kptr va = (let pa = unat (va - PHYSBASE) in (pa div 4096, pa mod 4096))"

lemma va_kptr_va:
  assumes "fst a < 2 ^ 52" "snd a < 4096"
  shows "va_kptr (kptr_va a) = a"
proof -
  have "fst a * 4096 + snd a < 2 ^ 64"
  proof -
    have "fst a * 4096 \<le> (2 ^ 52 - 1) * 4096" using assms(1) by (intro mult_right_mono) auto
    then show ?thesis using assms(2) by simp
  qed
  then have "unat (of_nat (fst a * 4096 + snd a) :: u64) = fst a * 4096 + snd a"
    by (simp only: unat_of_nat) simp
  then show ?thesis
    using assms(2) by (simp add: va_kptr_def kptr_va_def pa2kva_def Let_def del: of_nat_add of_nat_mult)
qed

definition upd_ko :: "page \<Rightarrow> (kobject \<Rightarrow> kobject) \<Rightarrow> kst \<Rightarrow> kst" where
  "upd_ko p f s = s\<lparr>kobjs := (kobjs s)(p := f (kobjs s p))\<rparr>"

definition upd_hdr :: "page \<Rightarrow> (kobject_hdr \<Rightarrow> kobject_hdr) \<Rightarrow> kst \<Rightarrow> kst" where
  "upd_hdr p f = upd_ko p (\<lambda>k. k\<lparr>ko_hdr := f (ko_hdr k)\<rparr>)"

definition set_body :: "page \<Rightarrow> kobject_body \<Rightarrow> kst \<Rightarrow> kst" where
  "set_body p b = upd_ko p (\<lambda>k. k\<lparr>ko_body := b\<rparr>)"

abbreviation hdr :: "kst \<Rightarrow> page \<Rightarrow> kobject_hdr" where
  "hdr s p \<equiv> ko_hdr (kobjs s p)"

definition with_sg :: "page \<Rightarrow> kst \<Rightarrow> (Segment \<Rightarrow> 'a result \<times> kst) \<Rightarrow> 'a result \<times> kst" where
  "with_sg p s f = (case ko_body (kobjs s p) of KSegment x \<Rightarrow> f x | _ \<Rightarrow> (Panic, s))"

definition with_at :: "page \<Rightarrow> kst \<Rightarrow> (Address_tree \<Rightarrow> 'a result \<times> kst) \<Rightarrow> 'a result \<times> kst" where
  "with_at p s f = (case ko_body (kobjs s p) of KAddress_tree x \<Rightarrow> f x | _ \<Rightarrow> (Panic, s))"

definition with_ps :: "page \<Rightarrow> kst \<Rightarrow> (Processor \<Rightarrow> 'a result \<times> kst) \<Rightarrow> 'a result \<times> kst" where
  "with_ps p s f = (case ko_body (kobjs s p) of KProcessor x \<Rightarrow> f x | _ \<Rightarrow> (Panic, s))"

definition with_sh :: "page \<Rightarrow> kst \<Rightarrow> (Share \<Rightarrow> 'a result \<times> kst) \<Rightarrow> 'a result \<times> kst" where
  "with_sh p s f = (case ko_body (kobjs s p) of KShare x \<Rightarrow> f x | _ \<Rightarrow> (Panic, s))"

definition with_dv :: "page \<Rightarrow> kst \<Rightarrow> (Device \<Rightarrow> 'a result \<times> kst) \<Rightarrow> 'a result \<times> kst" where
  "with_dv p s f = (case ko_body (kobjs s p) of KDevice x \<Rightarrow> f x | _ \<Rightarrow> (Panic, s))"

subsection \<open>Object identifiers\<close>

definition id_alloc :: "kenv \<Rightarrow> kst \<Rightarrow> u64 result \<times> kst" where
  "id_alloc e s =
     (let cpu = arch_cpu e; x = id_counter s cpu + 1; s = s\<lparr>id_counter := (id_counter s)(cpu := x)\<rparr> in
      if x AND 0xFF00000000000000 \<noteq> 0 then (Panic, s)
      else (Ok (x OR push_bit 56 (of_nat cpu)), s))"

subsection \<open>Objects\<close>

definition kobject_gc_collect :: "kenv \<Rightarrow> page \<Rightarrow> kst \<Rightarrow> kst" where
  "kobject_gc_collect e ko s =
     s\<lparr>ko_gc_list := (ko_gc_list s)(arch_cpu e := ko # ko_gc_list s (arch_cpu e))\<rparr>"

text \<open>
  The page of a new object is zeroed; \<open>body\<close> is what the zero bytes and the initialisation by the
  caller, which follows at once, make of it.
\<close>

definition kobject_alloc :: "kenv \<Rightarrow> kobject_type \<Rightarrow> kobject_body \<Rightarrow> nat \<Rightarrow> kst \<Rightarrow> page result \<times> kst" where
  "kobject_alloc e type body pid s =
     bind_r (on_mem (page_alloc (ke_numa e) pid) s) (\<lambda>ko s.
       bind_r (id_alloc e s) (\<lambda>id s.
         let s = s\<lparr>kobjs := (kobjs s)(ko :=
               \<lparr>ko_hdr = \<lparr>ko_id = id, ko_type = type, ko_name = [], ko_ref = 0, ko_pid = pid\<rparr>, ko_body = body\<rparr>)\<rparr>
         in (Ok ko, kobject_gc_collect e ko s)))"

definition kobject_incref :: "page \<Rightarrow> kst \<Rightarrow> kst" where
  "kobject_incref kp = upd_hdr kp (\<lambda>h. h\<lparr>ko_ref := ko_ref h + 1\<rparr>)"

definition kobject_getref :: "page \<Rightarrow> kst \<Rightarrow> u64" where
  "kobject_getref kp s = ko_ref (hdr s kp)"

definition kobject_decref :: "kenv \<Rightarrow> page \<Rightarrow> kst \<Rightarrow> unit result \<times> kst" where
  "kobject_decref e kp s =
     (if kobject_getref kp s = 0 then (Panic, s)
      else
        (let s = upd_hdr kp (\<lambda>h. h\<lparr>ko_ref := ko_ref h - 1\<rparr>) s in
         (Ok (), if kobject_getref kp s = 0 then kobject_gc_collect e kp s else s)))"

definition JOS_KOBJ_NAME_LEN :: nat where
  [layout_consts]: "JOS_KOBJ_NAME_LEN = 32"

definition kobject_set_name :: "page \<Rightarrow> string \<Rightarrow> kst \<Rightarrow> kst" where
  "kobject_set_name kp name = upd_hdr kp (\<lambda>h. h\<lparr>ko_name := take (JOS_KOBJ_NAME_LEN - 1) name\<rparr>)"

definition kobject_free :: "kenv \<Rightarrow> page \<Rightarrow> kst \<Rightarrow> unit result \<times> kst" where
  "kobject_free e ko = on_mem (page_free (ke_numa e) ko 0)"

subsection \<open>Identifiers are unique\<close>

text \<open>A sequence of allocations, each on the processor it names.\<close>

fun id_allocs :: "kenv \<Rightarrow> nat list \<Rightarrow> kst \<Rightarrow> u64 list result \<times> kst" where
  "id_allocs e [] s = (Ok [], s)"
| "id_allocs e (c # cs) s =
     bind_r (id_alloc (e\<lparr>ke_numa := (ke_numa e)\<lparr>cur_cpu := c\<rparr>\<rparr>) s) (\<lambda>x s.
       bind_r (id_allocs e cs s) (\<lambda>xs s. (Ok (x # xs), s)))"

lemma take_bit56_iff: "take_bit 56 x = x \<longleftrightarrow> (x::u64) < 2 ^ 56"
proof -
  have "take_bit 56 x = x \<longleftrightarrow> unat x mod 2 ^ 56 = unat x"
    by (simp only: word_unat_eq_iff unsigned_take_bit_eq) (simp only: take_bit_eq_mod)
  also have "\<dots> \<longleftrightarrow> unat x < 2 ^ 56" by (metis mod_less mod_less_divisor zero_less_numeral zero_less_power)
  finally show ?thesis by (simp add: word_less_nat_alt)
qed

lemma high_byte_zero_iff: "(x::u64) AND 0xFF00000000000000 = 0 \<longleftrightarrow> x < 2 ^ 56"
proof -
  have M: "(0xFF00000000000000::u64) = NOT (mask 56)" by (simp add: mask_eq_exp_minus_1)
  have "x AND NOT (mask 56) = 0 \<longleftrightarrow> take_bit 56 x = x"
  proof
    assume "x AND NOT (mask 56) = 0"
    then have "x AND mask 56 OR x AND NOT (mask 56) = x AND mask 56" by simp
    then show "take_bit 56 x = x" by (simp add: take_bit_eq_mask flip: bit.conj_disj_distrib)
  next
    assume "take_bit 56 x = x"
    then have "x AND NOT (mask 56) = (x AND mask 56) AND NOT (mask 56)" by (simp add: take_bit_eq_mask)
    then show "x AND NOT (mask 56) = 0" by (simp add: and.assoc)
  qed
  also have "\<dots> \<longleftrightarrow> x < 2 ^ 56" by (simp add: take_bit56_iff)
  finally show ?thesis by (simp only: M)
qed

lemma id_value:
  assumes "x < (2::u64) ^ 56" and "c < 256"
  shows "unat (x OR push_bit 56 (of_nat c)) = unat x + c * 2 ^ 56"
proof -
  have x: "unat x < 2 ^ 56" using assms(1) by (simp add: word_less_nat_alt)
  have c: "unat (push_bit 56 (of_nat c) :: u64) = c * 2 ^ 56"
    using assms(2) by (simp add: push_bit_eq_mult unat_word_ariths unat_of_nat)
  have "take_bit 56 x = x" using assms(1) by (simp add: take_bit56_iff)
  then have "x AND push_bit 56 (of_nat c) = take_bit 56 x AND push_bit 56 (of_nat c)" by simp
  also have "\<dots> = 0" by (rule bit_eqI) (auto simp: bit_simps)
  finally have "x OR push_bit 56 (of_nat c) = x + push_bit 56 (of_nat c)"
    by (simp add: disjunctive_add_eq_or)
  with x c assms(2) show ?thesis by (simp add: unat_word_ariths)
qed

lemma id_alloc_ok:
  assumes "id_alloc e s = (Ok x, s')" and c: "arch_cpu e < 256" and n: "unat (id_counter s (arch_cpu e)) < 2 ^ 56"
  obtains n where "n = unat (id_counter s (arch_cpu e)) + 1" "n < 2 ^ 56" "unat x = n + arch_cpu e * 2 ^ 56"
    "unat (id_counter s' (arch_cpu e)) = n" "\<And>d. d \<noteq> arch_cpu e \<Longrightarrow> id_counter s' d = id_counter s d"
proof -
  let ?c = "arch_cpu e" and ?y = "id_counter s (arch_cpu e) + 1"
  from assms(1) have y: "?y AND 0xFF00000000000000 = 0" "x = ?y OR push_bit 56 (of_nat ?c)"
    "s' = s\<lparr>id_counter := (id_counter s)(?c := ?y)\<rparr>"
    by (auto simp: id_alloc_def Let_def split: if_splits)
  then have y56: "?y < 2 ^ 56" by (simp add: high_byte_zero_iff)
  have u: "unat ?y = unat (id_counter s ?c) + 1" using n by (simp add: unat_word_ariths)
  then show thesis using y y56 id_value [OF y56 c]
    by (intro that [of "unat ?y"]) (simp_all add: word_less_nat_alt)
qed

lemma id_allocs_values:
  assumes "id_allocs e cs s = (Ok xs, s')" and "\<forall>c\<in>set cs. c < 256" and "\<forall>c. unat (id_counter s c) < 2 ^ 56"
  shows "distinct xs \<and> (\<forall>x\<in>set xs. \<exists>c\<in>set cs. \<exists>n. unat (id_counter s c) < n \<and> n < 2 ^ 56 \<and> unat x = n + c * 2 ^ 56)"
  using assms
proof (induction cs arbitrary: s xs)
  case (Cons c cs)
  let ?e = "e\<lparr>ke_numa := (ke_numa e)\<lparr>cur_cpu := c\<rparr>\<rparr>"
  from Cons.prems(1) obtain x s1 ys where x: "id_alloc ?e s = (Ok x, s1)" and ys: "id_allocs e cs s1 = (Ok ys, s')"
    and xs: "xs = x # ys" by (auto simp: bind_r_Ok_iff)
  obtain n where n: "n = unat (id_counter s c) + 1" "n < 2 ^ 56" "unat x = n + c * 2 ^ 56"
    "unat (id_counter s1 c) = n" "\<And>d. d \<noteq> c \<Longrightarrow> id_counter s1 d = id_counter s d"
    by (rule id_alloc_ok [OF x]) (use Cons.prems in auto)
  have s1: "\<forall>d. unat (id_counter s1 d) < 2 ^ 56" using n Cons.prems(3) by metis
  have ih: "distinct ys" "\<And>y. y \<in> set ys \<Longrightarrow>
      \<exists>d\<in>set cs. \<exists>k. unat (id_counter s1 d) < k \<and> k < 2 ^ 56 \<and> unat y = k + d * 2 ^ 56"
    using Cons.IH [OF ys _ s1] Cons.prems(2) by auto
  have "y \<noteq> x" if "y \<in> set ys" for y
  proof
    assume "y = x"
    with ih(2) [OF that] obtain d k where dk: "unat (id_counter s1 d) < k" "k < 2 ^ 56" "n + c * 2 ^ 56 = k + d * 2 ^ 56"
      using n(3) by auto
    have "c = (n + c * 2 ^ 56) div 2 ^ 56" "d = (k + d * 2 ^ 56) div 2 ^ 56" using n(2) dk(2) by simp_all
    then have "c = d" using dk(3) by metis
    with dk n(4) show False by simp
  qed
  moreover have "\<exists>d\<in>set (c # cs). \<exists>k. unat (id_counter s d) < k \<and> k < 2 ^ 56 \<and> unat y = k + d * 2 ^ 56"
    if y: "y \<in> set xs" for y
  proof (cases "y = x")
    case True
    then show ?thesis using n by (intro bexI [of _ c] exI [of _ n]) auto
  next
    case False
    then obtain d k where dk: "d \<in> set cs" "unat (id_counter s1 d) < k" "k < 2 ^ 56" "unat y = k + d * 2 ^ 56"
      using y xs ih(2) [of y] by auto
    have "unat (id_counter s d) \<le> unat (id_counter s1 d)" using n by (cases "d = c") auto
    with dk show ?thesis by (intro bexI [of _ d] exI [of _ k]) auto
  qed
  ultimately show ?case using ih(1) xs by auto
qed simp

text \<open>
  C15: Object identifiers are unique: whatever processors allocate them in whatever order, no two
  allocations return the same identifier, and none returns zero, which stands for no object.
\<close>

theorem id_alloc_unique:
  assumes "\<forall>c\<in>set cs. c < JOS_NCPU" and "\<forall>c. unat (id_counter s c) < 2 ^ 56"
  shows "case id_allocs e cs s of (Ok xs, s') \<Rightarrow> distinct xs \<and> 0 \<notin> set xs | _ \<Rightarrow> True"
proof (cases "id_allocs e cs s")
  case (Pair r s')
  show ?thesis
  proof (cases r)
    case (Ok xs)
    have "\<forall>c\<in>set cs. c < 256" using assms(1) by (auto simp: JOS_NCPU_def)
    from id_allocs_values [OF _ this assms(2)] Pair Ok
    have "distinct xs" "\<forall>x\<in>set xs. unat x \<noteq> 0" by fastforce+
    then show ?thesis using Pair Ok by auto
  qed (use Pair in auto)
qed

definition kst0 :: "physmem \<Rightarrow> kst" where
  "kst0 m = \<lparr>km = m,
     kobjs = (\<lambda>_. \<lparr>ko_hdr = \<lparr>ko_id = 0, ko_type = kobj_device, ko_name = [], ko_ref = 0, ko_pid = 0\<rparr>,
                   ko_body = KDevice \<lparr>dv_dh = 0\<rparr>\<rparr>),
     ko_gc_list = (\<lambda>_. []), id_counter = (\<lambda>_. 0), sh_infos = (\<lambda>_. \<lparr>si_ko = 0, si_co = 0, si_cnt = 0\<rparr>),
     sh_ci_list = (\<lambda>_. []), sh_rm_list = (\<lambda>_. []), processors = (\<lambda>_. None), processor_free = (\<lambda>_. False),
     devices = replicate 64 \<lparr>ds_dh = None, ds_alloced = False\<rparr>, ndev = 0, ipis = [], timer_hz = (\<lambda>_. 0),
     cr3 = (\<lambda>_. None), uaccess = (\<lambda>_. False), ustores = [],
     cons_bufs = (\<lambda>_. \<lparr>cb_buf = [], cb_src = cons_source_none\<rparr>), cons_outs = [], cons_log = []\<rparr>"

definition tiny_env :: kenv where
  "tiny_env = \<lparr>ke_numa = tiny_numa, ke_bootpml4 = (\<lambda>_. replicate 512 0), ke_ncpu = 2, ke_inttimer = (\<lambda>_. True),
     ke_stack = (9, 8), ke_depth = 4\<rparr>"

theorem id_alloc_unique_witness:
  "case id_allocs tiny_env [0, 1, 0] (kst0 tiny_mem) of (Ok xs, s') \<Rightarrow> distinct xs \<and> 0 \<notin> set xs | _ \<Rightarrow> True"
  using id_alloc_unique [of "[0, 1, 0]" "kst0 tiny_mem" tiny_env] by (simp add: kst0_def JOS_NCPU_def)

end
