(* ===== verification/Share.thy ===== *)
theory Share
  imports Kobject Kmap_Rehash
begin

text \<open>
  Shares (\<^verbatim>\<open>kern/kern/share.c\<close>), the tables that name the objects a program may use, and share maps
  (\<^verbatim>\<open>kern/kern/sharemap.c\<close>), the shares a processor holds.

  A share maps object identifiers to blobs.  A blob is a slot of 40 bytes in a page of a
  per-processor pool and holds the entry of an object (\<^verbatim>\<open>share_info\<close>) or a deferred action
  (\<^verbatim>\<open>share_action\<close>).  Entries are always written before they are read, so their contents are kept by
  blob address in \<open>sh_infos\<close>; deferred actions are the elements of the two action lists, the kind of
  an action being that of its list.  The share lock makes each operation atomic.
\<close>

subsection \<open>Blobs\<close>

definition SHAREBLOB_SIZE :: nat where
  [layout_consts]: "SHAREBLOB_SIZE = 40"

definition N_SHAREBLOB_PER_PAGE :: nat where
  [layout_consts]: "N_SHAREBLOB_PER_PAGE = 4096 div SHAREBLOB_SIZE"

definition empty_pool :: "nat \<Rightarrow> share_pool" where
  "empty_pool pid = \<lparr>sp_free = [], sp_npages = 0, sp_pt = pagetree_init False pid\<rparr>"

definition share_alloc :: "kenv \<Rightarrow> u32 \<Rightarrow> nat \<Rightarrow> kst \<Rightarrow> page result \<times> kst" where
  "share_alloc e kobj_mask pid =
     kobject_alloc e kobj_share
       (KShare \<lparr>sh_kobject_map = map_init pid, sh_blob = (\<lambda>_. empty_pool pid), sh_mask = kobj_mask\<rparr>) pid"

definition set_pool :: "page \<Rightarrow> Share \<Rightarrow> nat \<Rightarrow> share_pool \<Rightarrow> kst \<Rightarrow> kst" where
  "set_pool sh S cpu pool = set_body sh (KShare (S\<lparr>sh_blob := (sh_blob S)(cpu := pool)\<rparr>))"

text \<open>The blobs of a fresh page in the order in which inserting each at the head leaves them.\<close>

definition page_blobs :: "page \<Rightarrow> kptr list" where
  "page_blobs p = rev (map (\<lambda>i. (p, i * SHAREBLOB_SIZE)) [0..<N_SHAREBLOB_PER_PAGE])"

definition share_blob_alloc :: "kenv \<Rightarrow> page \<Rightarrow> kst \<Rightarrow> kptr result \<times> kst" where
  "share_blob_alloc e sh s =
     with_sh sh s (\<lambda>S.
       let cpu = arch_cpu e; pool = sh_blob S cpu in
       case sp_free pool of
         b # bs \<Rightarrow> (Ok b, set_pool sh S cpu (pool\<lparr>sp_free := bs\<rparr>) s)
       | [] \<Rightarrow>
           bind_r (on_mem (page_alloc (ke_numa e) (ko_pid (hdr s sh))) s) (\<lambda>blobs s.
             let (r, pt, m) = pagetree_put_page (ke_numa e) (sp_npages pool) (Some blobs) (sp_pt pool, km s);
                 pool = pool\<lparr>sp_pt := pt\<rparr>;
                 s = set_pool sh S cpu pool (s\<lparr>km := m\<rparr>)
             in case r of
                  Ok _ \<Rightarrow>
                    (Ok (hd (page_blobs blobs)),
                     set_pool sh S cpu (pool\<lparr>sp_free := tl (page_blobs blobs), sp_npages := sp_npages pool + 1\<rparr>)
                       (s\<lparr>km := page_zero blobs (km s)\<rparr>))
                | Err er \<Rightarrow> bind_r (on_mem (page_free (ke_numa e) blobs 0) s) (\<lambda>_ s. (Err er, s))
                | Panic \<Rightarrow> (Panic, s)))"

definition share_blob_free :: "kenv \<Rightarrow> page \<Rightarrow> kptr \<Rightarrow> kst \<Rightarrow> unit result \<times> kst" where
  "share_blob_free e sh sb s =
     with_sh sh s (\<lambda>S.
       let cpu = arch_cpu e; pool = sh_blob S cpu in
       (Ok (), set_pool sh S cpu (pool\<lparr>sp_free := sb # sp_free pool\<rparr>) s))"

subsection \<open>Deferred actions\<close>

definition upd_info :: "kptr \<Rightarrow> (share_info \<Rightarrow> share_info) \<Rightarrow> kst \<Rightarrow> kst" where
  "upd_info a f s = s\<lparr>sh_infos := (sh_infos s)(a := f (sh_infos s a))\<rparr>"

definition share_action_ci :: "kptr \<Rightarrow> kst \<Rightarrow> unit result \<times> kst" where
  "share_action_ci si s =
     (if si_co (sh_infos s si) = 0 then (Panic, s)
      else (Ok (), upd_info si (\<lambda>i. i\<lparr>si_co := si_co i - 1\<rparr>) s))"

text \<open>The action waits until no processor has the object checked out.\<close>

definition share_action_dec :: "kenv \<Rightarrow> page \<Rightarrow> kptr \<Rightarrow> kst \<Rightarrow> (unit result \<times> kst) option" where
  "share_action_dec e sh si s =
     (if si_co (sh_infos s si) \<noteq> 0 then None
      else Some (bind_r (kobject_decref e (si_ko (sh_infos s si)) s) (\<lambda>_ s. share_blob_free e sh si s)))"

primrec scan_ci :: "kenv \<Rightarrow> share_action list \<Rightarrow> kst \<Rightarrow> unit result \<times> kst" where
  "scan_ci e [] s = (Ok (), s)"
| "scan_ci e (sa # l) s =
     bind_r (share_action_ci (sa_si sa) s) (\<lambda>_ s.
       bind_r (share_blob_free e (sa_sh sa) (sa_blob sa) (s\<lparr>sh_ci_list := (sh_ci_list s)(arch_cpu e := l)\<rparr>)) (\<lambda>_.
         scan_ci e l))"

primrec scan_rm :: "kenv \<Rightarrow> share_action list \<Rightarrow> kst \<Rightarrow> (unit result \<times> kst) option" where
  "scan_rm e [] s = Some (Ok (), s)"
| "scan_rm e (sa # l) s =
     bind_w (share_action_dec e (sa_sh sa) (sa_si sa) s) (\<lambda>_ s.
       bind_w (Some (share_blob_free e (sa_sh sa) (sa_blob sa) (s\<lparr>sh_rm_list := (sh_rm_list s)(arch_cpu e := l)\<rparr>)))
         (\<lambda>_. scan_rm e l))"

definition share_action_scan :: "kenv \<Rightarrow> kst \<Rightarrow> (unit result \<times> kst) option" where
  "share_action_scan e s =
     bind_w (Some (scan_ci e (sh_ci_list s (arch_cpu e)) s)) (\<lambda>_ s. scan_rm e (sh_rm_list s (arch_cpu e)) s)"

subsection \<open>Objects of a share\<close>

primrec type_num :: "kobject_type \<Rightarrow> nat" where
  "type_num kobj_segment = 0"
| "type_num kobj_address_tree = 1"
| "type_num kobj_processor = 2"
| "type_num kobj_share = 3"
| "type_num kobj_device = 4"
| "type_num kobj_any = 6"

definition type_bit :: "kobject_type \<Rightarrow> u32" where
  "type_bit t = push_bit (type_num t) 1"

definition share_put :: "kenv \<Rightarrow> page \<Rightarrow> u64 \<Rightarrow> u64 \<Rightarrow> kst \<Rightarrow> unit result \<times> kst" where
  "share_put e sh oid v s =
     with_sh sh s (\<lambda>S.
       let (r, mp, m) = map_put (ke_numa e) (ke_stack e) oid v (sh_kobject_map S, km s) in
       (r, set_body sh (KShare (S\<lparr>sh_kobject_map := mp\<rparr>)) (s\<lparr>km := m\<rparr>)))"

definition share_get :: "kenv \<Rightarrow> page \<Rightarrow> u64 \<Rightarrow> kst \<Rightarrow> kptr result \<times> kst" where
  "share_get e sh oid s =
     with_sh sh s (\<lambda>S.
       (case map_get (ke_numa e) oid (sh_kobject_map S, km s) of
          Ok v \<Rightarrow> Ok (va_kptr v) | Err er \<Rightarrow> Err er | Panic \<Rightarrow> Panic, s))"

definition share_erase :: "kenv \<Rightarrow> page \<Rightarrow> u64 \<Rightarrow> kst \<Rightarrow> unit result \<times> kst" where
  "share_erase e sh oid s =
     with_sh sh s (\<lambda>S.
       let (r, mp, m) = map_erase (ke_numa e) oid (sh_kobject_map S, km s) in
       (r, set_body sh (KShare (S\<lparr>sh_kobject_map := mp\<rparr>)) (s\<lparr>km := m\<rparr>)))"

definition share_import_obj :: "kenv \<Rightarrow> page \<Rightarrow> page \<Rightarrow> kst \<Rightarrow> unit result \<times> kst" where
  "share_import_obj e sh ko s =
     with_sh sh s (\<lambda>S.
       if type_bit (ko_type (hdr s ko)) AND sh_mask S = 0 then (Err E_INVAL, s)
       else
         bind_r (share_blob_alloc e sh s) (\<lambda>sb0 s.
           let s = upd_info sb0 (\<lambda>_. \<lparr>si_ko = ko, si_co = 0, si_cnt = 1\<rparr>) s; oid = ko_id (hdr s ko) in
           case share_get e sh oid s of
             (Ok sb1, s) \<Rightarrow> share_blob_free e sh sb0 (upd_info sb1 (\<lambda>i. i\<lparr>si_cnt := si_cnt i + 1\<rparr>) s)
           | (Err _, s) \<Rightarrow>
               (case share_put e sh oid (kptr_va sb0) s of
                  (Ok _, s) \<Rightarrow> (Ok (), kobject_incref ko s)
                | (Err er, s) \<Rightarrow> bind_r (share_blob_free e sh sb0 s) (\<lambda>_ s. (Err er, s))
                | (Panic, s) \<Rightarrow> (Panic, s))
           | (Panic, s) \<Rightarrow> (Panic, s)))"

definition share_co_obj :: "kenv \<Rightarrow> page \<Rightarrow> u64 \<Rightarrow> kobject_type \<Rightarrow> kst \<Rightarrow> page result \<times> kst" where
  "share_co_obj e sh oid type s =
     bind_r (share_get e sh oid s) (\<lambda>sb0 s.
       if ko_type (hdr s (si_ko (sh_infos s sb0))) \<noteq> type \<and> type \<noteq> kobj_any then (Err E_INVAL, s)
       else
         bind_r (share_blob_alloc e sh s) (\<lambda>sb1 s.
           let s = upd_info sb0 (\<lambda>i. i\<lparr>si_co := si_co i + 1\<rparr>) s; cpu = arch_cpu e in
           (Ok (si_ko (sh_infos s sb0)),
            s\<lparr>sh_ci_list := (sh_ci_list s)(cpu := \<lparr>sa_blob = sb1, sa_sh = sh, sa_si = sb0\<rparr> # sh_ci_list s cpu)\<rparr>)))"

definition share_remove_obj :: "kenv \<Rightarrow> page \<Rightarrow> u64 \<Rightarrow> kst \<Rightarrow> unit result \<times> kst" where
  "share_remove_obj e sh oid s =
     bind_r (share_get e sh oid s) (\<lambda>sb0 s.
       let s = upd_info sb0 (\<lambda>i. i\<lparr>si_cnt := si_cnt i - 1\<rparr>) s in
       if si_cnt (sh_infos s sb0) \<noteq> 0 then (Ok (), s)
       else
         bind_r (share_blob_alloc e sh s) (\<lambda>sb1 s.
           bind_r (assert_ok (share_erase e sh oid s)) (\<lambda>_ s.
             let cpu = arch_cpu e in
             (Ok (), s\<lparr>sh_rm_list := (sh_rm_list s)(cpu := \<lparr>sa_blob = sb1, sa_sh = sh, sa_si = sb0\<rparr> # sh_rm_list s cpu)\<rparr>))))"

subsection \<open>The shares of a processor\<close>

definition sharemap_init :: "nat \<Rightarrow> page \<Rightarrow> u32 \<Rightarrow> Sharemap" where
  "sharemap_init pid owner share_mask = \<lparr>sm_map = map_init pid, sm_owner = owner, sm_mask = share_mask\<rparr>"

text \<open>A share map is the field of a processor object, which names it.\<close>

definition set_sharemap :: "page \<Rightarrow> Processor \<Rightarrow> Map \<Rightarrow> kst \<Rightarrow> kst" where
  "set_sharemap ps P mp = set_body ps (KProcessor (P\<lparr>ps_sharemap := (ps_sharemap P)\<lparr>sm_map := mp\<rparr>\<rparr>))"

definition sharemap_add :: "kenv \<Rightarrow> page \<Rightarrow> page \<Rightarrow> kst \<Rightarrow> unit result \<times> kst" where
  "sharemap_add e ps sh s =
     with_ps ps s (\<lambda>P. with_sh sh s (\<lambda>S.
       if sh_mask S AND sm_mask (ps_sharemap P) \<noteq> sh_mask S then (Err E_INVAL, s)
       else
         (let (r, mp, m) = map_put (ke_numa e) (ke_stack e) (ko_id (hdr s sh)) (kptr_va (sh, 0)) (sm_map (ps_sharemap P), km s)
          in bind_r (r, set_sharemap ps P mp (s\<lparr>km := m\<rparr>)) (\<lambda>_ s. (Ok (), kobject_incref sh s)))))"

definition sharemap_get :: "kenv \<Rightarrow> page \<Rightarrow> u64 \<Rightarrow> kst \<Rightarrow> page result \<times> kst" where
  "sharemap_get e ps oid s =
     with_ps ps s (\<lambda>P.
       (case map_get (ke_numa e) oid (sm_map (ps_sharemap P), km s) of
          Ok v \<Rightarrow> Ok (fst (va_kptr v)) | Err er \<Rightarrow> Err er | Panic \<Rightarrow> Panic, s))"

definition sharemap_free :: "kenv \<Rightarrow> page \<Rightarrow> kst \<Rightarrow> unit result \<times> kst" where
  "sharemap_free e ps s =
     with_ps ps s (\<lambda>P.
       let (r, mp, m) = map_free (ke_numa e) (sm_map (ps_sharemap P), km s) in
       (r, set_sharemap ps P mp (s\<lparr>km := m\<rparr>)))"

definition sharemap_co_obj :: "kenv \<Rightarrow> page \<Rightarrow> sobj_ref \<Rightarrow> kobject_type \<Rightarrow> kst \<Rightarrow> page result \<times> kst" where
  "sharemap_co_obj e ps oref type s =
     bind_r (sharemap_get e ps (so_share oref) s) (\<lambda>sh s.
       if so_share oref = so_object oref then (Ok sh, s)
       else share_co_obj e sh (so_object oref) type s)"

end
