(* ===== verification/Atmap.thy ===== *)
theory Atmap
  imports Share
begin

text \<open>
  Address mappings: the records that link an address tree to the objects it maps
  (\<^verbatim>\<open>kern/kern/atmap.c\<close>, \<^verbatim>\<open>kern/kern/atmap.h\<close>), their storage in the arrays of the tree, and the
  invalidation of what was filled in from them (the lower half of \<^verbatim>\<open>kern/kern/at.c\<close>).

  A mapping lives in the words of an array page, so a fresh array page holds null mappings.  The
  list links of a mapping are not stored: the lists of an object are kept in its record.
\<close>

subsection \<open>Records in pages\<close>

definition ld :: "physmem \<Rightarrow> kptr \<Rightarrow> nat \<Rightarrow> u64" where
  "ld m a i = page_words m (fst a) ! (snd a div 8 + i)"

definition st :: "kptr \<Rightarrow> nat \<Rightarrow> u64 \<Rightarrow> physmem \<Rightarrow> physmem" where
  "st a i w m = m\<lparr>page_words := (page_words m)(fst a := (page_words m (fst a))[snd a div 8 + i := w])\<rparr>"

definition ptr_word :: "page option \<Rightarrow> u64" where
  "ptr_word p = (case p of None \<Rightarrow> 0 | Some p \<Rightarrow> kptr_va (p, 0))"

definition word_ptr :: "u64 \<Rightarrow> page option" where
  "word_ptr w = (if w = 0 then None else Some (fst (va_kptr w)))"

text \<open>The two 32-bit fields \<open>kslot\<close> and \<open>flags\<close> share a word.\<close>

record u_address_mapping =
  uam_type :: u32
  uam_object :: sobj_ref
  uam_kslot :: u32
  uam_flags :: u32
  uam_va :: u64
  uam_start_page :: u64
  uam_num_pages :: u64

definition UADDRMAP_SIZE :: u64 where
  "UADDRMAP_SIZE = 56"

definition ADDRMAP_SIZE :: u64 where
  "ADDRMAP_SIZE = 80"

definition address_mapping_segment :: u32 where
  "address_mapping_segment = 1"

definition address_mapping_interior :: u32 where
  "address_mapping_interior = 2"

definition ld_uam :: "physmem \<Rightarrow> kptr \<Rightarrow> u_address_mapping" where
  "ld_uam m a =
     \<lparr>uam_type = ucast (ld m a 0), uam_object = SOBJ (ld m a 1) (ld m a 2),
      uam_kslot = ucast (ld m a 3), uam_flags = ucast (drop_bit 32 (ld m a 3)),
      uam_va = ld m a 4, uam_start_page = ld m a 5, uam_num_pages = ld m a 6\<rparr>"

definition uam_words :: "u_address_mapping \<Rightarrow> u64 list" where
  "uam_words u =
     [ucast (uam_type u), so_share (uam_object u), so_object (uam_object u),
      ucast (uam_kslot u) OR push_bit 32 (ucast (uam_flags u)), uam_va u, uam_start_page u, uam_num_pages u]"

primrec st_words :: "kptr \<Rightarrow> nat \<Rightarrow> u64 list \<Rightarrow> physmem \<Rightarrow> physmem" where
  "st_words a i [] m = m"
| "st_words a i (w # ws) m = st_words a (Suc i) ws (st a i w m)"

definition st_uam :: "kptr \<Rightarrow> u_address_mapping \<Rightarrow> physmem \<Rightarrow> physmem" where
  "st_uam a u = st_words a 0 (uam_words u)"

record address_mapping2 =
  am_kobj :: "page option"
  am_parent :: page
  am_ps :: page
  am_sh :: u64
  am_va_first :: u64
  am_va_last :: u64
  am_at_slot :: u64

definition ld_am :: "physmem \<Rightarrow> kptr \<Rightarrow> address_mapping2" where
  "ld_am m a =
     \<lparr>am_kobj = word_ptr (ld m a 1), am_parent = fst (va_kptr (ld m a 2)), am_ps = fst (va_kptr (ld m a 3)),
      am_sh = ld m a 4, am_va_first = ld m a 5, am_va_last = ld m a 6, am_at_slot = ld m a 7\<rparr>"

definition st_am :: "kptr \<Rightarrow> address_mapping2 \<Rightarrow> physmem \<Rightarrow> physmem" where
  "st_am a x =
     st_words a 1 [ptr_word (am_kobj x), kptr_va (am_parent x, 0), kptr_va (am_ps x, 0),
                   am_sh x, am_va_first x, am_va_last x, am_at_slot x]"

definition clear_am_kobj :: "kptr \<Rightarrow> kst \<Rightarrow> kst" where
  "clear_am_kobj am s = s\<lparr>km := st am 1 0 (km s)\<rparr>"

definition upd_at :: "page \<Rightarrow> (Address_tree \<Rightarrow> Address_tree) \<Rightarrow> kst \<Rightarrow> kst" where
  "upd_at p f s = (case ko_body (kobjs s p) of KAddress_tree a \<Rightarrow> set_body p (KAddress_tree (f a)) s | _ \<Rightarrow> s)"

definition upd_sg :: "page \<Rightarrow> (Segment \<Rightarrow> Segment) \<Rightarrow> kst \<Rightarrow> kst" where
  "upd_sg p f s = (case ko_body (kobjs s p) of KSegment a \<Rightarrow> set_body p (KSegment (f a)) s | _ \<Rightarrow> s)"

definition upd_ps :: "page \<Rightarrow> (Processor \<Rightarrow> Processor) \<Rightarrow> kst \<Rightarrow> kst" where
  "upd_ps p f s = (case ko_body (kobjs s p) of KProcessor a \<Rightarrow> set_body p (KProcessor (f a)) s | _ \<Rightarrow> s)"

subsection \<open>Guarded access to user memory\<close>

text \<open>
  Between \<open>uaccess_start\<close> and \<open>uaccess_stop\<close> a page fault that cannot be resolved makes
  \<open>uaccess_start\<close> return a second time, with an error (\<^verbatim>\<open>kern/kern/uaccess.c\<close>).
\<close>

definition uaccess_enabled :: "kenv \<Rightarrow> kst \<Rightarrow> bool" where
  "uaccess_enabled e s = uaccess s (arch_cpu e)"

definition uaccess_start :: "kenv \<Rightarrow> kst \<Rightarrow> unit result \<times> kst" where
  "uaccess_start e s =
     (if uaccess s (arch_cpu e) then (Panic, s) else (Ok (), s\<lparr>uaccess := (uaccess s)(arch_cpu e := True)\<rparr>))"

definition uaccess_stop :: "kenv \<Rightarrow> kst \<Rightarrow> unit result \<times> kst" where
  "uaccess_stop e s =
     (if \<not> uaccess s (arch_cpu e) then (Panic, s) else (Ok (), s\<lparr>uaccess := (uaccess s)(arch_cpu e := False)\<rparr>))"

definition uaccess_error :: "kenv \<Rightarrow> kst \<Rightarrow> 'a result \<times> kst" where
  "uaccess_error e s =
     (if \<not> uaccess s (arch_cpu e) then (Panic, s)
      else (Err E_INVAL, s\<lparr>uaccess := (uaccess s)(arch_cpu e := False)\<rparr>))"

text \<open>A guarded access that reads a value, which is missing when the access faults.\<close>

definition copy_user :: "kenv \<Rightarrow> 'a option \<Rightarrow> kst \<Rightarrow> 'a result \<times> kst" where
  "copy_user e v s =
     bind_r (uaccess_start e s) (\<lambda>_ s.
       case v of None \<Rightarrow> uaccess_error e s | Some x \<Rightarrow> bind_r (uaccess_stop e s) (\<lambda>_ s. (Ok x, s)))"

subsection \<open>Interrupting other processors\<close>

definition arch_ipi :: "kenv \<Rightarrow> nat \<Rightarrow> ipi \<Rightarrow> kst \<Rightarrow> unit result \<times> kst" where
  "arch_ipi e pid i s = (if ke_ncpu e \<le> pid then (Err E_INVAL, s) else (Ok (), s\<lparr>ipis := i # ipis s\<rparr>))"

definition arch_tlbflush_mp :: "kenv \<Rightarrow> nat \<Rightarrow> kst \<Rightarrow> unit result \<times> kst" where
  "arch_tlbflush_mp e pid s = assert_ok (arch_ipi e pid (IPI_tlbflush pid) s)"

definition arch_halt_mp :: "kenv \<Rightarrow> nat \<Rightarrow> kst \<Rightarrow> unit result \<times> kst" where
  "arch_halt_mp e pid s = assert_ok (arch_ipi e pid (IPI_halt pid) s)"

definition processor_sched :: "kenv \<Rightarrow> kst \<Rightarrow> page option" where
  "processor_sched e s = processors s (arch_cpu e)"

subsection \<open>Lists of mappings\<close>

text \<open>The list of mappings of a segment or an address tree.\<close>

definition aml_get_list :: "page \<Rightarrow> kst \<Rightarrow> kptr list result" where
  "aml_get_list ko s =
     (case ko_body (kobjs s ko) of
        KSegment sg \<Rightarrow> Ok (sg_map_list sg) | KAddress_tree at \<Rightarrow> Ok (at_map_list at) | _ \<Rightarrow> Panic)"

definition set_aml :: "page \<Rightarrow> kptr list \<Rightarrow> kst \<Rightarrow> kst" where
  "set_aml ko l s =
     (case ko_body (kobjs s ko) of
        KSegment sg \<Rightarrow> set_body ko (KSegment (sg\<lparr>sg_map_list := l\<rparr>)) s
      | KAddress_tree at \<Rightarrow> set_body ko (KAddress_tree (at\<lparr>at_map_list := l\<rparr>)) s
      | _ \<Rightarrow> s)"

definition aml_insert :: "page \<Rightarrow> kptr \<Rightarrow> kst \<Rightarrow> unit result \<times> kst" where
  "aml_insert ko am s =
     (case aml_get_list ko s of Ok l \<Rightarrow> (Ok (), set_aml ko (am # l) s) | _ \<Rightarrow> (Panic, s))"

definition aml_remove :: "page \<Rightarrow> kptr \<Rightarrow> kst \<Rightarrow> unit result \<times> kst" where
  "aml_remove ko am s =
     (case aml_get_list ko s of Ok l \<Rightarrow> (Ok (), set_aml ko (remove1 am l) s) | _ \<Rightarrow> (Panic, s))"

text \<open>Running a step for each element of a list.\<close>

primrec for_each :: "('a \<Rightarrow> 's \<Rightarrow> unit result \<times> 's) \<Rightarrow> 'a list \<Rightarrow> 's \<Rightarrow> unit result \<times> 's" where
  "for_each f [] s = (Ok (), s)"
| "for_each f (x # xs) s = bind_r (f x s) (\<lambda>_. for_each f xs)"

definition aml_foreach :: "page \<Rightarrow> (kptr \<Rightarrow> kst \<Rightarrow> unit result \<times> kst) \<Rightarrow> kst \<Rightarrow> unit result \<times> kst" where
  "aml_foreach ko cb s = (case aml_get_list ko s of Ok l \<Rightarrow> for_each cb l s | _ \<Rightarrow> (Panic, s))"

subsection \<open>Flushing and invalidating\<close>

definition kobj_cache_flush :: "kenv \<Rightarrow> page \<Rightarrow> kst \<Rightarrow> unit result \<times> kst" where
  "kobj_cache_flush e at s =
     with_at at s (\<lambda>A.
       bind_r (if so_object (at_obj_ref A) \<noteq> 0 then kobject_decref e (at_obj_ko A) s else (Ok (), s)) (\<lambda>_ s.
         (Ok (), upd_at at (\<lambda>A. A\<lparr>at_obj_ref := (at_obj_ref A)\<lparr>so_object := 0\<rparr>\<rparr>) s)))"

definition at_invalidate_range :: "page \<Rightarrow> u64 \<Rightarrow> u64 \<Rightarrow> kst \<Rightarrow> unit result \<times> kst" where
  "at_invalidate_range at first lst s =
     with_at at s (\<lambda>A. case at_pgmap A of None \<Rightarrow> (Panic, s) | Some pg \<Rightarrow> on_mem (page_map_invalidate pg first lst) s)"

text \<open>
  The processors that use a root address tree are told to flush.  An interior tree passes the
  request on to the trees it is mapped in, which must be roots, so the recursion of the code stops
  there.
\<close>

definition flush_root :: "kenv \<Rightarrow> page \<Rightarrow> kst \<Rightarrow> unit result \<times> kst" where
  "flush_root e at s =
     with_at at s (\<lambda>A.
       for_each (\<lambda>ps s.
         if Some ps = processor_sched e s then (Ok (), s)
         else with_ps ps s (\<lambda>P. arch_tlbflush_mp e (ps_pid P) s)) (at_ps_list A) s)"

definition at_tlbflush_helper :: "kenv \<Rightarrow> kptr \<Rightarrow> kst \<Rightarrow> unit result \<times> kst" where
  "at_tlbflush_helper e am s =
     (let at = am_parent (ld_am (km s) am) in
      with_at at s (\<lambda>A. if at_interior A then (Panic, s) else flush_root e at s))"

definition at_tlbflush_others :: "kenv \<Rightarrow> page \<Rightarrow> kst \<Rightarrow> unit result \<times> kst" where
  "at_tlbflush_others e at s =
     with_at at s (\<lambda>A. if at_interior A then aml_foreach at (at_tlbflush_helper e) s else flush_root e at s)"

definition at_invalidate_addrmap :: "kenv \<Rightarrow> page \<Rightarrow> kptr \<Rightarrow> kst \<Rightarrow> unit result \<times> kst" where
  "at_invalidate_addrmap e at am s =
     bind_r (kobj_cache_flush e at s) (\<lambda>_ s.
       let x = ld_am (km s) am in
       if am_kobj x = None then (Ok (), s)
       else
         bind_r (at_tlbflush_others e at s) (\<lambda>_ s.
           bind_r (at_invalidate_range at (am_va_first x) (am_va_last x) s) (\<lambda>_ s.
             (Ok (), clear_am_kobj am s))))"

text \<open>
  The loops remember the previous element to go on after a removal; what they visit are the elements
  the list had, in order, as nothing else changes it meanwhile.
\<close>

definition aml_drop :: "kenv \<Rightarrow> page \<Rightarrow> (address_mapping2 \<Rightarrow> bool) \<Rightarrow> kptr \<Rightarrow> kst \<Rightarrow> unit result \<times> kst" where
  "aml_drop e ko sel am s =
     (let x = ld_am (km s) am in
      if am_kobj x = None then (Panic, s)
      else if sel x then bind_r (aml_remove ko am s) (\<lambda>_ s. at_invalidate_addrmap e (am_parent x) am s)
      else (Ok (), s))"

definition aml_invalidate :: "kenv \<Rightarrow> page \<Rightarrow> u64 \<Rightarrow> kst \<Rightarrow> unit result \<times> kst" where
  "aml_invalidate e ko sh = aml_foreach ko (aml_drop e ko (\<lambda>x. sh = 0 \<or> sh = am_sh x))"

definition aml_scope :: "kenv \<Rightarrow> page \<Rightarrow> u64 \<Rightarrow> page \<Rightarrow> kst \<Rightarrow> unit result \<times> kst" where
  "aml_scope e ko sh scope_ps = aml_foreach ko (aml_drop e ko (\<lambda>x. sh = am_sh x \<and> scope_ps = am_ps x))"

end
