(* ===== verification/Segment_Obj.thy ===== *)
theory Segment_Obj
  imports Atmap
begin

text \<open>
  Segments (\<^verbatim>\<open>kern/kern/segment.c\<close>): resizable arrays of pages that address trees map.
\<close>

definition segment_alloc :: "kenv \<Rightarrow> nat \<Rightarrow> kst \<Rightarrow> page result \<times> kst" where
  "segment_alloc e pid s =
     (case darray_init PGSIZE True pid of
        Ok a \<Rightarrow> kobject_alloc e kobj_segment (KSegment \<lparr>sg_map_list = [], sg_pages = a\<rparr>) pid s
      | _ \<Rightarrow> (Panic, s))"

definition segment_get_npage :: "page \<Rightarrow> kst \<Rightarrow> u64 result \<times> kst" where
  "segment_get_npage sg s = with_sg sg s (\<lambda>S. (Ok (darray_get_nent (sg_pages S)), s))"

definition segment_get_page :: "kenv \<Rightarrow> page \<Rightarrow> u64 \<Rightarrow> page_sharing_mode \<Rightarrow> kst \<Rightarrow> page option result \<times> kst" where
  "segment_get_page e sg npage mode s =
     with_sg sg s (\<lambda>S.
       let (r, a, m) = darray_get (ke_numa e) npage mode (sg_pages S, km s) in
       bind_r (r, upd_sg sg (\<lambda>S. S\<lparr>sg_pages := a\<rparr>) (s\<lparr>km := m\<rparr>)) (\<lambda>b s. (Ok (fst b), s)))"

definition segment_remove_cb :: "kenv \<Rightarrow> page \<Rightarrow> u64 \<Rightarrow> kst \<Rightarrow> unit result \<times> kst" where
  "segment_remove_cb e sg sh = aml_invalidate e sg sh"

definition segment_invalidate :: "kenv \<Rightarrow> page \<Rightarrow> kst \<Rightarrow> unit result \<times> kst" where
  "segment_invalidate e sg = segment_remove_cb e sg 0"

definition segment_scope_cb :: "kenv \<Rightarrow> page \<Rightarrow> u64 \<Rightarrow> page \<Rightarrow> kst \<Rightarrow> unit result \<times> kst" where
  "segment_scope_cb e sg sh scope_ps = aml_scope e sg sh scope_ps"

definition segment_set_nbytes :: "kenv \<Rightarrow> page \<Rightarrow> u64 \<Rightarrow> kst \<Rightarrow> unit result \<times> kst" where
  "segment_set_nbytes e sg num_bytes s =
     (let npages = ROUNDUP num_bytes PGSIZE div PGSIZE in
      with_sg sg s (\<lambda>S.
        bind_r (if npages < darray_get_nent (sg_pages S) then segment_invalidate e sg s else (Ok (), s)) (\<lambda>_ s.
          with_sg sg s (\<lambda>S.
            if darray_get_nent (sg_pages S) \<noteq> npages then
              (let (r, a, m) = darray_set_nent (ke_numa e) npages False (sg_pages S, km s) in
               (r, upd_sg sg (\<lambda>S. S\<lparr>sg_pages := a\<rparr>) (s\<lparr>km := m\<rparr>)))
            else (Ok (), s)))))"

text \<open>A mode that is none of the three is refused; the caller passes any number.\<close>

definition segment_copy :: "kenv \<Rightarrow> page \<Rightarrow> page_sharing_mode option \<Rightarrow> nat \<Rightarrow> kst \<Rightarrow> page result \<times> kst" where
  "segment_copy e src mode pid s =
     (case mode of
        None \<Rightarrow> (Err E_INVAL, s)
      | Some mode \<Rightarrow>
          if mode = page_none then (Err E_INVAL, s)
          else
            bind_r (segment_alloc e pid s) (\<lambda>dst s.
              bind_r (if mode = page_shared_cor \<or> mode = page_shared_cow then segment_invalidate e src s else (Ok (), s)) (\<lambda>_ s.
                with_sg src s (\<lambda>S. with_sg dst s (\<lambda>D.
                  let (r, a, b, m) = darray_copy (ke_numa e) mode (sg_pages S, sg_pages D, km s) in
                  bind_r (r, upd_sg dst (\<lambda>D. D\<lparr>sg_pages := b\<rparr>) (upd_sg src (\<lambda>S. S\<lparr>sg_pages := a\<rparr>) (s\<lparr>km := m\<rparr>)))
                    (\<lambda>_ s. (Ok dst, s)))))))"

definition segment_set_pages :: "kst \<Rightarrow> unit result \<times> kst" where
  "segment_set_pages s = (Err E_UNSPEC, s)"

definition segment_gc_cb :: "kenv \<Rightarrow> page \<Rightarrow> kst \<Rightarrow> unit result \<times> kst" where
  "segment_gc_cb e sg s =
     with_sg sg s (\<lambda>S.
       let (r, a, m) = darray_free (ke_numa e) (sg_pages S, km s) in
       (r, upd_sg sg (\<lambda>S. S\<lparr>sg_pages := a\<rparr>) (s\<lparr>km := m\<rparr>)))"

end
