(* ===== verification/At.thy ===== *)
theory At
  imports Segment_Obj
begin

text \<open>
  Address trees (\<^verbatim>\<open>kern/kern/at.c\<close>): the arrays of mappings, the page-fault path that fills the page
  maps, the exchange of the mappings with user programs, and \<^verbatim>\<open>check_user_access\<close>
  (\<^verbatim>\<open>kern/arch/amd64/pmap.c\<close>).

  Structures that a user program passes by address are arguments of the model, with the address where
  the code computes with it; stores through such addresses are logged in \<open>ustores\<close>.
\<close>

subsection \<open>Allocation and the arrays of mappings\<close>

definition null_darray :: darray where
  "null_darray = \<lparr>da_pt = pagetree_init False 0, da_pid = 0, da_pp = 0, da_esz = 0, da_nent = 0, da_demand = False\<rparr>"

definition null_at :: Address_tree where
  "null_at =
     \<lparr>at_ps_list = [], at_pgmap = None, at_utrap_entry = 0, at_utrap_stack_base = 0, at_utrap_stack_top = 0,
      at_interior = False, at_map_list = [], at_uaddrmap = null_darray, at_addrmap = null_darray,
      at_obj_ref = SOBJ 0 0, at_obj_ko = 0, at_obj_ps_id = 0,
      at_range_va_start = 0, at_range_va_end = 0, at_range_uam = None\<rparr>"

text \<open>\<open>interior\<close> is a byte; the two flags made from it, \<open>at_interior\<close> and \<open>pi_pmap_int\<close>, are single bits.\<close>

definition at_alloc :: "kenv \<Rightarrow> u8 \<Rightarrow> nat \<Rightarrow> kst \<Rightarrow> page result \<times> kst" where
  "at_alloc e interior pid s =
     bind_r (kobject_alloc e kobj_address_tree (KAddress_tree null_at) pid s) (\<lambda>ko s.
       bind_r (on_mem (page_map_alloc (ke_numa e) (ke_bootpml4 e) (interior AND 1 \<noteq> 0) pid) s) (\<lambda>pgmap s.
         let s = (if interior \<noteq> 0 then s\<lparr>km := page_zero pgmap (km s)\<rparr> else s) in
         case (darray_init UADDRMAP_SIZE False pid, darray_init ADDRMAP_SIZE False pid) of
           (Ok u, Ok a) \<Rightarrow>
             (Ok ko, upd_at ko (\<lambda>A. A\<lparr>at_pgmap := Some pgmap, at_interior := interior AND 1 \<noteq> 0, at_map_list := [],
                                    at_uaddrmap := u, at_addrmap := a, at_ps_list := []\<rparr>) s)
         | _ \<Rightarrow> (Panic, s)))"

definition at_nents :: "Address_tree \<Rightarrow> u64" where
  "at_nents A = darray_get_nent (at_uaddrmap A)"

definition at_resize :: "kenv \<Rightarrow> page \<Rightarrow> u64 \<Rightarrow> kst \<Rightarrow> unit result \<times> kst" where
  "at_resize e at nent s =
     with_at at s (\<lambda>A.
       let (r, a, m) = darray_set_nent (ke_numa e) nent True (at_uaddrmap A, km s) in
       (r, upd_at at (\<lambda>A. A\<lparr>at_range_uam := (if nent < da_nent (at_uaddrmap A) then None else at_range_uam A),
                            at_uaddrmap := a\<rparr>) (s\<lparr>km := m\<rparr>)))"

text \<open>The address of an array element; an element without a page is a null pointer, which faults when used.\<close>

definition elem_ptr :: "(page option \<times> u64) result \<times> kst \<Rightarrow> kptr result \<times> kst" where
  "elem_ptr x = bind_r x (\<lambda>(b, off) s. case b of None \<Rightarrow> (Panic, s) | Some p \<Rightarrow> (Ok (p, unat off), s))"

definition at_get_uaddrmap :: "kenv \<Rightarrow> page \<Rightarrow> u64 \<Rightarrow> kst \<Rightarrow> kptr result \<times> kst" where
  "at_get_uaddrmap e at ami s =
     with_at at s (\<lambda>A.
       let (r, a, m) = darray_get (ke_numa e) ami page_excl (at_uaddrmap A, km s) in
       elem_ptr (r, upd_at at (\<lambda>A. A\<lparr>at_uaddrmap := a\<rparr>) (s\<lparr>km := m\<rparr>)))"

definition addrmap_get :: "kenv \<Rightarrow> page \<Rightarrow> u64 \<Rightarrow> kst \<Rightarrow> (page option \<times> u64) result \<times> kst" where
  "addrmap_get e at smi s =
     with_at at s (\<lambda>A.
       let (r, a, m) = darray_get (ke_numa e) smi page_excl (at_addrmap A, km s) in
       (r, upd_at at (\<lambda>A. A\<lparr>at_addrmap := a\<rparr>) (s\<lparr>km := m\<rparr>)))"

definition N_ADDRMAP_PER_PAGE :: u64 where
  "N_ADDRMAP_PER_PAGE = PGSIZE div ADDRMAP_SIZE"

definition at_get_addrmap :: "kenv \<Rightarrow> page \<Rightarrow> u64 \<Rightarrow> kst \<Rightarrow> kptr result \<times> kst" where
  "at_get_addrmap e at smi s =
     (case addrmap_get e at smi s of
        (Err E_INVAL, s) \<Rightarrow>
          with_at at s (\<lambda>A.
            let (r, a, m) = darray_grow_nent (ke_numa e) (ROUNDUP (smi + 1) N_ADDRMAP_PER_PAGE) (at_addrmap A, km s) in
            bind_r (r, upd_at at (\<lambda>A. A\<lparr>at_addrmap := a\<rparr>) (s\<lparr>km := m\<rparr>)) (\<lambda>_ s. elem_ptr (addrmap_get e at smi s)))
      | x \<Rightarrow> elem_ptr x)"

subsection \<open>Clearing and invalidating mappings\<close>

definition clear_slot :: "kenv \<Rightarrow> page \<Rightarrow> u64 \<Rightarrow> kst \<Rightarrow> unit result \<times> kst" where
  "clear_slot e at i s =
     bind_r (assert_ok (at_get_uaddrmap e at i s)) (\<lambda>uam s.
       if uam_flags (ld_uam (km s) uam) = 0 then (Ok (), s)
       else
         (case at_get_addrmap e at i s of
            (Ok am, s) \<Rightarrow>
              (case am_kobj (ld_am (km s) am) of
                 None \<Rightarrow> (Ok (), s)
               | Some ko \<Rightarrow> bind_r (aml_remove ko am s) (\<lambda>_ s. (Ok (), clear_am_kobj am s)))
          | (Err _, s) \<Rightarrow> (Ok (), s)
          | (Panic, s) \<Rightarrow> (Panic, s)))"

definition slot_range :: "u64 \<Rightarrow> u64 list" where
  "slot_range n = map of_nat [0..<unat n]"

definition at_clear_mappings :: "kenv \<Rightarrow> page \<Rightarrow> kst \<Rightarrow> unit result \<times> kst" where
  "at_clear_mappings e at s = with_at at s (\<lambda>A. for_each (clear_slot e at) (slot_range (at_nents A)) s)"

definition at_invalidate :: "kenv \<Rightarrow> page \<Rightarrow> page \<Rightarrow> kst \<Rightarrow> unit result \<times> kst" where
  "at_invalidate e at ps s =
     with_at at s (\<lambda>A. with_ps ps s (\<lambda>P.
       if at_interior A then (Panic, s)
       else if ps_at P \<noteq> Some at then (Ok (), s)
       else if Some ps = processor_sched e s then at_invalidate_range at 0 (ULIM - PGSIZE) s
       else (Panic, s)))"

definition at_invalidate_uaddrmap :: "kenv \<Rightarrow> page \<Rightarrow> u32 \<Rightarrow> kst \<Rightarrow> unit result \<times> kst" where
  "at_invalidate_uaddrmap e at kslot s =
     bind_r (assert_ok (at_get_addrmap e at (ucast kslot) s)) (\<lambda>am s.
       case am_kobj (ld_am (km s) am) of
         None \<Rightarrow> (Ok (), s)
       | Some ko \<Rightarrow> bind_r (aml_remove ko am s) (\<lambda>_ s. at_invalidate_addrmap e at am s))"

subsection \<open>Page faults\<close>

text \<open>The segment page that backs an address.\<close>

definition at_va_to_segment_page :: "u_address_mapping \<Rightarrow> u64 \<Rightarrow> u64 result" where
  "at_va_to_segment_page uam va =
     (let uva = ROUNDDOWN (uam_va uam) PGSIZE in
      if \<not> (uva \<le> va \<and> va < uva + uam_num_pages uam * PGSIZE) then Panic
      else Ok (uam_start_page uam + (va - uva) div PGSIZE))"

text \<open>Looking up an object on behalf of the running processor, with a cache of one entry.\<close>

definition kobj_get :: "kenv \<Rightarrow> page \<Rightarrow> sobj_ref \<Rightarrow> kobject_type \<Rightarrow> kst \<Rightarrow> page result \<times> kst" where
  "kobj_get e at ref type s =
     (case processor_sched e s of
        None \<Rightarrow> (Panic, s)
      | Some ps \<Rightarrow>
          (let ps_id = ko_id (hdr s ps) in
           with_at at s (\<lambda>A.
             if ps_id = at_obj_ps_id A \<and> so_object (at_obj_ref A) \<noteq> 0 \<and>
                so_object (at_obj_ref A) = so_object ref \<and> so_share (at_obj_ref A) = so_share ref
             then (Ok (at_obj_ko A), s)
             else
               bind_r (sharemap_co_obj e ps ref type s) (\<lambda>ko s.
                 bind_r (if so_object (at_obj_ref A) \<noteq> 0 then kobject_decref e (at_obj_ko A) s else (Ok (), s)) (\<lambda>_ s.
                   (Ok ko, kobject_incref ko
                             (upd_at at (\<lambda>A. A\<lparr>at_obj_ref := ref, at_obj_ko := ko, at_obj_ps_id := ps_id\<rparr>) s)))))))"

text \<open>Recording which object a slot of a tree maps, the first time a page of it is filled in.\<close>

definition link_am :: "kenv \<Rightarrow> page \<Rightarrow> u_address_mapping \<Rightarrow> page \<Rightarrow> kptr \<Rightarrow> kst \<Rightarrow> unit result \<times> kst" where
  "link_am e at uam ko am s =
     (case processor_sched e s of
        None \<Rightarrow> (Panic, s)
      | Some ps \<Rightarrow>
          aml_insert ko am
            (s\<lparr>km := st_am am \<lparr>am_kobj = Some ko, am_parent = at, am_ps = ps, am_sh = so_share (uam_object uam),
                               am_va_first = uam_va uam,
                               am_va_last = uam_va uam + (uam_num_pages uam - 1) * PGSIZE,
                               am_at_slot = ucast (uam_kslot uam)\<rparr> (km s)\<rparr>))"

definition PISIZE :: u64 where
  "PISIZE = push_bit 30 1"

definition PIPAGES :: u64 where
  "PIPAGES = drop_bit 12 PISIZE"

text \<open>A segment page is cleared when it is first mapped.\<close>

definition clear_page :: "page \<Rightarrow> physmem \<Rightarrow> physmem" where
  "clear_page pp m =
     (if pi_clear (page_to_pageinfo m pp) then m
      else set_pageinfo pp (\<lambda>pi. pi\<lparr>pi_clear := True\<rparr>) (page_zero pp m))"

definition fill_segment :: "kenv \<Rightarrow> page \<Rightarrow> u_address_mapping \<Rightarrow> u64 \<Rightarrow> kst \<Rightarrow> unit result \<times> kst" where
  "fill_segment e at uam va s =
     bind_r (kobj_get e at (uam_object uam) kobj_segment s) (\<lambda>sg s.
       bind_r (at_get_addrmap e at (ucast (uam_kslot uam)) s) (\<lambda>am s.
         let x = ld_am (km s) am in
         if am_kobj x \<noteq> None \<and> am_kobj x \<noteq> Some sg then (Panic, s)
         else
           bind_r (if am_kobj x = None then link_am e at uam sg am s else (Ok (), s)) (\<lambda>_ s.
             case at_va_to_segment_page uam va of
               Ok pnum \<Rightarrow>
                 bind_r (segment_get_page e sg pnum
                           (if uam_flags uam AND SEGMAP_WRITE \<noteq> 0 then page_shared_cow else page_shared_cor) s) (\<lambda>pp s.
                   case pp of
                     None \<Rightarrow> (Panic, s)
                   | Some pp \<Rightarrow>
                       (let s = s\<lparr>km := clear_page pp (km s)\<rparr> in
                        with_at at s (\<lambda>A.
                          case at_pgmap A of
                            None \<Rightarrow> (Panic, s)
                          | Some pg \<Rightarrow> on_mem (as_arch_putpage (ke_numa e) pg va pp (uam_flags uam) (ko_pid (hdr s at))) s)))
             | _ \<Rightarrow> (Panic, s))))"

definition put_interior :: "kenv \<Rightarrow> page \<Rightarrow> u64 \<Rightarrow> page \<Rightarrow> kst \<Rightarrow> unit result \<times> kst" where
  "put_interior e at va at_i s =
     with_at at s (\<lambda>A. with_at at_i s (\<lambda>B.
       case (at_pgmap A, at_pgmap B) of
         (Some pg, Some pi) \<Rightarrow> on_mem (as_arch_putinterior (ke_numa e) pg va pi (ko_pid (hdr s at_i))) s
       | _ \<Rightarrow> (Panic, s)))"

definition fill_interior ::
  "(page \<Rightarrow> u64 \<Rightarrow> kst \<Rightarrow> unit result \<times> kst) \<Rightarrow> kenv \<Rightarrow> page \<Rightarrow> u_address_mapping \<Rightarrow> u64 \<Rightarrow> kst \<Rightarrow> unit result \<times> kst"
where
  "fill_interior fill e at uam va s =
     (if uam_flags uam AND SEGMAP_WRITE = 0 then (Err E_INVAL, s)
      else
        bind_r (kobj_get e at (uam_object uam) kobj_address_tree s) (\<lambda>at_i s.
          with_at at_i s (\<lambda>B.
            if \<not> at_interior B then (Err E_INVAL, s)
            else
              bind_r (at_get_addrmap e at (ucast (uam_kslot uam)) s) (\<lambda>am s.
                let x = ld_am (km s) am in
                if am_kobj x \<noteq> None \<and> am_kobj x \<noteq> Some at_i then (Panic, s)
                else
                  bind_r (if am_kobj x = None
                          then bind_r (link_am e at uam at_i am s) (\<lambda>_ s. put_interior e at va at_i s)
                          else (Ok (), s)) (\<lambda>_ s.
                    fill at_i (va - ROUNDDOWN (uam_va uam) PISIZE) s)))))"

definition at_pmap_fill_mapping ::
  "(page \<Rightarrow> u64 \<Rightarrow> kst \<Rightarrow> unit result \<times> kst) \<Rightarrow> kenv \<Rightarrow> page \<Rightarrow> u_address_mapping \<Rightarrow> u64 \<Rightarrow> kst \<Rightarrow> unit result \<times> kst"
where
  "at_pmap_fill_mapping fill e at uam va s =
     (if uam_type uam = address_mapping_interior then fill_interior fill e at uam va s
      else fill_segment e at uam va s)"

text \<open>
  The search for the slot that maps an address.  \<open>fill\<close> is the filling of an interior tree.  The
  range of the slot found is remembered with the address of its entry.
\<close>

definition uam_range :: "u_address_mapping \<Rightarrow> bool \<times> u64 \<times> u64" where
  "uam_range uam =
     (let va_start = ROUNDDOWN (uam_va uam) PGSIZE;
          (overflow, len) = safe_mul64 False (uam_num_pages uam) PGSIZE;
          (overflow, va_end) = safe_add64 overflow va_start len
      in (overflow, va_start, va_end))"

primrec fill_scan ::
  "(page \<Rightarrow> u64 \<Rightarrow> kst \<Rightarrow> unit result \<times> kst) \<Rightarrow> kenv \<Rightarrow> page \<Rightarrow> u64 \<Rightarrow> u32 \<Rightarrow> u64 list \<Rightarrow> kst \<Rightarrow> unit result \<times> kst"
where
  "fill_scan fill e at va reqflags [] s = (Err E_INVAL, s)"
| "fill_scan fill e at va reqflags (i # l) s =
     bind_r (at_get_uaddrmap e at i s) (\<lambda>a s.
       let uam = ld_uam (km s) a; flags = uam_flags uam; (overflow, va_start, va_end) = uam_range uam in
       if flags AND SEGMAP_READ = 0 \<or> flags AND reqflags \<noteq> reqflags \<or>
          uam_type uam \<noteq> address_mapping_segment \<and> uam_type uam \<noteq> address_mapping_interior \<or>
          overflow \<or> va < va_start \<or> va_end \<le> va
       then fill_scan fill e at va reqflags l s
       else
         at_pmap_fill_mapping fill e at uam (ROUNDDOWN va PGSIZE)
           (upd_at at (\<lambda>A. A\<lparr>at_range_va_start := va_start, at_range_va_end := va_end, at_range_uam := Some a\<rparr>) s))"

text \<open>
  \<open>at_pmap_fill\<close> calls itself for an interior tree, once per level; the depth that is left on the
  kernel stack is the first argument.
\<close>

primrec at_pmap_fill :: "nat \<Rightarrow> kenv \<Rightarrow> page \<Rightarrow> u64 \<Rightarrow> u32 \<Rightarrow> kst \<Rightarrow> unit result \<times> kst" where
  "at_pmap_fill 0 e at va reqflags s = (Panic, s)"
| "at_pmap_fill (Suc d) e at va reqflags s =
     with_at at s (\<lambda>A.
       let fill = (\<lambda>at va. at_pmap_fill d e at va reqflags);
           hit = (case at_range_uam A of
                    None \<Rightarrow> None
                  | Some a \<Rightarrow>
                      (let uam = ld_uam (km s) a in
                       if uam_flags uam \<noteq> 0 \<and> at_range_va_start A \<le> va \<and> va < at_range_va_end A \<and>
                          uam_flags uam AND reqflags = reqflags
                       then Some uam else None))
       in case hit of
            Some uam \<Rightarrow> at_pmap_fill_mapping fill e at uam (ROUNDDOWN va PGSIZE) s
          | None \<Rightarrow> fill_scan fill e at va reqflags (slot_range (at_nents A)) s)"

definition at_pagefault :: "kenv \<Rightarrow> page \<Rightarrow> u64 \<Rightarrow> u32 \<Rightarrow> kst \<Rightarrow> unit result \<times> kst" where
  "at_pagefault e at va reqflags s =
     (case at_pmap_fill (ke_depth e) e at va reqflags s of
        (Err er, s) \<Rightarrow> bind_r (kobj_cache_flush e at s) (\<lambda>_ s. (Err er, s))
      | x \<Rightarrow> x)"

subsection \<open>Checking user addresses\<close>

primrec check_pages :: "kenv \<Rightarrow> page \<Rightarrow> u32 \<Rightarrow> u64 \<Rightarrow> nat \<Rightarrow> kst \<Rightarrow> unit result \<times> kst" where
  "check_pages e at reqflags va 0 s = (Ok (), s)"
| "check_pages e at reqflags va (Suc n) s =
     (if ULIM \<le> va then (Err E_INVAL, s)
      else
        (let pte_flags = PTE_P OR PTE_U OR (if reqflags AND SEGMAP_WRITE \<noteq> 0 then PTE_W else 0) in
         with_at at s (\<lambda>A.
           bind_r (case at_pgmap A of None \<Rightarrow> (Ok None, s) | Some pg \<Rightarrow> on_mem (page_lookup (ke_numa e) pg va) s) (\<lambda>r s.
             case r of
               Some (_, pte) \<Rightarrow>
                 if pte AND pte_flags = pte_flags then check_pages e at reqflags (va + PGSIZE) n s
                 else bind_r (at_pagefault e at va reqflags s) (\<lambda>_. check_pages e at reqflags (va + PGSIZE) n)
             | None \<Rightarrow> bind_r (at_pagefault e at va reqflags s) (\<lambda>_. check_pages e at reqflags (va + PGSIZE) n)))))"

definition check_user_access :: "kenv \<Rightarrow> page \<Rightarrow> u64 \<Rightarrow> u64 \<Rightarrow> u32 \<Rightarrow> kst \<Rightarrow> unit result \<times> kst" where
  "check_user_access e at iptr nbytes reqflags s =
     (if nbytes = 0 then (Ok (), s)
      else
        (let start = ROUNDDOWN iptr PGSIZE; end_va = ROUNDUP (iptr + nbytes) PGSIZE in
         if end_va \<le> start then (Err E_INVAL, s)
         else check_pages e at reqflags start (unat ((end_va - start) div PGSIZE)) s))"

subsection \<open>Attaching, detaching, exchange with user programs\<close>

definition at_attach :: "page \<Rightarrow> page \<Rightarrow> kst \<Rightarrow> unit result \<times> kst" where
  "at_attach at ps s = with_at at s (\<lambda>A. (Ok (), upd_at at (\<lambda>A. A\<lparr>at_ps_list := ps # at_ps_list A\<rparr>) s))"

definition at_detach :: "page option \<Rightarrow> page \<Rightarrow> kst \<Rightarrow> unit result \<times> kst" where
  "at_detach at ps s =
     with_ps ps s (\<lambda>P.
       if ps_at P \<noteq> at then (Panic, s)
       else case at of
         None \<Rightarrow> (Panic, s)
       | Some at \<Rightarrow> with_at at s (\<lambda>A. (Ok (), upd_at at (\<lambda>A. A\<lparr>at_ps_list := remove1 ps (at_ps_list A)\<rparr>) s)))"

text \<open>No page map stands for the static boot map of the processor.\<close>

definition at_set_current :: "kenv \<Rightarrow> page option \<Rightarrow> kst \<Rightarrow> unit result \<times> kst" where
  "at_set_current e at s =
     (case at of
        None \<Rightarrow> (Ok (), s\<lparr>cr3 := (cr3 s)(arch_cpu e := None)\<rparr>)
      | Some at \<Rightarrow> with_at at s (\<lambda>A. (Ok (), s\<lparr>cr3 := (cr3 s)(arch_cpu e := at_pgmap A)\<rparr>)))"

record u_address_tree =
  uat_size :: u64
  uat_nent :: u64
  uat_ents :: u64
  uat_trap_handler :: u64
  uat_trap_stack_base :: u64
  uat_trap_stack_top :: u64

text \<open>
  \<open>uat\<close> is what memory holds at the user's address \<open>uatp\<close>; the kernel reads it without a guard, so
  an address that is not mapped stops the kernel.
\<close>

definition at_check_uat :: "kenv \<Rightarrow> page \<Rightarrow> u64 \<Rightarrow> u_address_tree option \<Rightarrow> kst \<Rightarrow> u_address_tree result \<times> kst" where
  "at_check_uat e at uatp uat s =
     bind_r (check_user_access e at uatp 48 SEGMAP_WRITE s) (\<lambda>_ s.
       case uat of
         None \<Rightarrow> (Panic, s)
       | Some uat \<Rightarrow>
           (let (overflow, len) = safe_mul64 False UADDRMAP_SIZE (uat_size uat) in
            bind_r (check_user_access e at (uat_ents uat) len SEGMAP_WRITE s) (\<lambda>_ s.
              if overflow then (Err E_INVAL, s) else (Ok uat, s))))"

definition current_at :: "kenv \<Rightarrow> kst \<Rightarrow> (page \<Rightarrow> 'a result \<times> kst) \<Rightarrow> 'a result \<times> kst" where
  "current_at e s f =
     (case processor_sched e s of
        None \<Rightarrow> (Panic, s)
      | Some ps \<Rightarrow> with_ps ps s (\<lambda>P. case ps_at P of None \<Rightarrow> (Panic, s) | Some at \<Rightarrow> f at))"

definition ustore :: "u64 \<Rightarrow> u64 list \<Rightarrow> kst \<Rightarrow> kst" where
  "ustore a ws s = s\<lparr>ustores := (a, ws) # ustores s\<rparr>"

primrec to_user_loop ::
  "kenv \<Rightarrow> page \<Rightarrow> u_address_tree \<Rightarrow> u64 list \<Rightarrow> u64 \<Rightarrow> kst \<Rightarrow> u64 result \<times> kst"
where
  "to_user_loop e at uat [] nent s = (Ok nent, s)"
| "to_user_loop e at uat (i # l) nent s =
     bind_r (at_get_uaddrmap e at i s) (\<lambda>a s.
       let uam = ld_uam (km s) a in
       if uam_flags uam = 0 then to_user_loop e at uat l nent s
       else if ucast (uam_kslot uam) \<noteq> i then (Panic, s)
       else if uat_size uat \<le> nent then (Err E_NO_SPACE, s)
       else to_user_loop e at uat l (nent + 1) (ustore (uat_ents uat + nent * UADDRMAP_SIZE) (uam_words uam) s))"

definition at_to_user :: "kenv \<Rightarrow> page \<Rightarrow> u64 \<Rightarrow> u_address_tree option \<Rightarrow> kst \<Rightarrow> unit result \<times> kst" where
  "at_to_user e at uatp uat s =
     current_at e s (\<lambda>cur.
       bind_r (at_check_uat e cur uatp uat s) (\<lambda>uat s.
         with_at at s (\<lambda>A.
           bind_r (to_user_loop e at uat (slot_range (at_nents A)) 0 s) (\<lambda>nent s.
             with_at at s (\<lambda>A.
               (Ok (), ustore (uatp + 24) [at_utrap_entry A, at_utrap_stack_base A, at_utrap_stack_top A]
                         (ustore (uatp + 8) [nent] s)))))))"

definition null_uam :: u_address_mapping where
  "null_uam = \<lparr>uam_type = 0, uam_object = SOBJ 0 0, uam_kslot = 0, uam_flags = 0, uam_va = 0,
     uam_start_page = 0, uam_num_pages = 0\<rparr>"

definition sanitize :: "u_address_mapping \<Rightarrow> u_address_mapping" where
  "sanitize u =
     (if uam_type u = address_mapping_interior then u\<lparr>uam_num_pages := PIPAGES, uam_start_page := 0\<rparr> else u)"

text \<open>
  \<open>ents\<close> is what user memory holds at an address.  The sanitised fields and the slot number, a store
  of 32 bits, are written back to the user's array.
\<close>

definition write_back :: "u64 \<Rightarrow> u_address_mapping \<Rightarrow> u64 \<Rightarrow> kst \<Rightarrow> kst" where
  "write_back p u i s =
     ustore (p + 24) [i]
       (if uam_type u = address_mapping_interior then ustore (p + 40) [0] (ustore (p + 48) [PIPAGES] s) else s)"

primrec from_user_loop ::
  "kenv \<Rightarrow> page \<Rightarrow> (u64 \<Rightarrow> u_address_mapping option) \<Rightarrow> u_address_tree \<Rightarrow> u64 list \<Rightarrow> kst \<Rightarrow> unit result \<times> kst"
where
  "from_user_loop e at ents uat [] s = (Ok (), s)"
| "from_user_loop e at ents uat (i # l) s =
     bind_r (at_get_uaddrmap e at i s) (\<lambda>a s.
       let p = uat_ents uat + i * UADDRMAP_SIZE; s = s\<lparr>km := st_uam a null_uam (km s)\<rparr> in
       if i < uat_nent uat then
         (case ents p of
            None \<Rightarrow> (Panic, s)
          | Some u \<Rightarrow>
              from_user_loop e at ents uat l
                (write_back p u i (s\<lparr>km := st_uam a ((sanitize u)\<lparr>uam_kslot := ucast i\<rparr>) (km s)\<rparr>)))
       else from_user_loop e at ents uat l s)"

definition at_from_user ::
  "kenv \<Rightarrow> page \<Rightarrow> u64 \<Rightarrow> u_address_tree option \<Rightarrow> (u64 \<Rightarrow> u_address_mapping option) \<Rightarrow> kst \<Rightarrow> unit result \<times> kst"
where
  "at_from_user e at uatp uat ents s =
     current_at e s (\<lambda>cur.
       bind_r (at_check_uat e cur uatp uat s) (\<lambda>uat s.
         with_at at s (\<lambda>A.
           bind_r (if at_nents A < uat_nent uat then at_resize e at (uat_nent uat) s else (Ok (), s)) (\<lambda>_ s.
             bind_r (at_clear_mappings e at s) (\<lambda>_ s.
               with_at at s (\<lambda>A.
                 case from_user_loop e at ents uat (slot_range (at_nents A)) s of
                   (Panic, s) \<Rightarrow> (Panic, s)
                 | (r, s) \<Rightarrow>
                     (let s = (if is_ok r
                               then upd_at at (\<lambda>A. A\<lparr>at_utrap_entry := uat_trap_handler uat,
                                                     at_utrap_stack_base := uat_trap_stack_base uat,
                                                     at_utrap_stack_top := uat_trap_stack_top uat\<rparr>) s
                               else s)
                      in with_at at s (\<lambda>A.
                           bind_r (for_each (at_invalidate e at) (at_ps_list A) s) (\<lambda>_ s. (r, s))))))))))"

text \<open>\<open>uam_new\<close> is the user's structure, or nothing when reading it faults.\<close>

definition at_set_uslot :: "kenv \<Rightarrow> page \<Rightarrow> u_address_mapping option \<Rightarrow> kst \<Rightarrow> unit result \<times> kst" where
  "at_set_uslot e at uam_new s =
     bind_r (copy_user e uam_new s) (\<lambda>uam_copy s.
       let slot = ucast (uam_kslot uam_copy) in
       with_at at s (\<lambda>A.
         bind_r (if at_nents A \<le> slot then at_resize e at (slot + 1) s else (Ok (), s)) (\<lambda>_ s.
           bind_r (at_get_uaddrmap e at slot s) (\<lambda>a s.
             bind_r (if uam_flags (ld_uam (km s) a) \<noteq> 0
                     then at_invalidate_uaddrmap e at (uam_kslot (ld_uam (km s) a)) s else (Ok (), s)) (\<lambda>_ s.
               (Ok (), s\<lparr>km := st_uam a (sanitize uam_copy) (km s)\<rparr>))))))"

subsection \<open>Releasing\<close>

definition at_gc_cb :: "kenv \<Rightarrow> page \<Rightarrow> kst \<Rightarrow> unit result \<times> kst" where
  "at_gc_cb e at s =
     bind_r (kobj_cache_flush e at s) (\<lambda>_ s.
       bind_r (at_clear_mappings e at s) (\<lambda>_ s.
         with_at at s (\<lambda>A.
           let (r, u, m) = darray_free (ke_numa e) (at_uaddrmap A, km s) in
           bind_r (r, upd_at at (\<lambda>A. A\<lparr>at_uaddrmap := u\<rparr>) (s\<lparr>km := m\<rparr>)) (\<lambda>_ s.
             let (r, a, m) = darray_free (ke_numa e) (at_addrmap A, km s) in
             bind_r (r, upd_at at (\<lambda>A. A\<lparr>at_addrmap := a\<rparr>) (s\<lparr>km := m\<rparr>)) (\<lambda>_ s.
               case at_pgmap A of None \<Rightarrow> (Panic, s) | Some pg \<Rightarrow> on_mem (page_map_free (ke_numa e) pg) s)))))"

end
