(* ===== verification/Processor_Obj.thy ===== *)
theory Processor_Obj
  imports At
begin

text \<open>
  Processors (\<^verbatim>\<open>kern/kern/processor.c\<close>), the callbacks that run when objects leave a share or are no
  longer referenced (\<^verbatim>\<open>scope\<close>, \<^verbatim>\<open>remove\<close> and \<^verbatim>\<open>gc\<close>), and the collection of unreferenced objects
  (\<^verbatim>\<open>kern/kern/kobj.c\<close>).

  Halting the running processor drops its shares, which runs the scope callbacks of their objects,
  and the callback of an address tree may halt the processor that uses it.  The callbacks therefore
  take the halt operation as an argument, and \<open>processor_halt\<close> counts how deep it is nested.
\<close>

subsection \<open>Timers\<close>

definition timer_interval_time :: "kenv \<Rightarrow> nat \<Rightarrow> u64 \<Rightarrow> kst \<Rightarrow> unit result \<times> kst" where
  "timer_interval_time e pid hz s =
     (if \<not> ke_inttimer e pid then (if hz \<noteq> 0 then (Panic, s) else (Ok (), s))
      else (Ok (), s\<lparr>timer_hz := (timer_hz s)(pid := hz)\<rparr>))"

subsection \<open>Callbacks\<close>

type_synonym halt_fn = "page \<Rightarrow> kst \<Rightarrow> bool result \<times> kst"

definition at_scope_cb :: "halt_fn \<Rightarrow> kenv \<Rightarrow> page \<Rightarrow> u64 \<Rightarrow> page \<Rightarrow> kst \<Rightarrow> unit result \<times> kst" where
  "at_scope_cb halt e at sh scope_ps s =
     bind_r (kobj_cache_flush e at s) (\<lambda>_ s.
       with_at at s (\<lambda>A.
         if at_interior A then aml_scope e at sh scope_ps s
         else with_ps scope_ps s (\<lambda>P.
           if ps_at P = Some at \<and> sh = so_share (ps_atref P)
           then bind_r (halt scope_ps s) (\<lambda>_ s. (Ok (), s)) else (Ok (), s))))"

definition at_remove_cb :: "halt_fn \<Rightarrow> kenv \<Rightarrow> page \<Rightarrow> u64 \<Rightarrow> kst \<Rightarrow> unit result \<times> kst" where
  "at_remove_cb halt e at sh s =
     bind_r (kobj_cache_flush e at s) (\<lambda>_ s.
       with_at at s (\<lambda>A.
         if at_interior A then aml_invalidate e at sh s
         else
           for_each (\<lambda>ps s. with_ps ps s (\<lambda>P.
             if ps_at P \<noteq> Some at then (Panic, s)
             else if so_share (ps_atref P) = sh then bind_r (halt ps s) (\<lambda>_ s. (Ok (), s))
             else (Ok (), s))) (at_ps_list A) s))"

definition processor_scope_cb :: "page \<Rightarrow> u64 \<Rightarrow> page \<Rightarrow> kst \<Rightarrow> unit result \<times> kst" where
  "processor_scope_cb ps sh scope_ps s = (Ok (), s)"

definition share_scope_cb :: "page \<Rightarrow> u64 \<Rightarrow> page \<Rightarrow> kst \<Rightarrow> unit result \<times> kst" where
  "share_scope_cb sh parent_sh scope_ps s = (Ok (), s)"

definition device_scope_cb :: "page \<Rightarrow> u64 \<Rightarrow> page \<Rightarrow> kst \<Rightarrow> unit result \<times> kst" where
  "device_scope_cb dv parent_sh scope_ps s = (Ok (), s)"

definition processor_remove_cb :: "page \<Rightarrow> u64 \<Rightarrow> kst \<Rightarrow> unit result \<times> kst" where
  "processor_remove_cb ps sh s = (Ok (), s)"

definition share_remove_cb :: "page \<Rightarrow> u64 \<Rightarrow> kst \<Rightarrow> unit result \<times> kst" where
  "share_remove_cb sh parent_sh s = (Ok (), s)"

definition device_remove_cb :: "page \<Rightarrow> u64 \<Rightarrow> kst \<Rightarrow> unit result \<times> kst" where
  "device_remove_cb dv sh s = (Ok (), s)"

definition scope_cb :: "halt_fn \<Rightarrow> kenv \<Rightarrow> page \<Rightarrow> u64 \<Rightarrow> page \<Rightarrow> kst \<Rightarrow> unit result \<times> kst" where
  "scope_cb halt e ko sh scope_ps s =
     (case ko_type (hdr s ko) of
        kobj_segment \<Rightarrow> segment_scope_cb e ko sh scope_ps s
      | kobj_address_tree \<Rightarrow> at_scope_cb halt e ko sh scope_ps s
      | kobj_processor \<Rightarrow> processor_scope_cb ko sh scope_ps s
      | kobj_share \<Rightarrow> share_scope_cb ko sh scope_ps s
      | kobj_device \<Rightarrow> device_scope_cb ko sh scope_ps s
      | kobj_any \<Rightarrow> (Panic, s))"

text \<open>The objects of a share, or the shares of a processor, in the order of the table.\<close>

definition map_vals :: "kenv \<Rightarrow> Map \<Rightarrow> kst \<Rightarrow> kptr list" where
  "map_vals e mp s =
     (let c = map_slots mp (map_cur mp) in
      map (\<lambda>kv. va_kptr (snd kv))
        (hash_iterate (map_ops (ke_numa e)) (slot_table c (km s)) map_iter_init (Suc (nat (ms_capacity c)))))"

definition share_scope_change :: "halt_fn \<Rightarrow> kenv \<Rightarrow> page \<Rightarrow> page \<Rightarrow> kst \<Rightarrow> unit result \<times> kst" where
  "share_scope_change halt e sh scope_ps s =
     with_sh sh s (\<lambda>S.
       for_each (\<lambda>sb s. scope_cb halt e (si_ko (sh_infos s sb)) (ko_id (hdr s sh)) scope_ps s)
         (map_vals e (sh_kobject_map S) s) s)"

definition sharemap_clear :: "halt_fn \<Rightarrow> kenv \<Rightarrow> page \<Rightarrow> kst \<Rightarrow> unit result \<times> kst" where
  "sharemap_clear halt e ps s =
     with_ps ps s (\<lambda>P.
       bind_r (for_each (\<lambda>sh s.
                 bind_r (share_scope_change halt e (fst sh) (sm_owner (ps_sharemap P)) s) (\<lambda>_. kobject_decref e (fst sh)))
               (map_vals e (sm_map (ps_sharemap P)) s) s) (\<lambda>_ s.
         with_ps ps s (\<lambda>P.
           let (r, mp, m) = map_free (ke_numa e) (sm_map (ps_sharemap P), km s) in
           bind_r (r, set_sharemap ps P mp (s\<lparr>km := m\<rparr>)) (\<lambda>_ s.
             (Ok (), set_sharemap ps P (map_init (map_pid mp)) s)))))"

definition sharemap_remove :: "halt_fn \<Rightarrow> kenv \<Rightarrow> page \<Rightarrow> u64 \<Rightarrow> kst \<Rightarrow> unit result \<times> kst" where
  "sharemap_remove halt e ps sid s =
     bind_r (sharemap_get e ps sid s) (\<lambda>sh s.
       with_ps ps s (\<lambda>P.
         let (r, mp, m) = map_erase (ke_numa e) sid (sm_map (ps_sharemap P), km s) in
         bind_r (assert_ok (r, set_sharemap ps P mp (s\<lparr>km := m\<rparr>))) (\<lambda>_ s.
           bind_r (share_scope_change halt e sh (sm_owner (ps_sharemap P)) s) (\<lambda>_. kobject_decref e sh))))"

subsection \<open>Halting\<close>

primrec processor_halt :: "nat \<Rightarrow> kenv \<Rightarrow> page \<Rightarrow> kst \<Rightarrow> bool result \<times> kst" where
  "processor_halt 0 e ps s = (Panic, s)"
| "processor_halt (Suc d) e ps s =
     with_ps ps s (\<lambda>P.
       if Some ps \<noteq> processor_sched e s then
         bind_r (arch_halt_mp e (ps_pid P) (upd_ps ps (\<lambda>P. P\<lparr>ps_halt := True\<rparr>) s)) (\<lambda>_ s. (Ok False, s))
       else
         bind_r (at_set_current e None s) (\<lambda>_ s.
         bind_r (at_detach (ps_at P) ps s) (\<lambda>_ s.
         bind_r (timer_interval_time e (ps_pid P) 0 (upd_ps ps (\<lambda>P. P\<lparr>ps_at := None, ps_atref := SOBJ 0 0\<rparr>) s)) (\<lambda>_ s.
         bind_r (sharemap_clear (processor_halt d e) e ps s) (\<lambda>_ s.
           (Ok True, upd_ps ps (\<lambda>P. P\<lparr>ps_running := False\<rparr>)
                       (s\<lparr>processors := (processors s)(ps_pid P := None)\<rparr>)))))))"

text \<open>Two levels are enough: the nested call finds the processor without an address tree.\<close>

definition halt_depth :: nat where
  "halt_depth = 2"

definition halt :: "kenv \<Rightarrow> halt_fn" where
  "halt e = processor_halt halt_depth e"

subsection \<open>Allocation and use of processors\<close>

definition alloc_processor :: "kenv \<Rightarrow> nat \<Rightarrow> kst \<Rightarrow> unit result \<times> kst" where
  "alloc_processor e pid s =
     (if ke_ncpu e \<le> pid then (Err E_INVAL, s)
      else if \<not> processor_free s pid then (Ok (), s\<lparr>processor_free := (processor_free s)(pid := True)\<rparr>)
      else (Err E_BUSY, s))"

definition free_processor :: "nat \<Rightarrow> kst \<Rightarrow> unit result \<times> kst" where
  "free_processor pid s =
     (if \<not> processor_free s pid then (Panic, s) else (Ok (), s\<lparr>processor_free := (processor_free s)(pid := False)\<rparr>))"

definition null_tf :: Trapframe where
  "null_tf = \<lparr>tf_rax = 0, tf_rdi = 0, tf_rsi = 0, tf_rdx = 0, tf_rcx = 0, tf_r8 = 0, tf_r9 = 0, tf_r10 = 0, tf_r11 = 0,
     tf_rbx = 0, tf_rbp = 0, tf_r12 = 0, tf_r13 = 0, tf_r14 = 0, tf_r15 = 0, tf_rip = 0, tf_rsp = 0, tf_rflags = 0,
     tf_cs = 0, tf_ss = 0\<rparr>"

definition NDEVICES_PER_MONITOR :: nat where
  [layout_consts]: "NDEVICES_PER_MONITOR = 32"

definition new_processor :: "nat \<Rightarrow> page \<Rightarrow> Processor" where
  "new_processor pid p =
     \<lparr>ps_tf = null_tf, ps_fp_enabled = False, ps_pid = pid, ps_running = False, ps_halt = False, ps_interval_hz = 0,
      ps_mode = ps_mode_reg, ps_sharemap = sharemap_init pid p (- 1),
      ps_monitor_obj = replicate NDEVICES_PER_MONITOR (SOBJ 0 0), ps_at = None, ps_atref = SOBJ 0 0\<rparr>"

definition processor_alloc :: "kenv \<Rightarrow> nat \<Rightarrow> kst \<Rightarrow> page result \<times> kst" where
  "processor_alloc e pid s =
     bind_r (alloc_processor e pid s) (\<lambda>_ s.
       case kobject_alloc e kobj_processor (KProcessor (new_processor pid 0)) pid s of
         (Ok ko, s) \<Rightarrow> (Ok ko, set_body ko (KProcessor (new_processor pid ko)) s)
       | (Err er, s) \<Rightarrow> bind_r (free_processor pid s) (\<lambda>_ s. (Err er, s))
       | (Panic, s) \<Rightarrow> (Panic, s))"

definition processor_add_share :: "kenv \<Rightarrow> page \<Rightarrow> page \<Rightarrow> kst \<Rightarrow> unit result \<times> kst" where
  "processor_add_share e ps sh = sharemap_add e ps sh"

definition processor_remove_share :: "kenv \<Rightarrow> page \<Rightarrow> u64 \<Rightarrow> kst \<Rightarrow> unit result \<times> kst" where
  "processor_remove_share e ps sid = sharemap_remove (halt e) e ps sid"

definition processor_get_share :: "kenv \<Rightarrow> page \<Rightarrow> u64 \<Rightarrow> kst \<Rightarrow> page result \<times> kst" where
  "processor_get_share e ps sid = sharemap_get e ps sid"

definition processor_import_obj :: "kenv \<Rightarrow> page \<Rightarrow> u64 \<Rightarrow> page \<Rightarrow> kst \<Rightarrow> unit result \<times> kst" where
  "processor_import_obj e ps sh_id ko s =
     bind_r (processor_get_share e ps sh_id s) (\<lambda>sh. share_import_obj e sh ko)"

definition processor_co_obj :: "kenv \<Rightarrow> page \<Rightarrow> sobj_ref \<Rightarrow> kobject_type \<Rightarrow> kst \<Rightarrow> page result \<times> kst" where
  "processor_co_obj e ps oref type = sharemap_co_obj e ps oref type"

definition processor_remove_obj :: "kenv \<Rightarrow> page \<Rightarrow> sobj_ref \<Rightarrow> kst \<Rightarrow> unit result \<times> kst" where
  "processor_remove_obj e ps oref s =
     bind_r (processor_get_share e ps (so_share oref) s) (\<lambda>sh. share_remove_obj e sh (so_object oref))"

text \<open>The index may equal the size of the array; the store then hits the field that follows, \<open>ps_at\<close>.\<close>

definition processor_set_device :: "page \<Rightarrow> u64 \<Rightarrow> sobj_ref \<Rightarrow> kst \<Rightarrow> unit result \<times> kst" where
  "processor_set_device ps i o' s =
     with_ps ps s (\<lambda>P.
       if of_nat NDEVICES_PER_MONITOR < i then (Err E_NO_SPACE, s)
       else if i = of_nat NDEVICES_PER_MONITOR then
         (Ok (), upd_ps ps (\<lambda>P. P\<lparr>ps_at := word_ptr (so_share o'), ps_atref := (ps_atref P)\<lparr>so_share := so_object o'\<rparr>\<rparr>) s)
       else (Ok (), upd_ps ps (\<lambda>P. P\<lparr>ps_monitor_obj := (ps_monitor_obj P)[unat i := o']\<rparr>) s))"

definition processor_enable_fp :: "page \<Rightarrow> kst \<Rightarrow> unit result \<times> kst" where
  "processor_enable_fp ps s =
     with_ps ps s (\<lambda>P. (Ok (), if ps_fp_enabled P then s else upd_ps ps (\<lambda>P. P\<lparr>ps_fp_enabled := True\<rparr>) s))"

definition processor_set_interval :: "kenv \<Rightarrow> page \<Rightarrow> u64 \<Rightarrow> kst \<Rightarrow> unit result \<times> kst" where
  "processor_set_interval e ps hz s =
     with_ps ps s (\<lambda>P.
       let s = upd_ps ps (\<lambda>P. P\<lparr>ps_interval_hz := hz\<rparr>) s in
       if ps_running P then timer_interval_time e (ps_pid P) hz s else (Ok (), s))"

definition processor_pagefault :: "kenv \<Rightarrow> page \<Rightarrow> u64 \<Rightarrow> u32 \<Rightarrow> kst \<Rightarrow> unit result \<times> kst" where
  "processor_pagefault e ps va reqflags s =
     with_ps ps s (\<lambda>P. case ps_at P of None \<Rightarrow> (Panic, s) | Some at \<Rightarrow> at_pagefault e at va reqflags s)"

subsection \<open>Starting a processor\<close>

record u_context =
  uc_at :: sobj_ref
  uc_mode :: ps_mode_t
  uc_entry :: u64
  uc_stack :: u64
  uc_share :: "sobj_ref list"
  uc_arg :: "u64 list"

definition FL_IF :: u64 where "FL_IF = 0x200"
definition GD_UD :: u64 where "GD_UD = 0x23"
definition GD_UT_NMASK :: u64 where "GD_UT_NMASK = 0x2B"
definition GD_UT_MASK :: u64 where "GD_UT_MASK = 0x33"

definition processor_arch_vector :: "page \<Rightarrow> u_context \<Rightarrow> kst \<Rightarrow> unit result \<times> kst" where
  "processor_arch_vector ps uc s =
     (if uc_mode uc = ps_mode_vm then (Panic, s)
      else
        (Ok (), upd_ps ps (\<lambda>P. P\<lparr>ps_tf := null_tf\<lparr>
           tf_rflags := FL_IF, tf_rip := uc_entry uc, tf_rsp := uc_stack uc,
           tf_rdi := uc_arg uc ! 0, tf_rsi := uc_arg uc ! 1, tf_rdx := uc_arg uc ! 2, tf_rcx := uc_arg uc ! 3,
           tf_r8 := uc_arg uc ! 4, tf_r9 := uc_arg uc ! 5,
           tf_cs := GD_UT_NMASK OR 3, tf_ss := GD_UD OR 3\<rparr>\<rparr>) s))"

definition vector_shares :: "kenv \<Rightarrow> page \<Rightarrow> page \<Rightarrow> sobj_ref list \<Rightarrow> kst \<Rightarrow> unit result \<times> kst" where
  "vector_shares e cur ps refs =
     for_each (\<lambda>ref s. bind_r (processor_co_obj e cur ref kobj_share s) (\<lambda>ko. processor_add_share e ps ko))
       (takeWhile (\<lambda>ref. so_share ref \<noteq> 0) refs)"

definition processor_vector :: "kenv \<Rightarrow> page \<Rightarrow> u_context \<Rightarrow> kst \<Rightarrow> unit result \<times> kst" where
  "processor_vector e ps uc s =
     with_ps ps s (\<lambda>P.
       if ps_running P then (Err E_BUSY, s)
       else
         bind_r (case (takeWhile (\<lambda>ref. so_share ref \<noteq> 0) (uc_share uc), processor_sched e s) of
                   ([], _) \<Rightarrow> (Ok (), s)
                 | (_, None) \<Rightarrow> (Panic, s)
                 | (_, Some cur) \<Rightarrow> vector_shares e cur ps (uc_share uc) s) (\<lambda>_ s.
         bind_r (processor_co_obj e ps (uc_at uc) kobj_address_tree s) (\<lambda>at s.
         bind_r (processor_arch_vector ps uc s) (\<lambda>_ s.
         bind_r (at_attach at ps s) (\<lambda>_ s.
           let s = upd_ps ps (\<lambda>P. P\<lparr>ps_at := Some at, ps_atref := uc_at uc, ps_mode := uc_mode uc,
                                   ps_running := True, ps_halt := False\<rparr>) s in
           (Ok (), s\<lparr>processors := (processors s)(ps_pid P := Some ps)\<rparr>))))))"

subsection \<open>Collecting unreferenced objects\<close>

definition remove_cb :: "kenv \<Rightarrow> page \<Rightarrow> u64 \<Rightarrow> kst \<Rightarrow> unit result \<times> kst" where
  "remove_cb e ko sh s =
     (case ko_type (hdr s ko) of
        kobj_segment \<Rightarrow> segment_remove_cb e ko sh s
      | kobj_address_tree \<Rightarrow> at_remove_cb (halt e) e ko sh s
      | kobj_processor \<Rightarrow> processor_remove_cb ko sh s
      | kobj_share \<Rightarrow> share_remove_cb ko sh s
      | kobj_device \<Rightarrow> device_remove_cb ko sh s
      | kobj_any \<Rightarrow> (Panic, s))"

definition share_remove_kobj :: "kenv \<Rightarrow> page \<Rightarrow> page \<Rightarrow> kst \<Rightarrow> unit result \<times> kst" where
  "share_remove_kobj e sh ko s = remove_cb e ko (ko_id (hdr s sh)) s"

definition free_pool :: "kenv \<Rightarrow> page \<Rightarrow> nat \<Rightarrow> kst \<Rightarrow> unit result \<times> kst" where
  "free_pool e sh i s =
     with_sh sh s (\<lambda>S.
       let (r, pt, m) = pagetree_free (ke_numa e) (sp_pt (sh_blob S i), km s) in
       (r, set_pool sh S i ((sh_blob S i)\<lparr>sp_pt := pt\<rparr>) (s\<lparr>km := m\<rparr>)))"

definition share_gc_cb :: "kenv \<Rightarrow> page \<Rightarrow> kst \<Rightarrow> unit result \<times> kst" where
  "share_gc_cb e sh s =
     with_sh sh s (\<lambda>S.
       bind_r (for_each (\<lambda>sb s.
                 if si_co (sh_infos s sb) \<noteq> 0 then (Panic, s)
                 else bind_r (share_remove_kobj e sh (si_ko (sh_infos s sb)) s) (\<lambda>_ s.
                        kobject_decref e (si_ko (sh_infos s sb)) s))
               (map_vals e (sh_kobject_map S) s) s) (\<lambda>_ s.
         with_sh sh s (\<lambda>S.
           let (r, mp, m) = map_free (ke_numa e) (sh_kobject_map S, km s) in
           bind_r (r, set_body sh (KShare (S\<lparr>sh_kobject_map := mp\<rparr>)) (s\<lparr>km := m\<rparr>)) (\<lambda>_ s.
             for_each (free_pool e sh) [0..<JOS_NCPU] s))))"

definition device_gc_cb :: "page \<Rightarrow> kst \<Rightarrow> unit result \<times> kst" where
  "device_gc_cb dv s = (Ok (), s)"

text \<open>A running processor is halted first; when it runs elsewhere the collector waits for it.\<close>

definition processor_gc_cb :: "kenv \<Rightarrow> page \<Rightarrow> kst \<Rightarrow> (unit result \<times> kst) option" where
  "processor_gc_cb e ps s =
     (case with_ps ps s (\<lambda>P. if ps_running P then bind_r (halt e ps s) (\<lambda>_ s. (Ok (), s)) else (Ok (), s)) of
        (Ok _, s) \<Rightarrow>
          (case ko_body (kobjs s ps) of
             KProcessor P \<Rightarrow>
               if ps_running P then None
               else Some (bind_r (sharemap_free e ps s) (\<lambda>_ s. free_processor (ps_pid P) s))
           | _ \<Rightarrow> Some (Panic, s))
      | x \<Rightarrow> Some x)"

definition gc_cb :: "kenv \<Rightarrow> page \<Rightarrow> kst \<Rightarrow> (unit result \<times> kst) option" where
  "gc_cb e ko s =
     (case ko_type (hdr s ko) of
        kobj_segment \<Rightarrow> Some (segment_gc_cb e ko s)
      | kobj_address_tree \<Rightarrow> Some (at_gc_cb e ko s)
      | kobj_processor \<Rightarrow> processor_gc_cb e ko s
      | kobj_share \<Rightarrow> Some (share_gc_cb e ko s)
      | kobj_device \<Rightarrow> Some (device_gc_cb ko s)
      | kobj_any \<Rightarrow> Some (Panic, s))"

text \<open>The loop runs until the list of the processor is empty; not returning is \<open>None\<close>.\<close>

partial_function (option) kobject_gc_scan :: "kenv \<Rightarrow> kst \<Rightarrow> (unit result \<times> kst) option" where
  "kobject_gc_scan e s =
     (case ko_gc_list s (arch_cpu e) of
        [] \<Rightarrow> Some (Ok (), s)
      | ko # l \<Rightarrow>
          (let s = s\<lparr>ko_gc_list := (ko_gc_list s)(arch_cpu e := l)\<rparr> in
           if kobject_getref ko s \<noteq> 0 then kobject_gc_scan e s
           else Option.bind (gc_cb e ko s) (\<lambda>(r, s).
             case r of
               Ok _ \<Rightarrow>
                 (case kobject_free e ko s of
                    (Ok _, s) \<Rightarrow> kobject_gc_scan e s
                  | (r, s) \<Rightarrow> Some (Panic, s))
             | _ \<Rightarrow> Some (Panic, s))))"

end
