(* ===== verification/Device_Obj.thy ===== *)
theory Device_Obj
  imports Processor_Obj
begin

text \<open>
  Devices (\<^verbatim>\<open>kern/kern/device.c\<close>).  The functions a driver registers are arguments of the model.
\<close>

definition NDEVICES :: nat where
  [layout_consts]: "NDEVICES = 64"

text \<open>The number of registered devices is the static counter of the code; identifiers start at one.\<close>

definition device_register :: "device_handler \<Rightarrow> kst \<Rightarrow> unit result \<times> kst" where
  "device_register dh s =
     (let did = ndev s in
      if NDEVICES \<le> did then (Panic, s)
      else
        (Ok (), s\<lparr>devices := (devices s)[did := (devices s ! did)\<lparr>ds_dh := Some (dh\<lparr>dh_id := did + 1\<rparr>)\<rparr>],
                 ndev := did + 1\<rparr>))"

definition device_list :: "kst \<Rightarrow> (nat \<times> nat) list result" where
  "device_list s =
     (if NDEVICES < ndev s then Err E_NO_SPACE
      else if \<exists>i \<in> set [0..<ndev s]. ds_dh (devices s ! i) = None then Panic
      else Ok (map (\<lambda>i. let dh = the (ds_dh (devices s ! i)) in (dh_type dh, dh_id dh)) [0..<ndev s]))"

definition upd_device :: "nat \<Rightarrow> (device_slot \<Rightarrow> device_slot) \<Rightarrow> kst \<Rightarrow> kst" where
  "upd_device i f s = s\<lparr>devices := (devices s)[i := f (devices s ! i)]\<rparr>"

definition device_alloc :: "kenv \<Rightarrow> u64 \<Rightarrow> nat \<Rightarrow> kst \<Rightarrow> page result \<times> kst" where
  "device_alloc e did pid s =
     (if of_nat (ndev s) < did \<or> did = 0 then (Err E_INVAL, s)
      else
        (let i = unat did - 1 in
         if ds_alloced (devices s ! i) then (Err E_BUSY, s)
         else
           bind_r (kobject_alloc e kobj_device (KDevice \<lparr>dv_dh = i\<rparr>) pid
                     (upd_device i (\<lambda>d. d\<lparr>ds_alloced := True\<rparr>) s)) (\<lambda>ko s.
             case ds_dh (devices s ! i) of
               None \<Rightarrow> (Panic, s)
             | Some dh \<Rightarrow> (Ok ko, upd_device i (\<lambda>d. d\<lparr>ds_dh := Some (dh\<lparr>dh_dev := Some ko\<rparr>)\<rparr>) s))))"

datatype u_device_conf =
    Conf_irq bool u32
  | Conf_vnic_ring sobj_ref u64
  | Conf_sysmon sobj_ref u64 u32
  | Conf_sysmon_nic sobj_ref sobj_ref
  | Conf_other u32

datatype devio_type = devio_in | devio_out | devio_reset | devio_other u64

text \<open>
  The functions of the drivers, by the number of their entry in the device table: status words, new
  configuration, a buffer (segment, offset, the page that holds its header and the offset in it),
  polling, and the interrupt handlers.
\<close>

record drivers =
  dr_stat :: "nat \<Rightarrow> kst \<Rightarrow> u64 list result \<times> kst"
  dr_conf :: "nat \<Rightarrow> u_device_conf \<Rightarrow> kst \<Rightarrow> unit result \<times> kst"
  dr_feed :: "nat \<Rightarrow> page \<Rightarrow> u64 \<Rightarrow> kptr \<Rightarrow> devio_type \<Rightarrow> kst \<Rightarrow> unit result \<times> kst"
  dr_poll :: "nat \<Rightarrow> kst \<Rightarrow> unit result \<times> kst"
  dr_irq :: "nat \<Rightarrow> page \<Rightarrow> kst \<Rightarrow> unit result \<times> kst"

definition device_stat :: "drivers \<Rightarrow> page \<Rightarrow> kst \<Rightarrow> u64 list result \<times> kst" where
  "device_stat dr dv s = with_dv dv s (\<lambda>D. dr_stat dr (dv_dh D) s)"

definition device_conf :: "drivers \<Rightarrow> page \<Rightarrow> u_device_conf \<Rightarrow> kst \<Rightarrow> unit result \<times> kst" where
  "device_conf dr dv udc s = with_dv dv s (\<lambda>D. dr_conf dr (dv_dh D) udc s)"

definition device_poll :: "drivers \<Rightarrow> page \<Rightarrow> kst \<Rightarrow> unit result \<times> kst" where
  "device_poll dr dv s = with_dv dv s (\<lambda>D. dr_poll dr (dv_dh D) s)"

definition DISKBUF_HDR_SIZE :: u64 where
  "DISKBUF_HDR_SIZE = 16"

definition device_buf :: "kenv \<Rightarrow> drivers \<Rightarrow> page \<Rightarrow> page \<Rightarrow> u64 \<Rightarrow> devio_type \<Rightarrow> kst \<Rightarrow> unit result \<times> kst" where
  "device_buf e dr dv sg offset type s =
     bind_r (segment_get_page e sg (offset div PGSIZE) page_shared_cow s) (\<lambda>va s.
       if PGSIZE - PGOFF offset < DISKBUF_HDR_SIZE then (Err E_INVAL, s)
       else case va of
         None \<Rightarrow> (Panic, s)
       | Some p \<Rightarrow> with_dv dv s (\<lambda>D. dr_feed dr (dv_dh D) sg offset (p, unat (PGOFF offset)) type s))"

end
