(* ===== verification/Console.thy ===== *)
theory Console
  imports Kobject
begin

text \<open>
  Console output (\<^verbatim>\<open>kern/kern/console.c\<close>): characters are collected per processor and handed to the
  output devices at the end of a line, when the buffer is full, or when the source changes.
\<close>

definition cons_bufsize :: nat where
  [layout_consts]: "cons_bufsize = 512"

definition cons_flush_outbuf :: "nat \<Rightarrow> kst \<Rightarrow> kst" where
  "cons_flush_outbuf cpu s =
     (let b = cons_bufs s cpu in
      s\<lparr>cons_log := cons_log s @ concat (map (\<lambda>d. map (\<lambda>c. (d, c, cb_src b)) (cb_buf b)) (cons_outs s)),
        cons_bufs := (cons_bufs s)(cpu := b\<lparr>cb_buf := []\<rparr>)\<rparr>)"

definition cons_putc :: "kenv \<Rightarrow> u8 \<Rightarrow> cons_source \<Rightarrow> kst \<Rightarrow> kst" where
  "cons_putc e c src s =
     (let cpu = arch_cpu e;
          s = (if src \<noteq> cb_src (cons_bufs s cpu) then cons_flush_outbuf cpu s else s);
          b = \<lparr>cb_buf = cb_buf (cons_bufs s cpu) @ [c], cb_src = src\<rparr>;
          s = s\<lparr>cons_bufs := (cons_bufs s)(cpu := b)\<rparr>
      in if c = 10 \<or> length (cb_buf b) = cons_bufsize then cons_flush_outbuf cpu s else s)"

definition cons_flush :: "kenv \<Rightarrow> kst \<Rightarrow> kst" where
  "cons_flush e s = cons_flush_outbuf (arch_cpu e) s"

text \<open>Printing a sequence of characters.\<close>

definition cons_puts :: "kenv \<Rightarrow> u8 list \<Rightarrow> cons_source \<Rightarrow> kst \<Rightarrow> kst" where
  "cons_puts e cs src s = fold (\<lambda>c. cons_putc e c src) cs s"

text \<open>What a device has been given or will be given when the buffer of processor \<open>cpu\<close> is flushed.\<close>

definition cons_stream :: "nat \<Rightarrow> nat \<Rightarrow> kst \<Rightarrow> (u8 \<times> cons_source) list" where
  "cons_stream d cpu s =
     map snd (filter (\<lambda>x. fst x = d) (cons_log s)) @
     map (\<lambda>c. (c, cb_src (cons_bufs s cpu))) (cb_buf (cons_bufs s cpu))"

lemma filter_concat_device:
  "distinct ds \<Longrightarrow> d \<in> set ds \<Longrightarrow>
   map snd (filter (\<lambda>x. fst x = d) (concat (map (\<lambda>d. map (\<lambda>c. (d, f c)) cs) ds))) = map f cs"
proof (induction ds)
  case (Cons a ds)
  have none: "filter (\<lambda>x. fst x = d) (concat (map (\<lambda>d. map (\<lambda>c. (d, f c)) cs) es)) = []" if "d \<notin> set es" for es
    using that by (auto simp: filter_empty_conv)
  show ?case
  proof (cases "a = d")
    case True
    then show ?thesis using Cons.prems none [of ds] by (simp add: filter_map comp_def)
  next
    case False
    then show ?thesis using Cons by (simp add: filter_map comp_def)
  qed
qed simp

lemma cons_stream_flush:
  assumes "distinct (cons_outs s)" "d \<in> set (cons_outs s)"
  shows "cons_stream d cpu (cons_flush_outbuf cpu s) = cons_stream d cpu s"
  using filter_concat_device [OF assms, of "\<lambda>c. (c, cb_src (cons_bufs s cpu))" "cb_buf (cons_bufs s cpu)"]
  by (simp add: cons_stream_def cons_flush_outbuf_def Let_def)

lemma cons_putc_stream:
  fixes c :: u8 and src :: cons_source
  assumes d: "distinct (cons_outs s)" "d \<in> set (cons_outs s)" and len: "length (cb_buf (cons_bufs s (arch_cpu e))) < cons_bufsize"
  defines "s' \<equiv> cons_putc e c src s"
  shows "cons_stream d (arch_cpu e) s' = cons_stream d (arch_cpu e) s @ [(c, src)]"
    "length (cb_buf (cons_bufs s' (arch_cpu e))) < cons_bufsize" "cons_outs s' = cons_outs s"
proof -
  let ?cpu = "arch_cpu e"
  define s1 where "s1 = (if src \<noteq> cb_src (cons_bufs s ?cpu) then cons_flush_outbuf ?cpu s else s)"
  define b where "b = \<lparr>cb_buf = cb_buf (cons_bufs s1 ?cpu) @ [c], cb_src = src\<rparr>"
  define s2 where "s2 = s1\<lparr>cons_bufs := (cons_bufs s1)(?cpu := b)\<rparr>"
  have s': "s' = (if c = 10 \<or> length (cb_buf b) = cons_bufsize then cons_flush_outbuf ?cpu s2 else s2)"
    by (simp add: s'_def cons_putc_def Let_def s1_def b_def s2_def)
  have outs: "cons_outs s1 = cons_outs s" "cons_outs s2 = cons_outs s"
    by (auto simp: s1_def s2_def cons_flush_outbuf_def Let_def)
  have st1: "cons_stream d ?cpu s1 = cons_stream d ?cpu s" using cons_stream_flush [OF d] by (simp add: s1_def)
  have src1: "cb_buf (cons_bufs s1 ?cpu) = [] \<or> cb_src (cons_bufs s1 ?cpu) = src"
    by (auto simp: s1_def cons_flush_outbuf_def Let_def)
  have len1: "length (cb_buf (cons_bufs s1 ?cpu)) < cons_bufsize"
    using len by (auto simp: s1_def cons_flush_outbuf_def Let_def cons_bufsize_def)
  have st2: "cons_stream d ?cpu s2 = cons_stream d ?cpu s @ [(c, src)]"
    using st1 src1 by (auto simp: cons_stream_def s2_def b_def)
  show "cons_stream d (arch_cpu e) s' = cons_stream d (arch_cpu e) s @ [(c, src)]"
    using st2 cons_stream_flush [of s2 d ?cpu] d outs by (simp add: s')
  show "length (cb_buf (cons_bufs s' (arch_cpu e))) < cons_bufsize"
    using len1 by (auto simp: s' b_def s2_def cons_flush_outbuf_def Let_def cons_bufsize_def)
  show "cons_outs s' = cons_outs s" using outs by (auto simp: s' cons_flush_outbuf_def Let_def)
qed

text \<open>
  C16: Printing keeps the fill count of the buffer below its size, so no character is stored outside
  it, and every output device receives exactly the characters printed, in order and with their
  source, some of them at the next flush.
\<close>

theorem cons_puts_in_order:
  assumes "distinct (cons_outs s)" and "d \<in> set (cons_outs s)"
    and "length (cb_buf (cons_bufs s (arch_cpu e))) < cons_bufsize"
  shows "length (cb_buf (cons_bufs (cons_puts e cs src s) (arch_cpu e))) < cons_bufsize \<and>
    cons_stream d (arch_cpu e) (cons_puts e cs src s) =
      cons_stream d (arch_cpu e) s @ map (\<lambda>c. (c, src)) cs"
  using assms
proof (induction cs arbitrary: s)
  case (Cons c cs)
  note p = cons_putc_stream [OF Cons.prems, of c src]
  then show ?case using Cons.IH [of "cons_putc e c src s"] Cons.prems by (simp add: cons_puts_def)
qed (simp add: cons_puts_def)

theorem cons_puts_in_order_witness:
  "cons_stream 3 0 (cons_puts tiny_env [72, 105, 10, 33] cons_source_user ((kst0 tiny_mem)\<lparr>cons_outs := [3]\<rparr>)) =
     [(72, cons_source_user), (105, cons_source_user), (10, cons_source_user), (33, cons_source_user)]"
  using cons_puts_in_order [of "(kst0 tiny_mem)\<lparr>cons_outs := [3]\<rparr>" 3 tiny_env "[72, 105, 10, 33]" cons_source_user]
  by (simp add: kst0_def tiny_env_def tiny_numa_def cons_bufsize_def cons_stream_def)

end
