(* ===== verification/Syscall.thy ===== *)
theory Syscall
  imports Device_Obj Console "HOL-Library.Monad_Syntax"
begin

text \<open>
  System calls (\<^verbatim>\<open>kern/kern/syscall.c\<close>).  Each handler takes the processor that made the call, its
  arguments, and what the kernel finds in memory at the addresses the program passed: \<open>um_rd\<close> gives
  the byte at an address, or nothing when the access faults, and \<open>um_wr\<close> says where a store
  succeeds.
\<close>

subsection \<open>User memory\<close>

record uview =
  um_rd :: "u64 \<Rightarrow> u8 option"
  um_wr :: "u64 \<Rightarrow> bool"

primrec rd_bytes :: "uview \<Rightarrow> u64 \<Rightarrow> nat \<Rightarrow> u8 list option" where
  "rd_bytes u a 0 = Some []"
| "rd_bytes u a (Suc n) = do { b \<leftarrow> um_rd u a; bs \<leftarrow> rd_bytes u (a + 1) n; Some (b # bs) }"

text \<open>The little-endian number in \<open>n\<close> bytes from offset \<open>off\<close>.\<close>

primrec le_word :: "u8 list \<Rightarrow> u64" where
  "le_word [] = 0"
| "le_word (b # bs) = ucast b OR push_bit 8 (le_word bs)"

definition field :: "u8 list \<Rightarrow> nat \<Rightarrow> nat \<Rightarrow> u64" where
  "field bs off n = le_word (take n (drop off bs))"

primrec rd_str :: "uview \<Rightarrow> u64 \<Rightarrow> nat \<Rightarrow> string option" where
  "rd_str u a 0 = Some []"
| "rd_str u a (Suc n) =
     do { b \<leftarrow> um_rd u a;
          if b = 0 then Some [] else do { bs \<leftarrow> rd_str u (a + 1) n; Some (char_of (unat b) # bs) } }"

definition rd_sobj :: "u8 list \<Rightarrow> nat \<Rightarrow> sobj_ref" where
  "rd_sobj bs off = SOBJ (field bs off 8) (field bs (off + 8) 8)"

definition rd_uam :: "uview \<Rightarrow> u64 \<Rightarrow> u_address_mapping option" where
  "rd_uam u a =
     do { bs \<leftarrow> rd_bytes u a 56;
          Some \<lparr>uam_type = ucast (field bs 0 4), uam_object = rd_sobj bs 8, uam_kslot = ucast (field bs 24 4),
                uam_flags = ucast (field bs 28 4), uam_va = field bs 32 8, uam_start_page = field bs 40 8,
                uam_num_pages = field bs 48 8\<rparr> }"

definition rd_uat :: "uview \<Rightarrow> u64 \<Rightarrow> u_address_tree option" where
  "rd_uat u a =
     do { bs \<leftarrow> rd_bytes u a 48;
          Some \<lparr>uat_size = field bs 0 8, uat_nent = field bs 8 8, uat_ents = field bs 16 8,
                uat_trap_handler = field bs 24 8, uat_trap_stack_base = field bs 32 8,
                uat_trap_stack_top = field bs 40 8\<rparr> }"

definition mode_of :: "u32 \<Rightarrow> ps_mode_t" where
  "mode_of w =
     (if w = 0 then ps_mode_reg else if w = 1 then ps_mode_vm else if w = 2 then ps_mode_mon else ps_mode_bad w)"

definition rd_ctx :: "uview \<Rightarrow> u64 \<Rightarrow> u_context option" where
  "rd_ctx u a =
     do { bs \<leftarrow> rd_bytes u a 416;
          Some \<lparr>uc_at = rd_sobj bs 0, uc_mode = mode_of (ucast (field bs 16 4)), uc_entry = field bs 24 8,
                uc_stack = field bs 32 8, uc_share = map (\<lambda>i. rd_sobj bs (48 + 16 * i)) [0..<20],
                uc_arg = map (\<lambda>i. field bs (368 + 8 * i) 8) [0..<6]\<rparr> }"

definition rd_conf :: "uview \<Rightarrow> u64 \<Rightarrow> u_device_conf option" where
  "rd_conf u a =
     do { bs \<leftarrow> rd_bytes u a 40;
          let t = field bs 0 4 in
          Some (if t = 0 then Conf_irq (field bs 8 1 \<noteq> 0) (ucast (field bs 12 4))
                else if t = 1 then Conf_vnic_ring (rd_sobj bs 8) (field bs 24 8)
                else if t = 2 then Conf_sysmon (rd_sobj bs 8) (field bs 24 8) (ucast (field bs 32 4))
                else if t = 3 then Conf_sysmon_nic (rd_sobj bs 8) (rd_sobj bs 24)
                else Conf_other (ucast t)) }"

text \<open>A guarded store of words.\<close>

definition put_user :: "kenv \<Rightarrow> uview \<Rightarrow> u64 \<Rightarrow> u64 list \<Rightarrow> kst \<Rightarrow> unit result \<times> kst" where
  "put_user e u a ws s =
     bind_r (uaccess_start e s) (\<lambda>_ s.
       if um_wr u a then uaccess_stop e (ustore a ws s) else uaccess_error e s)"

text \<open>The processor argument of the calls is 64 bits wide and passed on as 32 bits.\<close>

definition pid_of :: "u64 \<Rightarrow> nat" where
  "pid_of a = unat (ucast a :: u32)"

subsection \<open>Console and machine\<close>

primrec puts_loop :: "kenv \<Rightarrow> uview \<Rightarrow> u64 \<Rightarrow> nat \<Rightarrow> kst \<Rightarrow> u64 result \<times> kst" where
  "puts_loop e u p 0 s = bind_r (uaccess_stop e s) (\<lambda>_ s. (Ok 0, s))"
| "puts_loop e u p (Suc n) s =
     (case um_rd u p of
        None \<Rightarrow> uaccess_error e s
      | Some c \<Rightarrow> puts_loop e u (p + 1) n (cons_putc e c cons_source_user s))"

definition sys_cons_puts :: "kenv \<Rightarrow> uview \<Rightarrow> u64 \<Rightarrow> u64 \<Rightarrow> kst \<Rightarrow> u64 result \<times> kst" where
  "sys_cons_puts e u p size' s = bind_r (uaccess_start e s) (\<lambda>_. puts_loop e u p (unat size'))"

definition sys_cons_flush :: "kenv \<Rightarrow> kst \<Rightarrow> u64 result \<times> kst" where
  "sys_cons_flush e s = (Ok 0, cons_flush e s)"

text \<open>The distance of two processors: zero to itself, one on the same node, two otherwise.\<close>

definition arch_locality_fill :: "kenv \<Rightarrow> (nat \<Rightarrow> nat \<Rightarrow> u64) \<Rightarrow> nat \<Rightarrow> nat \<Rightarrow> u64" where
  "arch_locality_fill e =
     fold (\<lambda>i. fold (\<lambda>j d.
       if mn_cpu (memnode (ke_numa e) ! i) j
       then d(j := (fold (\<lambda>k r. r(k := if mn_cpu (memnode (ke_numa e) ! i) k then 1 else 2)) [0..<ke_ncpu e] (d j))(j := 0))
       else d) [0..<ke_ncpu e]) [0..<length (memnode (ke_numa e))]"

definition sys_device_list :: "kenv \<Rightarrow> uview \<Rightarrow> u64 \<Rightarrow> kst \<Rightarrow> u64 result \<times> kst" where
  "sys_device_list e u p s =
     bind_r (uaccess_start e s) (\<lambda>_ s.
       case device_list s of
         Ok l \<Rightarrow>
           if um_wr u p then
             bind_r (uaccess_stop e (ustore (p + 1024) [of_nat (length l)]
               (ustore p (concat (map (\<lambda>(t, i). [of_nat t, of_nat i]) l)) s))) (\<lambda>_ s. (Ok 0, s))
           else uaccess_error e s
       | Err er \<Rightarrow> (Err er, s)
       | Panic \<Rightarrow> (Panic, s))"

subsection \<open>Devices\<close>

definition sys_device_alloc :: "kenv \<Rightarrow> page \<Rightarrow> u64 \<Rightarrow> u64 \<Rightarrow> u64 \<Rightarrow> kst \<Rightarrow> u64 result \<times> kst" where
  "sys_device_alloc e src sh did pid s =
     bind_r (device_alloc e did (pid_of pid) s) (\<lambda>dv s.
       bind_r (processor_import_obj e src sh dv s) (\<lambda>_ s. (Ok (ko_id (hdr s dv)), s)))"

text \<open>In the next two handlers an error of the driver returns between \<open>uaccess_start\<close> and \<open>uaccess_stop\<close>.\<close>

definition sys_device_stat :: "kenv \<Rightarrow> drivers \<Rightarrow> uview \<Rightarrow> page \<Rightarrow> sobj_ref \<Rightarrow> u64 \<Rightarrow> kst \<Rightarrow> u64 result \<times> kst" where
  "sys_device_stat e dr u src devref p s =
     bind_r (processor_co_obj e src devref kobj_device s) (\<lambda>dv s.
       bind_r (uaccess_start e s) (\<lambda>_ s.
         bind_r (device_stat dr dv s) (\<lambda>ws s.
           if um_wr u p then bind_r (uaccess_stop e (ustore p ws s)) (\<lambda>_ s. (Ok 0, s)) else uaccess_error e s)))"

definition sys_device_conf :: "kenv \<Rightarrow> drivers \<Rightarrow> uview \<Rightarrow> page \<Rightarrow> sobj_ref \<Rightarrow> u64 \<Rightarrow> kst \<Rightarrow> u64 result \<times> kst" where
  "sys_device_conf e dr u src devref p s =
     bind_r (processor_co_obj e src devref kobj_device s) (\<lambda>dv s.
       bind_r (uaccess_start e s) (\<lambda>_ s.
         case rd_conf u p of
           None \<Rightarrow> uaccess_error e s
         | Some udc \<Rightarrow> bind_r (device_conf dr dv udc s) (\<lambda>_ s. bind_r (uaccess_stop e s) (\<lambda>_ s. (Ok 0, s)))))"

definition devio_of :: "u64 \<Rightarrow> devio_type" where
  "devio_of w = (if w = 0 then devio_in else if w = 1 then devio_out else if w = 2 then devio_reset else devio_other w)"

definition sys_device_buf ::
  "kenv \<Rightarrow> drivers \<Rightarrow> page \<Rightarrow> sobj_ref \<Rightarrow> sobj_ref \<Rightarrow> u64 \<Rightarrow> devio_type \<Rightarrow> kst \<Rightarrow> u64 result \<times> kst"
where
  "sys_device_buf e dr src devref sgref offset type s =
     bind_r (processor_co_obj e src devref kobj_device s) (\<lambda>dv s.
       bind_r (processor_co_obj e src sgref kobj_segment s) (\<lambda>sg s.
         bind_r (device_buf e dr dv sg offset type s) (\<lambda>_ s. (Ok 0, s))))"

subsection \<open>Objects and shares\<close>

definition sys_obj_get_name :: "kenv \<Rightarrow> uview \<Rightarrow> page \<Rightarrow> sobj_ref \<Rightarrow> u64 \<Rightarrow> kst \<Rightarrow> u64 result \<times> kst" where
  "sys_obj_get_name e u src obj p s =
     bind_r (processor_co_obj e src obj kobj_any s) (\<lambda>ko s.
       bind_r (put_user e u p (map (\<lambda>c. of_nat (of_char c)) (ko_name (hdr s ko))) s) (\<lambda>_ s. (Ok 0, s)))"

definition set_user_name :: "kenv \<Rightarrow> uview \<Rightarrow> page \<Rightarrow> u64 \<Rightarrow> kst \<Rightarrow> unit result \<times> kst" where
  "set_user_name e u ko name s =
     bind_r (copy_user e (rd_str u name (JOS_KOBJ_NAME_LEN - 1)) s) (\<lambda>n s. (Ok (), kobject_set_name ko n s))"

definition sys_share_alloc :: "kenv \<Rightarrow> uview \<Rightarrow> page \<Rightarrow> u64 \<Rightarrow> u64 \<Rightarrow> u64 \<Rightarrow> u64 \<Rightarrow> kst \<Rightarrow> u64 result \<times> kst" where
  "sys_share_alloc e u src sh_id mask' name pid s =
     bind_r (share_alloc e (ucast mask') (pid_of pid) s) (\<lambda>sh s.
       bind_r (set_user_name e u sh name s) (\<lambda>_ s.
         bind_r (processor_import_obj e src sh_id sh s) (\<lambda>_ s.
           bind_r (processor_add_share e src sh s) (\<lambda>_ s. (Ok (ko_id (hdr s sh)), s)))))"

definition sys_share_addref :: "kenv \<Rightarrow> page \<Rightarrow> u64 \<Rightarrow> u64 \<Rightarrow> u64 \<Rightarrow> kst \<Rightarrow> u64 result \<times> kst" where
  "sys_share_addref e src dst_sh_id src_sh_id obj_id s =
     bind_r (processor_get_share e src dst_sh_id s) (\<lambda>dst_sh s.
       bind_r (processor_get_share e src src_sh_id s) (\<lambda>src_sh s.
         bind_r (share_co_obj e src_sh obj_id kobj_any s) (\<lambda>obj s.
           if ko_type (hdr s obj) = kobj_share then (Err E_INVAL, s)
           else bind_r (share_import_obj e dst_sh obj s) (\<lambda>_ s. (Ok 0, s)))))"

definition sys_share_unref :: "kenv \<Rightarrow> page \<Rightarrow> u64 \<Rightarrow> u64 \<Rightarrow> kst \<Rightarrow> u64 result \<times> kst" where
  "sys_share_unref e src sh_id obj_id s =
     bind_r (processor_remove_obj e src (SOBJ sh_id obj_id) s) (\<lambda>_ s. (Ok 0, s))"

subsection \<open>Segments\<close>

definition sys_segment_alloc :: "kenv \<Rightarrow> uview \<Rightarrow> page \<Rightarrow> u64 \<Rightarrow> u64 \<Rightarrow> u64 \<Rightarrow> u64 \<Rightarrow> kst \<Rightarrow> u64 result \<times> kst" where
  "sys_segment_alloc e u src sh_id num_bytes name pid s =
     bind_r (segment_alloc e (pid_of pid) s) (\<lambda>sg s.
       bind_r (set_user_name e u sg name s) (\<lambda>_ s.
         bind_r (segment_set_nbytes e sg num_bytes s) (\<lambda>_ s.
           bind_r (processor_import_obj e src sh_id sg s) (\<lambda>_ s. (Ok (ko_id (hdr s sg)), s)))))"

definition sharing_of :: "u64 \<Rightarrow> page_sharing_mode option" where
  "sharing_of w =
     (let m = (ucast w :: u32) in
      if m = 1 then Some page_shared_cow else if m = 2 then Some page_shared_cor
      else if m = 3 then Some page_excl else None)"

definition sys_segment_copy ::
  "kenv \<Rightarrow> uview \<Rightarrow> page \<Rightarrow> u64 \<Rightarrow> sobj_ref \<Rightarrow> u64 \<Rightarrow> u64 \<Rightarrow> u64 \<Rightarrow> kst \<Rightarrow> u64 result \<times> kst"
where
  "sys_segment_copy e u src dst_sh obj name mode pid s =
     bind_r (processor_co_obj e src obj kobj_segment s) (\<lambda>ko s.
       bind_r (segment_copy e ko (sharing_of mode) (pid_of pid) s) (\<lambda>new_sg s.
         bind_r (set_user_name e u new_sg name s) (\<lambda>_ s.
           bind_r (processor_import_obj e src dst_sh new_sg s) (\<lambda>_ s. (Ok (ko_id (hdr s new_sg)), s)))))"

definition sys_segment_get_nbytes :: "kenv \<Rightarrow> page \<Rightarrow> sobj_ref \<Rightarrow> kst \<Rightarrow> u64 result \<times> kst" where
  "sys_segment_get_nbytes e src obj s =
     bind_r (processor_co_obj e src obj kobj_segment s) (\<lambda>ko s.
       bind_r (segment_get_npage ko s) (\<lambda>n s. (Ok (n * PGSIZE), s)))"

definition sys_segment_set_nbytes :: "kenv \<Rightarrow> page \<Rightarrow> sobj_ref \<Rightarrow> u64 \<Rightarrow> kst \<Rightarrow> u64 result \<times> kst" where
  "sys_segment_set_nbytes e src obj nbytes s =
     bind_r (processor_co_obj e src obj kobj_segment s) (\<lambda>ko s.
       bind_r (segment_set_nbytes e ko nbytes s) (\<lambda>_ s. (Ok 0, s)))"

subsection \<open>Processors\<close>

definition sys_processor_alloc :: "kenv \<Rightarrow> uview \<Rightarrow> page \<Rightarrow> u64 \<Rightarrow> u64 \<Rightarrow> u64 \<Rightarrow> kst \<Rightarrow> u64 result \<times> kst" where
  "sys_processor_alloc e u src sh name pid s =
     bind_r (processor_alloc e (pid_of pid) s) (\<lambda>ps s.
       bind_r (processor_import_obj e src sh ps s) (\<lambda>_ s.
         bind_r (set_user_name e u ps name s) (\<lambda>_ s. (Ok (ko_id (hdr s ps)), s))))"

definition sys_processor_current :: "page \<Rightarrow> kst \<Rightarrow> u64 result \<times> kst" where
  "sys_processor_current src s = (Ok (ko_id (hdr s src)), s)"

definition sys_processor_vector :: "kenv \<Rightarrow> uview \<Rightarrow> page \<Rightarrow> sobj_ref \<Rightarrow> u64 \<Rightarrow> kst \<Rightarrow> u64 result \<times> kst" where
  "sys_processor_vector e u src obj p s =
     bind_r (copy_user e (rd_ctx u p) s) (\<lambda>uc s.
       bind_r (processor_co_obj e src obj kobj_processor s) (\<lambda>ps s.
         bind_r (processor_vector e ps uc s) (\<lambda>_ s. (Ok 0, s))))"

definition sys_processor_set_interval :: "kenv \<Rightarrow> page \<Rightarrow> sobj_ref \<Rightarrow> u64 \<Rightarrow> kst \<Rightarrow> u64 result \<times> kst" where
  "sys_processor_set_interval e src obj hz s =
     bind_r (processor_co_obj e src obj kobj_processor s) (\<lambda>ps s.
       bind_r (processor_set_interval e ps hz s) (\<lambda>_ s. (Ok 0, s)))"

definition sys_processor_halt :: "kenv \<Rightarrow> page \<Rightarrow> sobj_ref \<Rightarrow> kst \<Rightarrow> u64 result \<times> kst" where
  "sys_processor_halt e src obj s =
     bind_r (processor_co_obj e src obj kobj_processor s) (\<lambda>ps s.
       bind_r (halt e ps s) (\<lambda>_ s. (Ok 0, s)))"

definition sys_processor_set_device ::
  "kenv \<Rightarrow> page \<Rightarrow> sobj_ref \<Rightarrow> u64 \<Rightarrow> sobj_ref \<Rightarrow> kst \<Rightarrow> u64 result \<times> kst"
where
  "sys_processor_set_device e src psref i devref s =
     bind_r (processor_co_obj e src psref kobj_processor s) (\<lambda>ps s.
       bind_r (processor_set_device ps i devref s) (\<lambda>_ s. (Ok 0, s)))"

definition sys_self_fp_enable :: "page \<Rightarrow> kst \<Rightarrow> u64 result \<times> kst" where
  "sys_self_fp_enable src s = bind_r (processor_enable_fp src s) (\<lambda>_ s. (Ok 0, s))"

definition sys_self_drop_share :: "kenv \<Rightarrow> page \<Rightarrow> u64 \<Rightarrow> kst \<Rightarrow> u64 result \<times> kst" where
  "sys_self_drop_share e src sh_id s = bind_r (processor_remove_share e src sh_id s) (\<lambda>_ s. (Ok 0, s))"

definition sys_self_get_as :: "kenv \<Rightarrow> uview \<Rightarrow> page \<Rightarrow> u64 \<Rightarrow> kst \<Rightarrow> u64 result \<times> kst" where
  "sys_self_get_as e u src p s =
     with_ps src s (\<lambda>P.
       bind_r (put_user e u p [so_share (ps_atref P), so_object (ps_atref P)] s) (\<lambda>_ s. (Ok 0, s)))"

definition sys_self_get_pid :: "page \<Rightarrow> kst \<Rightarrow> u64 result \<times> kst" where
  "sys_self_get_pid src s = with_ps src s (\<lambda>P. (Ok (of_nat (ps_pid P)), s))"

subsection \<open>Address trees\<close>

definition sys_at_alloc :: "kenv \<Rightarrow> uview \<Rightarrow> page \<Rightarrow> u64 \<Rightarrow> u64 \<Rightarrow> u64 \<Rightarrow> u64 \<Rightarrow> kst \<Rightarrow> u64 result \<times> kst" where
  "sys_at_alloc e u src sh_id interior name pid s =
     bind_r (at_alloc e (ucast interior) (pid_of pid) s) (\<lambda>at s.
       bind_r (processor_import_obj e src sh_id at s) (\<lambda>_ s.
         bind_r (set_user_name e u at name s) (\<lambda>_ s. (Ok (ko_id (hdr s at)), s))))"

definition sys_at_get :: "kenv \<Rightarrow> uview \<Rightarrow> page \<Rightarrow> sobj_ref \<Rightarrow> u64 \<Rightarrow> kst \<Rightarrow> u64 result \<times> kst" where
  "sys_at_get e u src atref uatp s =
     bind_r (processor_co_obj e src atref kobj_address_tree s) (\<lambda>at s.
       bind_r (at_to_user e at uatp (rd_uat u uatp) s) (\<lambda>_ s. (Ok 0, s)))"

definition sys_at_set :: "kenv \<Rightarrow> uview \<Rightarrow> page \<Rightarrow> sobj_ref \<Rightarrow> u64 \<Rightarrow> kst \<Rightarrow> u64 result \<times> kst" where
  "sys_at_set e u src atref uatp s =
     bind_r (processor_co_obj e src atref kobj_address_tree s) (\<lambda>at s.
       bind_r (at_from_user e at uatp (rd_uat u uatp) (rd_uam u) s) (\<lambda>_ s. (Ok 0, s)))"

definition sys_at_set_slot :: "kenv \<Rightarrow> uview \<Rightarrow> page \<Rightarrow> sobj_ref \<Rightarrow> u64 \<Rightarrow> kst \<Rightarrow> u64 result \<times> kst" where
  "sys_at_set_slot e u src atref p s =
     bind_r (processor_co_obj e src atref kobj_address_tree s) (\<lambda>at s.
       bind_r (at_set_uslot e at (rd_uam u p) s) (\<lambda>_ s. (Ok 0, s)))"

subsection \<open>Dispatch\<close>

text \<open>
  The debugging calls read performance counters and print; \<open>dbg\<close> is that code.
\<close>

definition sys_debug ::
  "(u64 \<Rightarrow> u64 list \<Rightarrow> kst \<Rightarrow> unit result \<times> kst) \<Rightarrow> u64 \<Rightarrow> u64 list \<Rightarrow> kst \<Rightarrow> u64 result \<times> kst"
where
  "sys_debug dbg op args s = bind_r (dbg op args s) (\<lambda>_ s. (Ok 0, s))"

text \<open>
  The locality matrix has 16 rows of 16 bytes and is written as far as the machine has processors;
  a row is logged as one store with a byte per element.
\<close>

definition sys_locality_get :: "kenv \<Rightarrow> uview \<Rightarrow> u64 \<Rightarrow> kst \<Rightarrow> u64 result \<times> kst" where
  "sys_locality_get e u p s =
     (let old = (\<lambda>j k. case um_rd u (p + of_nat (16 * j + k)) of None \<Rightarrow> 0 | Some b \<Rightarrow> ucast b);
          d = arch_locality_fill e old
      in bind_r (uaccess_start e s) (\<lambda>_ s.
           if um_wr u p then
             bind_r (uaccess_stop e (ustore (p + 256) [of_nat (ke_ncpu e)]
                       (fold (\<lambda>j. ustore (p + of_nat (16 * j)) (map (d j) [0..<ke_ncpu e])) [0..<ke_ncpu e] s)))
               (\<lambda>_ s. (Ok 0, s))
           else uaccess_error e s))"

text \<open>
  \<open>reinit\<close> is the restart of the machine with new boot arguments.  The numbers follow
  \<^verbatim>\<open>inc/syscall_num.h\<close>; the arguments are the list \<open>a\<close> of \<open>a1\<close> to \<open>a7\<close>.
\<close>

definition sys_machine_reinit ::
  "kenv \<Rightarrow> uview \<Rightarrow> (u8 list \<Rightarrow> kst \<Rightarrow> u64 result \<times> kst) \<Rightarrow> u64 \<Rightarrow> u64 \<Rightarrow> kst \<Rightarrow> u64 result \<times> kst"
where
  "sys_machine_reinit e u reinit p size' s =
     (if PGSIZE \<le> size' then (Err E_INVAL, s)
      else bind_r (copy_user e (rd_bytes u p (unat size')) s) (\<lambda>args s. reinit args s))"

record machine =
  mc_debug :: "u64 \<Rightarrow> u64 list \<Rightarrow> kst \<Rightarrow> unit result \<times> kst"
  mc_reinit :: "u8 list \<Rightarrow> kst \<Rightarrow> u64 result \<times> kst"

definition syscall_exec ::
  "kenv \<Rightarrow> drivers \<Rightarrow> uview \<Rightarrow> machine \<Rightarrow> page \<Rightarrow> u64 \<Rightarrow> u64 list \<Rightarrow> kst \<Rightarrow> u64 result \<times> kst"
where
  "syscall_exec e dr u mc src num a s =
     (if num = 0 then sys_cons_puts e u (a ! 0) (a ! 1) s
      else if num = 1 then sys_cons_flush e s
      else if num = 2 then sys_locality_get e u (a ! 0) s
      else if num = 3 then sys_device_list e u (a ! 0) s
      else if num = 4 then sys_device_alloc e src (a ! 0) (a ! 1) (a ! 2) s
      else if num = 5 then sys_device_stat e dr u src (SOBJ (a ! 0) (a ! 1)) (a ! 2) s
      else if num = 6 then sys_device_conf e dr u src (SOBJ (a ! 0) (a ! 1)) (a ! 2) s
      else if num = 7 then
        sys_device_buf e dr src (SOBJ (a ! 0) (a ! 1)) (SOBJ (a ! 2) (a ! 3)) (a ! 4) (devio_of (a ! 5)) s
      else if num = 8 then sys_debug (mc_debug mc) (a ! 0) [a ! 1, a ! 2, a ! 3, a ! 4, a ! 4, a ! 6] s
      else if num = 9 then sys_obj_get_name e u src (SOBJ (a ! 0) (a ! 1)) (a ! 2) s
      else if num = 10 then sys_share_alloc e u src (a ! 0) (a ! 1) (a ! 2) (a ! 3) s
      else if num = 11 then sys_share_addref e src (a ! 0) (a ! 1) (a ! 2) s
      else if num = 12 then sys_share_unref e src (a ! 0) (a ! 1) s
      else if num = 13 then sys_segment_copy e u src (a ! 0) (SOBJ (a ! 1) (a ! 2)) (a ! 3) (a ! 4) (a ! 5) s
      else if num = 14 then sys_segment_alloc e u src (a ! 0) (a ! 1) (a ! 2) (a ! 3) s
      else if num = 15 then sys_segment_get_nbytes e src (SOBJ (a ! 0) (a ! 1)) s
      else if num = 16 then sys_segment_set_nbytes e src (SOBJ (a ! 0) (a ! 1)) (a ! 2) s
      else if num = 17 then sys_processor_alloc e u src (a ! 0) (a ! 1) (a ! 2) s
      else if num = 18 then sys_processor_current src s
      else if num = 19 then sys_processor_vector e u src (SOBJ (a ! 0) (a ! 1)) (a ! 2) s
      else if num = 22 then sys_processor_set_interval e src (SOBJ (a ! 0) (a ! 1)) (a ! 2) s
      else if num = 23 then sys_processor_halt e src (SOBJ (a ! 0) (a ! 1)) s
      else if num = 24 then
        sys_processor_set_device e src (SOBJ (a ! 0) (a ! 1)) (a ! 2) (SOBJ (a ! 3) (a ! 4)) s
      else if num = 25 then sys_self_fp_enable src s
      else if num = 26 then sys_self_drop_share e src (a ! 0) s
      else if num = 27 then sys_self_get_as e u src (a ! 0) s
      else if num = 28 then sys_self_get_pid src s
      else if num = 29 then sys_at_alloc e u src (a ! 0) (a ! 1) (a ! 2) (a ! 3) s
      else if num = 30 then sys_at_get e u src (SOBJ (a ! 0) (a ! 1)) (a ! 2) s
      else if num = 31 then sys_at_set e u src (SOBJ (a ! 0) (a ! 1)) (a ! 2) s
      else if num = 32 then sys_at_set_slot e u src (SOBJ (a ! 0) (a ! 1)) (a ! 2) s
      else if num = 33 then sys_machine_reinit e u (mc_reinit mc) (a ! 0) (a ! 1) s
      else (Err E_INVAL, s))"

definition kern_syscall ::
  "kenv \<Rightarrow> drivers \<Rightarrow> uview \<Rightarrow> machine \<Rightarrow> page \<Rightarrow> u64 \<Rightarrow> u64 list \<Rightarrow> kst \<Rightarrow> u64 result \<times> kst"
where
  "kern_syscall e dr u mc src num a s = syscall_exec e dr u mc src num a s"

text \<open>The value handed back in the register of the caller.\<close>

definition syscall_value :: "u64 result \<Rightarrow> u64" where
  "syscall_value r = (case r of Ok v \<Rightarrow> v | Err er \<Rightarrow> of_int (- errno er) | Panic \<Rightarrow> 0)"

end
