(* ===== verification/Trap.thy ===== *)
theory Trap
  imports Syscall
begin

text \<open>
  Traps (\<^verbatim>\<open>kern/arch/amd64/trap.c\<close>, \<^verbatim>\<open>kern/kern/intr.c\<close>) and the scheduling loop
  (\<^verbatim>\<open>processor_run\<close>).  The processor state that a trap saves is an argument, as are the faulting
  address and the error code.
\<close>

subsection \<open>Traps delivered to user programs\<close>

text \<open>The words of the frame pushed on the trap stack, in the order of the structure.\<close>

definition utrap_words :: "Trapframe \<Rightarrow> nat \<Rightarrow> u64 \<Rightarrow> u64 list" where
  "utrap_words tf trapno arg =
     [tf_rax tf, tf_rbx tf, tf_rcx tf, tf_rdx tf, tf_rsi tf, tf_rdi tf, tf_rbp tf, tf_rsp tf,
      tf_r8 tf, tf_r9 tf, tf_r10 tf, tf_r11 tf, tf_r12 tf, tf_r13 tf, tf_r14 tf, tf_r15 tf,
      tf_rip tf, tf_rflags tf, of_nat trapno, arg]"

definition UTRAPFRAME_SIZE :: u64 where
  "UTRAPFRAME_SIZE = 160"

definition utrap_stacktop :: "Address_tree \<Rightarrow> u64 \<Rightarrow> u64" where
  "utrap_stacktop A rsp =
     (if at_utrap_stack_base A < rsp \<and> rsp \<le> at_utrap_stack_top A then rsp - 128 else at_utrap_stack_top A - 16)"

definition ps_address_tree :: "Processor \<Rightarrow> kst \<Rightarrow> (Address_tree \<Rightarrow> 'a result \<times> kst) \<Rightarrow> 'a result \<times> kst" where
  "ps_address_tree P s f = (case ps_at P of None \<Rightarrow> (Panic, s) | Some at \<Rightarrow> with_at at s f)"

definition processor_arch_utrap :: "kenv \<Rightarrow> uview \<Rightarrow> page \<Rightarrow> nat \<Rightarrow> u64 \<Rightarrow> kst \<Rightarrow> unit result \<times> kst" where
  "processor_arch_utrap e u ps trapno arg s =
     with_ps ps s (\<lambda>P.
       if ps_mode P = ps_mode_vm then (Panic, s)
       else ps_address_tree P s (\<lambda>A.
         let utf = utrap_stacktop A (tf_rsp (ps_tf P)) - UTRAPFRAME_SIZE in
         bind_r (put_user e u utf (utrap_words (ps_tf P) trapno arg) s) (\<lambda>_ s.
           (Ok (), upd_ps ps (\<lambda>P. P\<lparr>ps_tf := (ps_tf P)\<lparr>tf_rsp := utf, tf_rip := at_utrap_entry A, tf_cs := GD_UT_MASK\<rparr>\<rparr>) s))))"

text \<open>\<^verbatim>\<open>1 << trapno\<close> is a 32-bit shift, which the machine takes modulo 32, and is sign-extended.\<close>

definition pending_bit :: "nat \<Rightarrow> u64" where
  "pending_bit trapno = scast (push_bit (trapno mod 32) 1 :: 32 word)"

definition processor_arch_pending :: "kenv \<Rightarrow> uview \<Rightarrow> page \<Rightarrow> nat \<Rightarrow> kst \<Rightarrow> unit result \<times> kst" where
  "processor_arch_pending e u ps trapno s =
     with_ps ps s (\<lambda>P.
       if ps_mode P = ps_mode_vm then (Panic, s)
       else ps_address_tree P s (\<lambda>A.
         let utp = at_utrap_stack_top A - 16 in
         bind_r (uaccess_start e s) (\<lambda>_ s.
           case rd_bytes u utp 16 of
             None \<Rightarrow> uaccess_error e s
           | Some bs \<Rightarrow>
               if um_wr u utp then
                 uaccess_stop e (ustore (utp + 8) [field bs 8 8 OR pending_bit trapno]
                                  (ustore utp [field bs 0 8 OR pending_bit trapno] s))
               else uaccess_error e s)))"

definition processor_arch_is_masked :: "Processor \<Rightarrow> bool" where
  "processor_arch_is_masked P = (if ps_mode P = ps_mode_vm then False else tf_cs (ps_tf P) = GD_UT_MASK)"

definition processor_utrap :: "kenv \<Rightarrow> uview \<Rightarrow> page \<Rightarrow> nat \<Rightarrow> bool \<Rightarrow> u64 \<Rightarrow> kst \<Rightarrow> unit result \<times> kst" where
  "processor_utrap e u ps trapno precise arg s =
     with_ps ps s (\<lambda>P.
       if Some ps \<noteq> processor_sched e s then (Panic, s)
       else if \<not> ps_running P then (Err E_INVAL, s)
       else if processor_arch_is_masked P then
         (if precise then (Err E_BUSY, s) else processor_arch_pending e u ps trapno s)
       else processor_arch_utrap e u ps trapno arg s)"

subsection \<open>Dispatch\<close>

definition T_NMI :: nat where "T_NMI = 2"
definition T_PGFLT :: nat where "T_PGFLT = 14"
definition IRQ_OFFSET :: nat where "IRQ_OFFSET = 32"
definition T_SYSCALL :: nat where "T_SYSCALL = 64"
definition T_TLBFLUSH :: nat where "T_TLBFLUSH = 65"
definition T_HALT :: nat where "T_HALT = 66"
definition JOS_MAX_IRQS :: nat where "JOS_MAX_IRQS = 32"
definition FEC_W :: u32 where "FEC_W = 2"
definition FEC_I :: u32 where "FEC_I = 16"

text \<open>
  How a page fault ends: in the scheduling loop, by resuming the interrupted access to user memory,
  or by making that access fail.
\<close>

datatype fault_exit = To_run | Resume_access | Fail_access

definition fault_reqflags :: "u32 \<Rightarrow> u32" where
  "fault_reqflags err =
     (if err AND FEC_W \<noteq> 0 then SEGMAP_WRITE else 0) OR (if err AND FEC_I \<noteq> 0 then SEGMAP_EXEC else 0)"

definition page_fault ::
  "kenv \<Rightarrow> uview \<Rightarrow> page \<Rightarrow> Trapframe \<Rightarrow> u32 \<Rightarrow> u64 \<Rightarrow> kst \<Rightarrow> fault_exit result \<times> kst"
where
  "page_fault e u src tf err fault_va s =
     (if tf_cs tf AND 3 = 0 \<and> (\<not> uaccess_enabled e s \<or> ULIM \<le> fault_va) then (Panic, s)
      else
        (let done = (\<lambda>s. (Ok (if uaccess_enabled e s then Resume_access else To_run), s)) in
         case processor_pagefault e src fault_va (fault_reqflags err) s of
           (Ok _, s) \<Rightarrow> done s
         | (Err er, s) \<Rightarrow>
             if er = E_RESTART then done s
             else if uaccess_enabled e s then
               (Ok Fail_access, s\<lparr>uaccess := (uaccess s)(arch_cpu e := False)\<rparr>)
             else
               (case processor_utrap e u src T_PGFLT True fault_va s of
                  (Ok _, s) \<Rightarrow> (Ok To_run, s)
                | (Err er, s) \<Rightarrow> if er = E_RESTART then (Ok To_run, s) else (Panic, s)
                | (Panic, s) \<Rightarrow> (Panic, s))
         | (Panic, s) \<Rightarrow> (Panic, s)))"

definition irq_handler :: "drivers \<Rightarrow> page \<Rightarrow> nat \<Rightarrow> kst \<Rightarrow> unit result \<times> kst" where
  "irq_handler dr ps irqno s = (if JOS_MAX_IRQS \<le> irqno then (Panic, s) else dr_irq dr irqno ps s)"

definition dispatch_syscall ::
  "kenv \<Rightarrow> drivers \<Rightarrow> uview \<Rightarrow> machine \<Rightarrow> page \<Rightarrow> Trapframe \<Rightarrow> kst \<Rightarrow> fault_exit result \<times> kst"
where
  "dispatch_syscall e dr u mc ps tf s =
     (case kern_syscall e dr u mc ps (tf_rdi tf)
             [tf_rsi tf, tf_rdx tf, tf_rcx tf, tf_r8 tf, tf_r9 tf, tf_r10 tf, tf_r11 tf] s of
        (Panic, s) \<Rightarrow> (Panic, s)
      | (r, s) \<Rightarrow>
          (Ok To_run,
           if syscall_value r \<noteq> of_int (- errno E_RESTART)
           then upd_ps ps (\<lambda>P. P\<lparr>ps_tf := (ps_tf P)\<lparr>tf_rax := syscall_value r\<rparr>\<rparr>) s
           else upd_ps ps (\<lambda>P. P\<lparr>ps_tf := (ps_tf P)\<lparr>tf_rip := tf_rip (ps_tf P) - 2\<rparr>\<rparr>) s))"

definition trap_dispatch ::
  "kenv \<Rightarrow> drivers \<Rightarrow> uview \<Rightarrow> machine \<Rightarrow> nat \<Rightarrow> Trapframe \<Rightarrow> u32 \<Rightarrow> u64 \<Rightarrow> kst \<Rightarrow> fault_exit result \<times> kst"
where
  "trap_dispatch e dr u mc trapno tf err cr2 s =
     (if trapno = T_NMI then (Panic, s)
      else case processor_sched e s of
        None \<Rightarrow> (Panic, s)
      | Some ps \<Rightarrow>
          if IRQ_OFFSET \<le> trapno \<and> trapno < IRQ_OFFSET + JOS_MAX_IRQS then
            bind_r (irq_handler dr ps (trapno - IRQ_OFFSET) s) (\<lambda>_ s. (Ok To_run, s))
          else with_ps ps s (\<lambda>P.
            if ps_mode P = ps_mode_vm then (Panic, s)
            else if trapno = T_SYSCALL then dispatch_syscall e dr u mc ps tf s
            else if trapno = T_PGFLT then page_fault e u ps tf err cr2 s
            else if trapno = T_TLBFLUSH then (Ok To_run, s)
            else if trapno = T_HALT then
              (if ps_halt P then bind_r (halt e ps s) (\<lambda>_ s. (Ok To_run, s)) else (Ok To_run, s))
            else
              (case processor_utrap e u ps trapno True 0 s of
                 (Ok _, s) \<Rightarrow> (Ok To_run, s)
               | (Err er, s) \<Rightarrow>
                   if er = E_RESTART then (Ok To_run, s) else bind_r (halt e ps s) (\<lambda>_ s. (Ok To_run, s))
               | (Panic, s) \<Rightarrow> (Panic, s))))"

subsection \<open>The scheduling loop\<close>

text \<open>What the processor does next: user code, the monitor loop over some devices, or waiting for work.\<close>

datatype run_target = Run_user page | Run_monitor page "page list" | Run_idle

definition processor_arch_run :: "page \<Rightarrow> kst \<Rightarrow> run_target result \<times> kst" where
  "processor_arch_run ps s =
     with_ps ps s (\<lambda>P. case ps_mode P of ps_mode_reg \<Rightarrow> (Ok (Run_user ps), s) | _ \<Rightarrow> (Panic, s))"

text \<open>The devices a monitor polls, pinned; one that cannot be looked up is skipped.\<close>

primrec pin_devices :: "kenv \<Rightarrow> page \<Rightarrow> sobj_ref list \<Rightarrow> kst \<Rightarrow> page list result \<times> kst" where
  "pin_devices e ps [] s = (Ok [], s)"
| "pin_devices e ps (o' # os) s =
     (if so_object o' = 0 then pin_devices e ps os s
      else case processor_co_obj e ps o' kobj_device s of
        (Ok dv, s) \<Rightarrow> bind_r (pin_devices e ps os (kobject_incref dv s)) (\<lambda>dvs s. (Ok (dv # dvs), s))
      | (Err _, s) \<Rightarrow> pin_devices e ps os s
      | (Panic, s) \<Rightarrow> (Panic, s))"

definition monitor_round :: "kenv \<Rightarrow> drivers \<Rightarrow> page list \<Rightarrow> kst \<Rightarrow> (unit result \<times> kst) option" where
  "monitor_round e dr dvs s =
     bind_w (Some (for_each (device_poll dr) dvs s)) (\<lambda>_ s.
       bind_w (share_action_scan e s) (\<lambda>_ s. kobject_gc_scan e s))"

definition processor_run :: "kenv \<Rightarrow> kst \<Rightarrow> (run_target result \<times> kst) option" where
  "processor_run e s =
     bind_w (share_action_scan e s) (\<lambda>_ s.
       bind_w (kobject_gc_scan e s) (\<lambda>_ s.
         case processor_sched e s of
           None \<Rightarrow> Some (Ok Run_idle, s)
         | Some ps \<Rightarrow>
             Some (with_ps ps s (\<lambda>P.
               if ps_mode P = ps_mode_mon then
                 bind_r (pin_devices e ps (ps_monitor_obj P) s) (\<lambda>dvs s. (Ok (Run_monitor ps dvs), s))
               else bind_r (at_set_current e (ps_at P) s) (\<lambda>_ s. processor_arch_run ps s)))))"

text \<open>
  A trap saves the registers of the interrupted program unless the kernel was interrupted while
  it accessed user memory.
\<close>

definition save_tf :: "kenv \<Rightarrow> Trapframe \<Rightarrow> kst \<Rightarrow> kst" where
  "save_tf e tf s =
     (case processor_sched e s of
        Some ps \<Rightarrow> if uaccess_enabled e s then s else upd_ps ps (\<lambda>P. P\<lparr>ps_tf := tf\<rparr>) s
      | None \<Rightarrow> s)"

definition trap_handler ::
  "kenv \<Rightarrow> drivers \<Rightarrow> uview \<Rightarrow> machine \<Rightarrow> nat \<Rightarrow> Trapframe \<Rightarrow> u32 \<Rightarrow> u64 \<Rightarrow> kst \<Rightarrow> (run_target option result \<times> kst) option"
where
  "trap_handler e dr u mc trapno tf err cr2 s =
     bind_w (Some (trap_dispatch e dr u mc trapno tf err cr2 (save_tf e tf s))) (\<lambda>x s.
       case x of
         To_run \<Rightarrow> bind_w (processor_run e s) (\<lambda>t s. Some (Ok (Some t), s))
       | _ \<Rightarrow> Some (Ok None, s))"

end
