(* ===== verification/Kernel_Inv.thy ===== *)
theory Kernel_Inv
  imports Trap
begin

text \<open>
  Invariants of the kernel state, proved once for all operations.  A locale lists the state changes
  that the operations are made of; a predicate that is closed under them is kept by every operation
  that the locale covers.  The locales grow with the operations: \<open>obj_laws\<close> for the invalidation of
  mappings and the callbacks of objects, \<open>halt_laws\<close> for halting processors, \<open>gc_laws\<close> for the
  collection of objects, \<open>kernel_laws\<close> for the system calls and traps.
\<close>

subsection \<open>Sequencing\<close>

lemma snd_bind_r:
  "I (snd r) \<Longrightarrow> (\<And>x s. I s \<Longrightarrow> I (snd (f x s))) \<Longrightarrow> I (snd (bind_r r f))"
  by (cases r; cases "fst r") auto

lemma snd_for_each:
  "I s \<Longrightarrow> (\<And>x s. I s \<Longrightarrow> I (snd (f x s))) \<Longrightarrow> I (snd (for_each f xs s))"
  by (induction xs arbitrary: s) (auto intro: snd_bind_r)

lemma snd_with:
  "I s \<Longrightarrow> (\<And>A. ko_body (kobjs s p) = KAddress_tree A \<Longrightarrow> I (snd (f1 A))) \<Longrightarrow> I (snd (with_at p s f1))"
  "I s \<Longrightarrow> (\<And>A. ko_body (kobjs s p) = KSegment A \<Longrightarrow> I (snd (f2 A))) \<Longrightarrow> I (snd (with_sg p s f2))"
  "I s \<Longrightarrow> (\<And>A. ko_body (kobjs s p) = KProcessor A \<Longrightarrow> I (snd (f3 A))) \<Longrightarrow> I (snd (with_ps p s f3))"
  "I s \<Longrightarrow> (\<And>A. ko_body (kobjs s p) = KShare A \<Longrightarrow> I (snd (f4 A))) \<Longrightarrow> I (snd (with_sh p s f4))"
  "I s \<Longrightarrow> (\<And>A. ko_body (kobjs s p) = KDevice A \<Longrightarrow> I (snd (f5 A))) \<Longrightarrow> I (snd (with_dv p s f5))"
  by (auto simp: with_at_def with_sg_def with_ps_def with_sh_def with_dv_def split: kobject_body.splits)

lemma snd_assert_ok [simp]: "snd (assert_ok x) = snd x"
  by (cases x; cases "fst x") (auto simp: assert_ok_def)

lemma snd_case_r:
  assumes "I (snd x)" and "\<And>v s. I s \<Longrightarrow> I (snd (f v s))"
    and "\<And>er s. I s \<Longrightarrow> I (snd (g er s))" and "\<And>s. I s \<Longrightarrow> I (snd (h s))"
  shows "I (snd (case x of (Ok v, s) \<Rightarrow> f v s | (Err er, s) \<Rightarrow> g er s | (Panic, s) \<Rightarrow> h s))"
  using assms by (cases x; cases "fst x") auto

lemma snd_if: "I (snd a) \<Longrightarrow> I (snd b) \<Longrightarrow> I (snd (if c then a else b))"
  by simp

lemma body_upd_hdr [simp]: "ko_body (kobjs (upd_hdr p f s) q) = ko_body (kobjs s q)"
  by (simp add: upd_hdr_def upd_ko_def)

lemma set_aml_alt: "set_aml ko l s = upd_sg ko (\<lambda>g. g\<lparr>sg_map_list := l\<rparr>) (upd_at ko (\<lambda>a. a\<lparr>at_map_list := l\<rparr>) s)"
  by (auto simp: set_aml_def upd_sg_def upd_at_def set_body_def upd_ko_def split: kobject_body.splits)

subsection \<open>Mappings and callbacks\<close>

locale obj_laws =
  fixes I :: "kst \<Rightarrow> bool"
  assumes km: "I s \<Longrightarrow> I (s\<lparr>km := m\<rparr>)"
    and decref: "I s \<Longrightarrow> I (snd (kobject_decref e p s))"
    and at: "I s \<Longrightarrow> I (upd_at p f s)"
    and sg: "I s \<Longrightarrow> I (upd_sg p g s)"
    and ipi: "I s \<Longrightarrow> I (s\<lparr>ipis := i # ipis s\<rparr>)"
begin

lemmas seq = snd_bind_r [of I] snd_for_each [of I] snd_with [of I] snd_if [of I]

lemma on_mem: "I s \<Longrightarrow> I (snd (on_mem f s))"
  by (auto simp: on_mem_def km split: prod.splits)

lemma aml_insert: "I s \<Longrightarrow> I (snd (aml_insert ko am s))"
  by (auto simp: aml_insert_def set_aml_alt at sg split: result.splits)

lemma aml_remove: "I s \<Longrightarrow> I (snd (aml_remove ko am s))"
  by (auto simp: aml_remove_def set_aml_alt at sg split: result.splits)

lemma aml_foreach: "I s \<Longrightarrow> (\<And>x s. I s \<Longrightarrow> I (snd (f x s))) \<Longrightarrow> I (snd (aml_foreach ko f s))"
  by (auto simp: aml_foreach_def split: result.splits intro: seq)

lemma kobj_cache_flush: "I s \<Longrightarrow> I (snd (kobj_cache_flush e a s))"
  unfolding kobj_cache_flush_def by (intro seq) (auto intro: decref at)

lemma at_invalidate_range: "I s \<Longrightarrow> I (snd (at_invalidate_range a f l s))"
  unfolding at_invalidate_range_def by (intro seq) (auto intro: on_mem split: option.splits)

lemma arch_tlbflush_mp: "I s \<Longrightarrow> I (snd (arch_tlbflush_mp e pid s))"
  by (simp add: arch_tlbflush_mp_def arch_ipi_def ipi)

lemma flush_root: "I s \<Longrightarrow> I (snd (flush_root e a s))"
  unfolding flush_root_def by (intro seq) (auto intro: seq arch_tlbflush_mp)

lemma at_tlbflush_others: "I s \<Longrightarrow> I (snd (at_tlbflush_others e a s))"
  unfolding at_tlbflush_others_def at_tlbflush_helper_def Let_def
  by (intro seq aml_foreach) (auto intro!: seq flush_root)

lemma at_invalidate_addrmap: "I s \<Longrightarrow> I (snd (at_invalidate_addrmap e a am s))"
  unfolding at_invalidate_addrmap_def Let_def clear_am_kobj_def
  by (intro seq kobj_cache_flush at_tlbflush_others at_invalidate_range) (auto intro: km)

lemma aml_drop: "I s \<Longrightarrow> I (snd (aml_drop e ko sel am s))"
  unfolding aml_drop_def Let_def by (intro seq aml_remove at_invalidate_addrmap) auto

lemma aml_invalidate: "I s \<Longrightarrow> I (snd (aml_invalidate e ko sh s))"
  unfolding aml_invalidate_def by (intro aml_foreach aml_drop)

lemma aml_scope: "I s \<Longrightarrow> I (snd (aml_scope e ko sh ps s))"
  unfolding aml_scope_def by (intro aml_foreach aml_drop)

lemma at_get_uaddrmap: "I s \<Longrightarrow> I (snd (at_get_uaddrmap e a i s))"
  unfolding at_get_uaddrmap_def elem_ptr_def
  by (intro seq) (auto intro!: seq at km split: prod.splits option.splits)

lemma addrmap_get: "I s \<Longrightarrow> I (snd (addrmap_get e a i s))"
  unfolding addrmap_get_def by (intro seq) (auto intro!: at km split: prod.splits)

lemma elem_ptr: "I (snd x) \<Longrightarrow> I (snd (elem_ptr x))"
  unfolding elem_ptr_def by (intro seq) (auto split: option.splits)

lemma at_get_addrmap: "I s \<Longrightarrow> I (snd (at_get_addrmap e a i s))"
proof -
  assume s: "I s"
  obtain r s1 where x: "addrmap_get e a i s = (r, s1)" by (cases "addrmap_get e a i s")
  then have s1: "I s1" using addrmap_get [OF s, of e a i] by simp
  have grow: "I (snd (with_at a s1 (\<lambda>A.
      let (r, da, m) = darray_grow_nent (ke_numa e) (ROUNDUP (i + 1) N_ADDRMAP_PER_PAGE) (at_addrmap A, km s1) in
      bind_r (r, upd_at a (\<lambda>A. A\<lparr>at_addrmap := da\<rparr>) (s1\<lparr>km := m\<rparr>)) (\<lambda>_ s. elem_ptr (addrmap_get e a i s)))))"
    using s1 by (intro seq) (auto intro!: seq elem_ptr addrmap_get at km split: prod.splits)
  show ?thesis
  proof (cases "r = Err E_INVAL")
    case True
    then show ?thesis using grow x by (simp add: at_get_addrmap_def)
  next
    case False
    then have "at_get_addrmap e a i s = elem_ptr (r, s1)"
      by (simp add: at_get_addrmap_def x split: result.splits jos_error.splits)
    then show ?thesis using elem_ptr [of "(r, s1)"] s1 by simp
  qed
qed

lemma clear_slot: "I s \<Longrightarrow> I (snd (clear_slot e a i s))"
proof -
  assume s: "I s"
  have "I (snd (case at_get_addrmap e a i s of
            (Ok am, s) \<Rightarrow>
              (case am_kobj (ld_am (km s) am) of
                 None \<Rightarrow> (Ok (), s)
               | Some ko \<Rightarrow> bind_r (aml_remove ko am s) (\<lambda>_ s. (Ok (), clear_am_kobj am s)))
          | (Err _, s) \<Rightarrow> (Ok (), s)
          | (Panic, s) \<Rightarrow> (Panic, s)))" if "I s" for s
    using at_get_addrmap [OF that, of e a i]
    by (auto simp: clear_am_kobj_def split: prod.splits result.splits option.splits intro!: seq aml_remove km)
  then show ?thesis
    unfolding clear_slot_def using s at_get_uaddrmap by (intro seq) auto
qed

lemma at_clear_mappings: "I s \<Longrightarrow> I (snd (at_clear_mappings e a s))"
  unfolding at_clear_mappings_def by (intro seq clear_slot)

lemma darray_at:
  "I s \<Longrightarrow> (\<And>s. I s \<Longrightarrow> I (snd (k s))) \<Longrightarrow>
   I (snd (let (r, da, m) = f (at_uaddrmap A, km s) in bind_r (r, upd_at a (\<lambda>A. A\<lparr>at_uaddrmap := da\<rparr>) (s\<lparr>km := m\<rparr>)) (\<lambda>_. k)))"
  by (auto intro!: seq at km split: prod.splits)

lemma at_gc_cb: "I s \<Longrightarrow> I (snd (at_gc_cb e a s))"
  unfolding at_gc_cb_def
  by (intro seq kobj_cache_flush at_clear_mappings)
    (auto intro!: seq at km on_mem split: prod.splits option.splits)

lemma segment_gc_cb: "I s \<Longrightarrow> I (snd (segment_gc_cb e g s))"
  unfolding segment_gc_cb_def by (intro seq) (auto intro!: sg km split: prod.splits)

lemma segment_cbs:
  "I s \<Longrightarrow> I (snd (segment_remove_cb e g sh s))" "I s \<Longrightarrow> I (snd (segment_scope_cb e g sh ps s))"
  by (simp_all add: segment_remove_cb_def segment_scope_cb_def aml_invalidate aml_scope)

lemma scope_cb:
  assumes "I s" and "\<And>p s. I s \<Longrightarrow> I (snd (h p s))"
  shows "I (snd (scope_cb h e ko sh ps s))"
proof -
  have "I (snd (at_scope_cb h e ko sh ps s))"
    unfolding at_scope_cb_def using assms by (intro seq kobj_cache_flush aml_scope) auto
  then show ?thesis
    using assms segment_cbs
    by (simp add: scope_cb_def processor_scope_cb_def share_scope_cb_def device_scope_cb_def split: kobject_type.splits)
qed

lemma share_scope_change:
  assumes "I s" and "\<And>p s. I s \<Longrightarrow> I (snd (h p s))"
  shows "I (snd (share_scope_change h e sh ps s))"
  unfolding share_scope_change_def using assms by (intro seq scope_cb) auto

end

subsection \<open>Halting processors\<close>

locale halt_laws = obj_laws +
  assumes ps: "I s \<Longrightarrow> ko_body (kobjs s p) = KProcessor P \<Longrightarrow> I (set_body p (KProcessor Q) s)"
    and processors: "I s \<Longrightarrow> I (s\<lparr>processors := (processors s)(c := x)\<rparr>)"
    and cr3: "I s \<Longrightarrow> I (s\<lparr>cr3 := y\<rparr>)"
    and timer: "I s \<Longrightarrow> I (s\<lparr>timer_hz := z\<rparr>)"
begin

lemma upd_ps: "I s \<Longrightarrow> I (upd_ps p f s)"
  by (auto simp: upd_ps_def ps split: kobject_body.splits)

lemma at_set_current: "I s \<Longrightarrow> I (snd (at_set_current e a s))"
  by (auto simp: at_set_current_def cr3 split: option.splits intro: seq)

lemma at_detach: "I s \<Longrightarrow> I (snd (at_detach a p s))"
  unfolding at_detach_def by (intro seq) (auto intro!: seq at split: option.splits)

lemma timer_interval_time: "I s \<Longrightarrow> I (snd (timer_interval_time e pid hz s))"
  by (simp add: timer_interval_time_def timer)

lemma sharemap_clear:
  assumes "I s" and "\<And>p s. I s \<Longrightarrow> I (snd (h p s))"
  shows "I (snd (sharemap_clear h e p s))"
proof -
  have body: "ko_body (kobjs (set_body p (KProcessor Q) s) p) = KProcessor Q" for Q s
    by (simp add: set_body_def upd_ko_def)
  have "I (snd (let (r, mp, m) = map_free nm (sm_map (ps_sharemap P), km s) in
      bind_r (r, set_sharemap p P mp (s\<lparr>km := m\<rparr>)) (\<lambda>_ s. (Ok (), set_sharemap p P (map_init (map_pid mp)) s))))"
    if "I s" "ko_body (kobjs s p) = KProcessor P" for s nm P
  proof -
    obtain r mp m where f: "map_free nm (sm_map (ps_sharemap P), km s) = (r, mp, m)" by (cases "map_free nm (sm_map (ps_sharemap P), km s)")
    have i1: "I (set_sharemap p P mp (s\<lparr>km := m\<rparr>))"
      unfolding set_sharemap_def using that by (intro ps [OF km]) auto
    then have "I (set_sharemap p P (map_init (map_pid mp)) (set_sharemap p P mp (s\<lparr>km := m\<rparr>)))"
      unfolding set_sharemap_def by (rule ps [OF _ body])
    with i1 f show ?thesis by (cases r) auto
  qed
  then show ?thesis
    unfolding sharemap_clear_def using assms by (intro seq share_scope_change decref) auto
qed

lemma processor_halt: "I s \<Longrightarrow> I (snd (processor_halt d e p s))"
proof (induction d arbitrary: p s)
  case (Suc d)
  have "I (snd (sharemap_clear (processor_halt d e) e p s))" if "I s" for s
    by (rule sharemap_clear [OF that]) (rule Suc.IH)
  moreover have "I (snd (arch_halt_mp e pid s))" if "I s" for pid s
    using that by (simp add: arch_halt_mp_def arch_ipi_def ipi)
  ultimately show ?case
    unfolding processor_halt.simps using Suc.prems
    by (intro seq at_set_current at_detach timer_interval_time upd_ps) (auto intro: upd_ps processors)
qed simp

lemma halt: "I s \<Longrightarrow> I (snd (halt e p s))"
  by (simp add: halt_def processor_halt)

lemma sharemap_remove: "I s \<Longrightarrow> I (snd (sharemap_remove (halt e) e p i s))"
proof -
  assume s: "I s"
  have get: "snd (sharemap_get e p i s) = s"
    by (simp add: sharemap_get_def with_ps_def split: kobject_body.splits)
  have "I (snd (with_ps p s (\<lambda>P.
         let (r, mp, m) = map_erase (ke_numa e) i (sm_map (ps_sharemap P), km s) in
         bind_r (assert_ok (r, set_sharemap p P mp (s\<lparr>km := m\<rparr>))) (\<lambda>_ s.
           bind_r (share_scope_change (halt e) e sh (sm_owner (ps_sharemap P)) s) (\<lambda>_. kobject_decref e sh)))))"
    if "I s" for s sh
    using that
    by (intro seq) (auto simp: set_sharemap_def intro!: seq share_scope_change halt decref ps [OF km] split: prod.splits)
  then show ?thesis
    unfolding sharemap_remove_def using s get by (intro snd_bind_r [of I]) auto
qed

lemma remove_cb: "I s \<Longrightarrow> I (snd (remove_cb e ko sh s))"
proof -
  assume s: "I s"
  then have "I (snd (at_remove_cb (halt e) e ko sh s))"
    unfolding at_remove_cb_def by (intro seq kobj_cache_flush aml_invalidate halt) auto
  then show ?thesis
    using s segment_cbs
    by (simp add: remove_cb_def processor_remove_cb_def share_remove_cb_def device_remove_cb_def split: kobject_type.splits)
qed

end

subsection \<open>Collecting objects\<close>

locale gc_laws = halt_laws +
  assumes sh: "I s \<Longrightarrow> ko_body (kobjs s p) = KShare S \<Longrightarrow> I (set_body p (KShare T) s)"
    and gc_pop: "I s \<Longrightarrow> ko_gc_list s c = k # l \<Longrightarrow> I (s\<lparr>ko_gc_list := (ko_gc_list s)(c := l)\<rparr>)"
    and processor_free: "I s \<Longrightarrow> I (s\<lparr>processor_free := u\<rparr>)"
begin

lemma free_pool: "I s \<Longrightarrow> I (snd (free_pool e p i s))"
  unfolding free_pool_def set_pool_def by (intro seq) (auto intro!: sh [OF km] split: prod.splits)

lemma share_gc_cb: "I s \<Longrightarrow> I (snd (share_gc_cb e p s))"
proof -
  assume s: "I s"
  have fin: "I (snd (with_sh p s (\<lambda>S.
           let (r, mp, m) = map_free (ke_numa e) (sh_kobject_map S, km s) in
           bind_r (r, set_body p (KShare (S\<lparr>sh_kobject_map := mp\<rparr>)) (s\<lparr>km := m\<rparr>)) (\<lambda>_ s.
             for_each (free_pool e p) [0..<JOS_NCPU] s))))" if "I s" for s
    using that by (intro seq) (auto intro!: seq free_pool sh [OF km] split: prod.splits)
  have step: "I (snd (if si_co (sh_infos s sb) \<noteq> 0 then (Panic, s)
      else bind_r (remove_cb e (si_ko (sh_infos s sb)) (ko_id (hdr s p)) s) (\<lambda>_ s.
        kobject_decref e (si_ko (sh_infos s sb)) s)))" if "I s" for s sb
    using that by (intro seq remove_cb decref) auto
  show ?thesis
    unfolding share_gc_cb_def share_remove_kobj_def
    by (rule snd_with(4) [of I, OF s], rule snd_bind_r [of I], rule snd_for_each [of I, OF s], erule step, erule fin)
qed

lemma free_processor: "I s \<Longrightarrow> I (snd (free_processor pid s))"
  by (simp add: free_processor_def processor_free)

lemma sharemap_free: "I s \<Longrightarrow> I (snd (sharemap_free e p s))"
  unfolding sharemap_free_def set_sharemap_def by (intro seq) (auto intro!: ps [OF km] split: prod.splits)

lemma processor_gc_cb:
  assumes s: "I s" and r: "processor_gc_cb e p s = Some y"
  shows "I (snd y)"
proof -
  obtain rx s1 where x: "with_ps p s (\<lambda>P. if ps_running P then bind_r (halt e p s) (\<lambda>_ s. (Ok (), s)) else (Ok (), s)) = (rx, s1)"
    by fastforce
  have "I (snd (with_ps p s (\<lambda>P. if ps_running P then bind_r (halt e p s) (\<lambda>_ s. (Ok (), s)) else (Ok (), s))))"
    using s by (intro seq halt) auto
  then have s1: "I s1" using x by simp
  have fin: "I (snd (bind_r (sharemap_free e p s1) (\<lambda>_ s. free_processor pid s)))" for pid
    using s1 by (intro seq sharemap_free free_processor)
  have run: "processor_gc_cb e p s =
      (case rx of
         Ok _ \<Rightarrow>
           (case ko_body (kobjs s1 p) of
              KProcessor P \<Rightarrow>
                if ps_running P then None
                else Some (bind_r (sharemap_free e p s1) (\<lambda>_ s. free_processor (ps_pid P) s))
            | _ \<Rightarrow> Some (Panic, s1))
       | _ \<Rightarrow> Some (rx, s1))"
    unfolding processor_gc_cb_def x by (simp split: result.split)
  show ?thesis
  proof (cases "\<exists>a P. rx = Ok a \<and> ko_body (kobjs s1 p) = KProcessor P")
    case True
    then show ?thesis using r run fin by (auto split: if_splits)
  next
    case False
    then have "snd y = s1" using r run by (cases rx; cases "ko_body (kobjs s1 p)") auto
    then show ?thesis using s1 by simp
  qed
qed

lemma gc_cb: "I s \<Longrightarrow> gc_cb e ko s = Some (r, s') \<Longrightarrow> I s'"
proof -
  assume s: "I s" and g: "gc_cb e ko s = Some (r, s')"
  show ?thesis
  proof (cases "ko_type (hdr s ko)")
    case kobj_segment
    then show ?thesis using g segment_gc_cb [OF s, of e ko] by (simp add: gc_cb_def)
  next
    case kobj_address_tree
    then show ?thesis using g at_gc_cb [OF s, of e ko] by (simp add: gc_cb_def)
  next
    case kobj_processor
    then show ?thesis using g processor_gc_cb [OF s, of e ko] by (simp add: gc_cb_def)
  next
    case kobj_share
    then show ?thesis using g share_gc_cb [OF s, of e ko] by (simp add: gc_cb_def)
  qed (use g s in \<open>simp_all add: gc_cb_def device_gc_cb_def\<close>)
qed

lemma kobject_free: "I s \<Longrightarrow> I (snd (kobject_free e ko s))"
  by (simp add: kobject_free_def on_mem)

lemma gc_scan_body:
  assumes rec: "\<And>s y. scan s = Some y \<Longrightarrow> I s \<longrightarrow> I (snd y)" and s: "I s"
    and run: "(case ko_gc_list s (arch_cpu e) of
        [] \<Rightarrow> Some (Ok (), s)
      | ko # l \<Rightarrow>
          (let s = s\<lparr>ko_gc_list := (ko_gc_list s)(arch_cpu e := l)\<rparr> in
           if kobject_getref ko s \<noteq> 0 then scan s
           else Option.bind (gc_cb e ko s) (\<lambda>(r, s).
             case r of
               Ok _ \<Rightarrow> (case kobject_free e ko s of (Ok _, s) \<Rightarrow> scan s | (r, s) \<Rightarrow> Some (Panic, s))
             | _ \<Rightarrow> Some (Panic, s)))) = Some y"
  shows "I (snd y)"
proof (cases "ko_gc_list s (arch_cpu e)")
  case Nil
  then show ?thesis using run s by auto
next
  case (Cons ko l)
  let ?s = "s\<lparr>ko_gc_list := (ko_gc_list s)(arch_cpu e := l)\<rparr>"
  have i: "I ?s" using gc_pop [OF s Cons] .
  show ?thesis
  proof (cases "kobject_getref ko ?s = 0")
    case False
    then show ?thesis using run Cons i rec by (auto simp: Let_def)
  next
    case True
    with run Cons obtain r1 s1 where g: "gc_cb e ko ?s = Some (r1, s1)"
      and x: "(case r1 of
             Ok _ \<Rightarrow> (case kobject_free e ko s1 of (Ok _, s) \<Rightarrow> scan s | (r, s) \<Rightarrow> Some (Panic, s))
           | _ \<Rightarrow> Some (Panic, s1)) = Some y"
      by (auto simp: Let_def bind_eq_Some_conv)
    have s1: "I s1" using gc_cb [OF i g] .
    obtain r2 s2 where f: "kobject_free e ko s1 = (r2, s2)" by (cases "kobject_free e ko s1")
    have s2: "I s2" using kobject_free [OF s1, of e ko] f by simp
    show ?thesis using x f s1 s2 rec by (cases r1; cases r2) auto
  qed
qed

lemma kobject_gc_scan:
  assumes "kobject_gc_scan e s = Some y"
  shows "I s \<longrightarrow> I (snd y)"
  using assms
proof (rule kobject_gc_scan.raw_induct [where P = "\<lambda>e s y. I s \<longrightarrow> I (snd y)", rotated])
  fix scan e s y
  assume rec: "\<And>e s y. scan e s = Some y \<Longrightarrow> I s \<longrightarrow> I (snd y)"
    and run: "(case ko_gc_list s (arch_cpu e) of
        [] \<Rightarrow> Some (Ok (), s)
      | ko # l \<Rightarrow>
          (let s = s\<lparr>ko_gc_list := (ko_gc_list s)(arch_cpu e := l)\<rparr> in
           if kobject_getref ko s \<noteq> 0 then scan e s
           else Option.bind (gc_cb e ko s) (\<lambda>(r, s).
             case r of
               Ok _ \<Rightarrow> (case kobject_free e ko s of (Ok _, s) \<Rightarrow> scan e s | (r, s) \<Rightarrow> Some (Panic, s))
             | _ \<Rightarrow> Some (Panic, s)))) = Some y"
  show "I s \<longrightarrow> I (snd y)"
  proof
    assume "I s"
    show "I (snd y)" by (rule gc_scan_body [OF rec \<open>I s\<close> run])
  qed
qed

end

end
