(* ===== verification/Kernel_Calls.thy ===== *)
theory Kernel_Calls
  imports Kernel_Inv
begin

subsection \<open>Operations on objects\<close>

primrec body_type :: "kobject_body \<Rightarrow> kobject_type" where
  "body_type (KSegment _) = kobj_segment"
| "body_type (KAddress_tree _) = kobj_address_tree"
| "body_type (KProcessor _) = kobj_processor"
| "body_type (KShare _) = kobj_share"
| "body_type (KDevice _) = kobj_device"

text \<open>The same for an operation that may wait: what holds of the state it returns with.\<close>

definition post_w :: "(kst \<Rightarrow> bool) \<Rightarrow> ('a result \<times> kst) option \<Rightarrow> bool" where
  [simp]: "post_w P x \<longleftrightarrow> (\<forall>y. x = Some y \<longrightarrow> P (snd y))"

lemma post_w_None: "post_w P None"
  by simp

lemma post_someI: "P (snd x) \<Longrightarrow> post_w P (Some x)"
  by simp

lemma post_bind_w:
  assumes "post_w P x" and "\<And>a s. P s \<Longrightarrow> post_w P (f a s)"
  shows "post_w P (bind_w x f)"
  using assms by (fastforce simp: bind_w_def split: option.splits prod.splits result.splits)

locale core_laws = gc_laws +
  assumes incref: "I s \<Longrightarrow> I (kobject_incref p s)"
    and set_name: "I s \<Longrightarrow> I (kobject_set_name p n s)"
    and alloc: "I s \<Longrightarrow> body_type b = t \<Longrightarrow> I (snd (kobject_alloc e t b pid s))"
    and infos: "I s \<Longrightarrow> I (s\<lparr>sh_infos := v\<rparr>)"
    and ci_list: "I s \<Longrightarrow> I (s\<lparr>sh_ci_list := cl\<rparr>)"
    and rm_list: "I s \<Longrightarrow> I (s\<lparr>sh_rm_list := cl\<rparr>)"
    and devices: "I s \<Longrightarrow> I (s\<lparr>devices := ds\<rparr>)"
    and ustores: "I s \<Longrightarrow> I (s\<lparr>ustores := us\<rparr>)"
    and cons_log: "I s \<Longrightarrow> I (s\<lparr>cons_log := lg\<rparr>)"
    and cons_bufs: "I s \<Longrightarrow> I (s\<lparr>cons_bufs := bf\<rparr>)"
begin

lemma upd_info: "I s \<Longrightarrow> I (upd_info a h s)"
  by (simp add: upd_info_def infos)

lemma share_blob_free: "I s \<Longrightarrow> I (snd (share_blob_free e p b s))"
  unfolding share_blob_free_def set_pool_def Let_def by (intro seq) (auto intro: sh)

lemma share_blob_alloc: "I s \<Longrightarrow> I (snd (share_blob_alloc e p s))"
proof -
  assume s: "I s"
  have body: "ko_body (kobjs (set_body p (KShare T) s) p) = KShare T" for T s by (simp add: set_body_def upd_ko_def)
  have bodym: "ko_body (kobjs (s\<lparr>km := m\<rparr>) p) = ko_body (kobjs s p)" for s m by simp
  have slow: "I (snd (let (r, pt, m) = pagetree_put_page nm n (Some b) (tr, km s);
                 pool = pool\<lparr>sp_pt := pt\<rparr>;
                 s = set_pool p S cpu pool (s\<lparr>km := m\<rparr>)
             in case r of
                  Ok _ \<Rightarrow>
                    (Ok (hd (page_blobs b)),
                     set_pool p S cpu (pool\<lparr>sp_free := tl (page_blobs b), sp_npages := sp_npages pool + 1\<rparr>)
                       (s\<lparr>km := page_zero b (km s)\<rparr>))
                | Err er \<Rightarrow> bind_r (on_mem (page_free nm b 0) s) (\<lambda>_ s. (Err er, s))
                | Panic \<Rightarrow> (Panic, s)))"
    if i: "I s" and S: "ko_body (kobjs s p) = KShare S" for s S nm n b tr pool cpu
  proof -
    obtain r pt m where f: "pagetree_put_page nm n (Some b) (tr, km s) = (r, pt, m)"
      by (cases "pagetree_put_page nm n (Some b) (tr, km s)")
    have i1: "I (set_pool p S cpu pl (s\<lparr>km := m\<rparr>))" for pl
      unfolding set_pool_def using i S by (intro sh [OF km]) auto
    have i2: "I (set_pool p S cpu pl' ((set_pool p S cpu pl (s\<lparr>km := m\<rparr>))\<lparr>km := m'\<rparr>))" for pl pl' m'
      unfolding set_pool_def
      by (rule sh [OF km [OF i1 [unfolded set_pool_def]]]) (simp add: set_body_def upd_ko_def)
    show ?thesis using f i1 i2 by (cases r) (auto simp: Let_def intro!: seq on_mem)
  qed
  have keep: "ko_body (kobjs (snd (on_mem h s)) p) = ko_body (kobjs s p)" for h :: "physmem \<Rightarrow> page result \<times> physmem"
    by (simp add: on_mem_def split: prod.splits)
  show ?thesis
  proof (cases "ko_body (kobjs s p)")
    case (KShare S)
    obtain r s1 where a: "on_mem (page_alloc (ke_numa e) (ko_pid (hdr s p))) s = (r, s1)" by fastforce
    have s1: "I s1" "ko_body (kobjs s1 p) = KShare S"
      using on_mem [OF s, of "page_alloc (ke_numa e) (ko_pid (hdr s p))"] keep [of "page_alloc (ke_numa e) (ko_pid (hdr s p))"] a KShare
      by simp_all
    show ?thesis
    proof (cases "sp_free (sh_blob S (arch_cpu e))")
      case Nil
      then show ?thesis
        using slow [OF s1] s1 by (cases r) (simp_all add: share_blob_alloc_def with_sh_def KShare Let_def a)
    next
      case (Cons b bs)
      then show ?thesis
        using s KShare by (simp add: share_blob_alloc_def with_sh_def Let_def set_pool_def sh)
    qed
  qed (use s in \<open>simp_all add: share_blob_alloc_def with_sh_def\<close>)
qed

lemma share_action_ci: "I s \<Longrightarrow> I (snd (share_action_ci si s))"
  by (simp add: share_action_ci_def upd_info)

lemma scan_ci: "I s \<Longrightarrow> I (snd (scan_ci e l s))"
  by (induction l arbitrary: s) (auto intro!: seq share_action_ci share_blob_free ci_list)

lemma share_action_dec: "I s \<Longrightarrow> post_w I (share_action_dec e p si s)"
  unfolding share_action_dec_def
  by (cases "si_co (sh_infos s si) = 0") (auto intro!: post_someI seq decref share_blob_free simp del: post_w_def simp: post_w_None)

lemma scan_rm: "I s \<Longrightarrow> post_w I (scan_rm e l s)"
  by (induction l arbitrary: s)
    (auto intro!: post_bind_w post_someI share_action_dec share_blob_free rm_list simp del: post_w_def)

lemma share_action_scan: "I s \<Longrightarrow> post_w I (share_action_scan e s)"
  unfolding share_action_scan_def
  by (intro post_bind_w scan_rm post_someI scan_ci) auto

lemma share_get [simp]: "snd (share_get e p i s) = s"
  by (simp add: share_get_def with_sh_def split: kobject_body.splits)

lemma share_put: "I s \<Longrightarrow> I (snd (share_put e p i v s))"
  unfolding share_put_def by (intro seq) (auto intro!: sh [OF km] split: prod.splits)

lemma share_erase: "I s \<Longrightarrow> I (snd (share_erase e p i s))"
  unfolding share_erase_def by (intro seq) (auto intro!: sh [OF km] split: prod.splits)

lemma share_import_obj: "I s \<Longrightarrow> I (snd (share_import_obj e p ko s))"
  unfolding share_import_obj_def Let_def
  by (intro seq snd_case_r [of I] share_blob_alloc share_blob_free share_put upd_info) (auto intro: upd_info incref)

lemma share_co_obj: "I s \<Longrightarrow> I (snd (share_co_obj e p i t s))"
  unfolding share_co_obj_def Let_def by (intro seq share_blob_alloc) (auto intro: upd_info ci_list)

lemma share_remove_obj: "I s \<Longrightarrow> I (snd (share_remove_obj e p i s))"
  unfolding share_remove_obj_def Let_def
  by (intro seq share_blob_alloc) (auto intro: upd_info rm_list share_erase)

lemma sharemap_add: "I s \<Longrightarrow> I (snd (sharemap_add e p q s))"
  unfolding sharemap_add_def set_sharemap_def
  by (intro seq) (auto intro!: seq incref ps [OF km] split: prod.splits)

lemma sharemap_get [simp]: "snd (sharemap_get e p i s) = s"
  by (simp add: sharemap_get_def with_ps_def split: kobject_body.splits)

lemma sharemap_co_obj: "I s \<Longrightarrow> I (snd (sharemap_co_obj e p i t s))"
  unfolding sharemap_co_obj_def by (intro seq share_co_obj) auto

subsubsection \<open>Page faults and address trees\<close>

lemma kobj_get: "I s \<Longrightarrow> I (snd (kobj_get e a ref t s))"
  unfolding kobj_get_def Let_def
  by (cases "processor_sched e s") (auto intro!: seq sharemap_co_obj decref incref at)

lemma link_am: "I s \<Longrightarrow> I (snd (link_am e a uam ko am s))"
  by (auto simp: link_am_def intro: aml_insert km split: option.splits)

lemma segment_get_page: "I s \<Longrightarrow> I (snd (segment_get_page e p n md s))"
  unfolding segment_get_page_def by (intro seq) (auto intro!: seq sg km split: prod.splits)

lemma fill_segment: "I s \<Longrightarrow> I (snd (fill_segment e a uam va s))"
  unfolding fill_segment_def Let_def
  by (intro seq kobj_get at_get_addrmap)
    (auto intro!: seq link_am segment_get_page km on_mem split: result.splits option.splits)

lemma put_interior: "I s \<Longrightarrow> I (snd (put_interior e a va i s))"
  unfolding put_interior_def by (intro seq) (auto intro: on_mem split: option.splits)

lemma fill_interior: 
  assumes fill: "\<And>x y s. I s \<Longrightarrow> I (snd (fill x y s))" and s: "I s"
  shows "I (snd (fill_interior fill e a uam va s))"
  unfolding fill_interior_def Let_def
  by (intro seq kobj_get at_get_addrmap link_am put_interior fill s) (auto intro: link_am s)

lemma at_pmap_fill_mapping:
  assumes fill: "\<And>x y s. I s \<Longrightarrow> I (snd (fill x y s))" and s: "I s"
  shows "I (snd (at_pmap_fill_mapping fill e a uam va s))"
  unfolding at_pmap_fill_mapping_def by (intro seq fill_interior fill_segment fill s)

lemma fill_scan:
  assumes fill: "\<And>x y s. I s \<Longrightarrow> I (snd (fill x y s))" and s: "I s"
  shows "I (snd (fill_scan fill e a va rf l s))"
  using s
proof (induction l arbitrary: s)
  case (Cons i l)
  have m: "I s \<Longrightarrow> I (snd (at_pmap_fill_mapping fill e a uam va' (upd_at a h s)))" for uam va' h s
    by (intro at_pmap_fill_mapping fill at)
  show ?case
    unfolding fill_scan.simps Let_def
    by (rule snd_bind_r [of I, OF at_get_uaddrmap [OF Cons.prems]]) (simp add: Cons.IH m split: prod.split)
qed simp

lemma at_pmap_fill: "I s \<Longrightarrow> I (snd (at_pmap_fill d e a va rf s))"
proof (induction d arbitrary: a va s)
  case (Suc d)
  show ?case
    unfolding at_pmap_fill.simps Let_def
    by (rule snd_with(1) [of I, OF Suc.prems])
      (auto intro!: at_pmap_fill_mapping fill_scan Suc split: option.splits)
qed simp

lemma at_pagefault: "I s \<Longrightarrow> I (snd (at_pagefault e a va rf s))"
  unfolding at_pagefault_def by (intro snd_case_r [of I] seq at_pmap_fill kobj_cache_flush) auto

lemma check_pages: "I s \<Longrightarrow> I (snd (check_pages e a rf va n s))"
  by (induction n arbitrary: va s)
    (auto simp: Let_def intro!: seq at_pagefault on_mem split: option.splits prod.splits)

lemma check_user_access: "I s \<Longrightarrow> I (snd (check_user_access e a p n rf s))"
  by (simp add: check_user_access_def Let_def check_pages)

lemma at_attach: "I s \<Longrightarrow> I (snd (at_attach a p s))"
  unfolding at_attach_def by (intro seq) (auto intro: at)

lemma at_check_uat: "I s \<Longrightarrow> I (snd (at_check_uat e a p uat s))"
  unfolding at_check_uat_def Let_def
  by (intro seq check_user_access) (auto intro!: seq check_user_access split: option.splits prod.splits)

lemma current_at: "I s \<Longrightarrow> (\<And>a. I (snd (f a))) \<Longrightarrow> I (snd (current_at e s f))"
  unfolding current_at_def by (auto intro!: seq split: option.splits)

lemma ustore: "I s \<Longrightarrow> I (ustore a ws s)"
  by (simp add: ustore_def ustores)

lemma to_user_loop: "I s \<Longrightarrow> I (snd (to_user_loop e a uat l n s))"
  by (induction l arbitrary: n s) (auto simp: Let_def intro!: seq at_get_uaddrmap ustore)

lemma at_to_user: "I s \<Longrightarrow> I (snd (at_to_user e a p uat s))"
  unfolding at_to_user_def by (intro current_at seq at_check_uat to_user_loop) (auto intro: ustore)

lemma write_back: "I s \<Longrightarrow> I (write_back p u i s)"
  by (simp add: write_back_def ustore)

lemma from_user_loop: "I s \<Longrightarrow> I (snd (from_user_loop e a ents uat l s))"
proof (induction l arbitrary: s)
  case (Cons i l)
  show ?case
    unfolding from_user_loop.simps Let_def
    by (rule snd_bind_r [of I, OF at_get_uaddrmap [OF Cons.prems]]) (simp add: Cons.IH km write_back split: option.split)
qed simp

lemma at_resize: "I s \<Longrightarrow> I (snd (at_resize e a n s))"
  unfolding at_resize_def by (intro seq) (auto intro!: at km split: prod.splits)

lemma at_invalidate: "I s \<Longrightarrow> I (snd (at_invalidate e a p s))"
  unfolding at_invalidate_def by (intro seq at_invalidate_range) auto

lemma at_invalidate_uaddrmap: "I s \<Longrightarrow> I (snd (at_invalidate_uaddrmap e a k s))"
  unfolding at_invalidate_uaddrmap_def
  by (intro seq) (auto intro!: seq at_get_addrmap aml_remove at_invalidate_addrmap split: option.splits)

lemma at_from_user: "I s \<Longrightarrow> I (snd (at_from_user e a p uat ents s))"
  unfolding at_from_user_def Let_def
  by (intro current_at seq snd_case_r [of I] at_check_uat at_resize at_clear_mappings from_user_loop at_invalidate)
    (auto intro: at at_resize)

lemma at_alloc: "I s \<Longrightarrow> I (snd (at_alloc e i pid s))"
  unfolding at_alloc_def Let_def
  by (intro seq alloc on_mem) (auto intro!: at km split: result.splits)

end

end
