(* ===== verification/Kernel_Syscalls.thy ===== *)
theory Kernel_Syscalls
  imports Kernel_Calls
begin

subsection \<open>System calls\<close>

text \<open>A guarded access leaves the guard as it found it.\<close>

lemma uaccess_bracket: "\<not> uaccess s c \<Longrightarrow> s\<lparr>uaccess := (uaccess s)(c := False)\<rparr> = s"
  by (simp add: fun_upd_idem)

lemma snd_copy_user [simp]: "snd (copy_user e v s) = s"
  by (auto simp: copy_user_def uaccess_start_def uaccess_stop_def uaccess_error_def uaccess_bracket split: option.splits)

lemma snd_guarded:
  assumes "\<And>U. F (s\<lparr>uaccess := U\<rparr>) = (F s)\<lparr>uaccess := U\<rparr>" and "uaccess (F s) = uaccess s"
  shows "snd (bind_r (uaccess_start e s) (\<lambda>_ s.
      if c then bind_r (uaccess_stop e (F s)) (\<lambda>_ s. (Ok v, s)) else uaccess_error e s)) \<in> {s, F s}"
  using uaccess_bracket [of s "arch_cpu e"] uaccess_bracket [of "F s" "arch_cpu e"] assms
  by (auto simp: uaccess_start_def uaccess_stop_def uaccess_error_def)

lemma snd_put_user: "snd (put_user e u a ws s) \<in> {s, ustore a ws s}"
  using uaccess_bracket [of s "arch_cpu e"] uaccess_bracket [of "ustore a ws s" "arch_cpu e"]
  by (auto simp: put_user_def uaccess_start_def uaccess_stop_def uaccess_error_def ustore_def)

lemma cons_putc_uaccess: "cons_putc e c src (s\<lparr>uaccess := U\<rparr>) = (cons_putc e c src s)\<lparr>uaccess := U\<rparr>"
  by (simp add: cons_putc_def cons_flush_outbuf_def Let_def)

lemma kobject_alloc_body: "kobject_alloc e t b pid s = (Ok ko, s') \<Longrightarrow> ko_body (kobjs s' ko) = b"
  by (auto simp: kobject_alloc_def id_alloc_def on_mem_def kobject_gc_collect_def Let_def upd_ko_def bind_r_def
    split: prod.splits result.splits if_splits)

lemma ustore_uaccess [simp]:
  "ustore a w (s\<lparr>uaccess := U\<rparr>) = (ustore a w s)\<lparr>uaccess := U\<rparr>" "uaccess (ustore a w s) = uaccess s"
  by (simp_all add: ustore_def)

lemma fold_ustore_uaccess [simp]:
  "fold (\<lambda>j. ustore (a j) (w j)) js (s\<lparr>uaccess := U\<rparr>) = (fold (\<lambda>j. ustore (a j) (w j)) js s)\<lparr>uaccess := U\<rparr>"
  "uaccess (fold (\<lambda>j. ustore (a j) (w j)) js s) = uaccess s"
  by (induction js arbitrary: s) auto

text \<open>What is asked of the drivers and of the rest of the machine.\<close>

definition drivers_keep :: "(kst \<Rightarrow> bool) \<Rightarrow> drivers \<Rightarrow> bool" where
  "drivers_keep P dr \<longleftrightarrow>
     (\<forall>n s. P s \<longrightarrow> P (snd (dr_stat dr n s))) \<and>
     (\<forall>n c s. P s \<longrightarrow> P (snd (dr_conf dr n c s))) \<and>
     (\<forall>n q i kp t s. P s \<longrightarrow> P (snd (dr_feed dr n q i kp t s))) \<and>
     (\<forall>n s. P s \<longrightarrow> P (snd (dr_poll dr n s))) \<and>
     (\<forall>n p s. P s \<longrightarrow> P (snd (dr_irq dr n p s)))"

definition machine_keeps :: "(kst \<Rightarrow> bool) \<Rightarrow> machine \<Rightarrow> bool" where
  "machine_keeps P mc \<longleftrightarrow>
     (\<forall>op l s. P s \<longrightarrow> P (snd (mc_debug mc op l s))) \<and> (\<forall>l s. P s \<longrightarrow> P (snd (mc_reinit mc l s)))"

context core_laws begin

lemma segment_alloc: "I s \<Longrightarrow> I (snd (segment_alloc e pid s))"
  by (auto simp: segment_alloc_def intro!: alloc split: result.splits)

lemma segment_invalidate: "I s \<Longrightarrow> I (snd (segment_invalidate e p s))"
  unfolding segment_invalidate_def by (rule segment_cbs)

lemma segment_set_nbytes: "I s \<Longrightarrow> I (snd (segment_set_nbytes e p n s))"
  unfolding segment_set_nbytes_def Let_def
  by (intro seq) (auto intro!: seq segment_invalidate sg km split: prod.splits)

lemma segment_copy: "I s \<Longrightarrow> I (snd (segment_copy e p md pid s))"
  unfolding segment_copy_def
  by (cases md) (auto intro!: seq segment_alloc segment_invalidate sg km split: prod.splits)

lemma alloc_processor: "I s \<Longrightarrow> I (snd (alloc_processor e pid s))"
  by (simp add: alloc_processor_def processor_free)

lemma processor_alloc: "I s \<Longrightarrow> I (snd (processor_alloc e pid s))"
proof -
  assume s: "I s"
  have "I (snd (case kobject_alloc e kobj_processor (KProcessor (new_processor pid 0)) pid s of
         (Ok ko, s) \<Rightarrow> (Ok ko, set_body ko (KProcessor (new_processor pid ko)) s)
       | (Err er, s) \<Rightarrow> bind_r (free_processor pid s) (\<lambda>_ s. (Err er, s))
       | (Panic, s) \<Rightarrow> (Panic, s)))" if "I s" for s
    using alloc [OF that, of "KProcessor (new_processor pid 0)" kobj_processor e pid]
    by (auto split: prod.splits result.splits intro!: seq free_processor ps dest: kobject_alloc_body)
  then show ?thesis unfolding processor_alloc_def by (intro seq alloc_processor s)
qed

lemmas processor_calls = processor_add_share_def processor_remove_share_def processor_get_share_def
  processor_import_obj_def processor_co_obj_def processor_remove_obj_def

lemma processor_import_obj: "I s \<Longrightarrow> I (snd (processor_import_obj e p i ko s))"
  unfolding processor_calls by (intro seq share_import_obj) auto

lemma processor_co_obj: "I s \<Longrightarrow> I (snd (processor_co_obj e p i t s))"
  unfolding processor_calls by (rule sharemap_co_obj)

lemma processor_remove_obj: "I s \<Longrightarrow> I (snd (processor_remove_obj e p i s))"
  unfolding processor_calls by (intro seq share_remove_obj) auto

lemma processor_set_device: "I s \<Longrightarrow> I (snd (processor_set_device p i r s))"
  unfolding processor_set_device_def by (intro seq) (auto intro: upd_ps)

lemma processor_enable_fp: "I s \<Longrightarrow> I (snd (processor_enable_fp p s))"
  unfolding processor_enable_fp_def by (intro seq) (auto intro: upd_ps)

lemma processor_set_interval: "I s \<Longrightarrow> I (snd (processor_set_interval e p hz s))"
  unfolding processor_set_interval_def Let_def by (intro seq) (auto intro: upd_ps timer_interval_time)

lemma processor_pagefault: "I s \<Longrightarrow> I (snd (processor_pagefault e p va rf s))"
  unfolding processor_pagefault_def by (intro seq) (auto intro: at_pagefault split: option.splits)

lemma processor_arch_vector: "I s \<Longrightarrow> I (snd (processor_arch_vector p uc s))"
  by (simp add: processor_arch_vector_def upd_ps)

lemma vector_shares: "I s \<Longrightarrow> I (snd (vector_shares e c p refs s))"
  unfolding vector_shares_def processor_add_share_def by (intro seq processor_co_obj sharemap_add)

lemma processor_vector: "I s \<Longrightarrow> I (snd (processor_vector e p uc s))"
  unfolding processor_vector_def Let_def
  by (intro seq processor_co_obj processor_arch_vector at_attach)
    (auto intro: vector_shares processors upd_ps split: list.splits option.splits)

lemma upd_device: "I s \<Longrightarrow> I (upd_device i h s)"
  by (simp add: upd_device_def devices)

lemma device_alloc: "I s \<Longrightarrow> I (snd (device_alloc e did pid s))"
  unfolding device_alloc_def Let_def
  by (intro seq) (auto intro!: alloc upd_device split: option.splits)

lemma device_buf:
  assumes feed: "\<And>n q i kp t s. I s \<Longrightarrow> I (snd (dr_feed dr n q i kp t s))" and s: "I s"
  shows "I (snd (device_buf e dr p q off ty s))"
  unfolding device_buf_def
  by (intro seq segment_get_page s) (auto intro!: seq feed split: option.splits)

lemma cons_putc: "I s \<Longrightarrow> I (cons_putc e c src s)"
  by (auto simp: cons_putc_def cons_flush_outbuf_def Let_def intro!: cons_log cons_bufs)

lemma put_user: "I s \<Longrightarrow> I (snd (put_user e u a ws s))"
  using snd_put_user [of e u a ws s] ustore by auto

lemma puts_loop: "I (s\<lparr>uaccess := (uaccess s)(arch_cpu e := False)\<rparr>) \<Longrightarrow> uaccess s (arch_cpu e) \<Longrightarrow> I (snd (puts_loop e u p n s))"
proof (induction n arbitrary: p s)
  case (Suc n)
  have u: "uaccess (cons_putc e c src s) = uaccess s" for c src
    by (simp add: cons_putc_def cons_flush_outbuf_def Let_def)
  have "I (snd (puts_loop e u (p + 1) n (cons_putc e c cons_source_user s)))" for c
  proof (rule Suc.IH)
    show "I ((cons_putc e c cons_source_user s)\<lparr>uaccess := (uaccess (cons_putc e c cons_source_user s))(arch_cpu e := False)\<rparr>)"
      using cons_putc [OF Suc.prems(1), of e c cons_source_user] by (simp only: cons_putc_uaccess u)
    show "uaccess (cons_putc e c cons_source_user s) (arch_cpu e)" by (simp add: u Suc.prems)
  qed
  moreover have "I (snd (uaccess_error e s :: u64 result \<times> kst))" using Suc.prems by (simp add: uaccess_error_def fun_upd_def)
  ultimately show ?case by (simp split: option.split)
qed (simp add: uaccess_stop_def)

lemma sys_cons_puts: "I s \<Longrightarrow> I (snd (sys_cons_puts e u p n s))"
  by (auto simp: sys_cons_puts_def uaccess_start_def uaccess_bracket intro!: puts_loop)

lemma fold_ustore: "I s \<Longrightarrow> I (fold (\<lambda>j. ustore (a j) (w j)) js s)"
  by (induction js arbitrary: s) (auto intro: ustore)

lemma sys_locality_get: "I s \<Longrightarrow> I (snd (sys_locality_get e u p s))"
proof -
  assume s: "I s"
  let ?F = "\<lambda>w s. ustore (p + 256) [of_nat (ke_ncpu e)] (fold (\<lambda>j. ustore (p + of_nat (16 * j)) (w j)) [0..<ke_ncpu e] s)"
  have "I (?F w s)" for w using s by (intro ustore fold_ustore)
  moreover have "snd (sys_locality_get e u p s) \<in> {s} \<union> range (\<lambda>w. ?F w s)"
    unfolding sys_locality_get_def Let_def
    by (rule subsetD [OF _ snd_guarded]) simp_all
  ultimately show ?thesis using s by auto
qed

lemma set_user_name: "I s \<Longrightarrow> I (snd (set_user_name e u ko n s))"
  unfolding set_user_name_def by (intro seq) (auto intro: set_name)

lemma sys_device_alloc: "I s \<Longrightarrow> I (snd (sys_device_alloc e src sh did pid s))"
  unfolding sys_device_alloc_def by (intro seq device_alloc processor_import_obj) auto

lemma sys_device_buf:
  assumes "drivers_keep I dr" and s: "I s"
  shows "I (snd (sys_device_buf e dr src d g off ty s))"
proof -
  have feed: "I s \<Longrightarrow> I (snd (dr_feed dr n q i kp t s))" for n q i kp t s
    using assms unfolding drivers_keep_def by blast
  show ?thesis unfolding sys_device_buf_def by (intro seq processor_co_obj device_buf feed s) auto
qed

lemma sys_obj_get_name: "I s \<Longrightarrow> I (snd (sys_obj_get_name e u src ob p s))"
  unfolding sys_obj_get_name_def by (intro seq processor_co_obj put_user) auto

lemma share_alloc: "I s \<Longrightarrow> I (snd (share_alloc e m pid s))"
  unfolding share_alloc_def Let_def by (auto intro: alloc)

lemma sys_share_alloc: "I s \<Longrightarrow> I (snd (sys_share_alloc e u src sh m nm pid s))"
  unfolding sys_share_alloc_def processor_add_share_def
  by (intro seq share_alloc set_user_name processor_import_obj sharemap_add) auto

lemma sys_share_addref: "I s \<Longrightarrow> I (snd (sys_share_addref e src d sh ob s))"
  unfolding sys_share_addref_def processor_get_share_def by (intro seq share_co_obj share_import_obj) auto

lemma sys_share_unref: "I s \<Longrightarrow> I (snd (sys_share_unref e src sh ob s))"
  unfolding sys_share_unref_def by (intro seq processor_remove_obj) auto

lemma sys_segment_alloc: "I s \<Longrightarrow> I (snd (sys_segment_alloc e u src sh n nm pid s))"
  unfolding sys_segment_alloc_def
  by (intro seq segment_alloc set_user_name segment_set_nbytes processor_import_obj) auto

lemma sys_segment_copy: "I s \<Longrightarrow> I (snd (sys_segment_copy e u src d ob nm md pid s))"
  unfolding sys_segment_copy_def
  by (intro seq processor_co_obj segment_copy set_user_name processor_import_obj) auto

lemma sys_segment_get_nbytes: "I s \<Longrightarrow> I (snd (sys_segment_get_nbytes e src ob s))"
  unfolding sys_segment_get_nbytes_def segment_get_npage_def by (intro seq processor_co_obj) auto

lemma sys_segment_set_nbytes: "I s \<Longrightarrow> I (snd (sys_segment_set_nbytes e src ob n s))"
  unfolding sys_segment_set_nbytes_def by (intro seq processor_co_obj segment_set_nbytes) auto

lemma sys_processor_alloc: "I s \<Longrightarrow> I (snd (sys_processor_alloc e u src sh nm pid s))"
  unfolding sys_processor_alloc_def by (intro seq processor_alloc processor_import_obj set_user_name) auto

lemma sys_processor_vector: "I s \<Longrightarrow> I (snd (sys_processor_vector e u src ob p s))"
  unfolding sys_processor_vector_def by (intro seq processor_co_obj processor_vector) auto

lemma sys_processor_set_interval: "I s \<Longrightarrow> I (snd (sys_processor_set_interval e src ob hz s))"
  unfolding sys_processor_set_interval_def by (intro seq processor_co_obj processor_set_interval) auto

lemma sys_processor_halt: "I s \<Longrightarrow> I (snd (sys_processor_halt e src ob s))"
  unfolding sys_processor_halt_def by (intro seq processor_co_obj halt) auto

lemma sys_processor_set_device: "I s \<Longrightarrow> I (snd (sys_processor_set_device e src ob i d s))"
  unfolding sys_processor_set_device_def by (intro seq processor_co_obj processor_set_device) auto

lemma sys_self:
  "I s \<Longrightarrow> I (snd (sys_self_fp_enable src s))"
  "I s \<Longrightarrow> I (snd (sys_self_drop_share e src sh s))"
  "I s \<Longrightarrow> I (snd (sys_self_get_as e u src p s))"
  "I s \<Longrightarrow> I (snd (sys_self_get_pid src s))"
  unfolding sys_self_fp_enable_def sys_self_drop_share_def sys_self_get_as_def sys_self_get_pid_def processor_remove_share_def
  by (intro seq processor_enable_fp, auto) (intro seq sharemap_remove put_user halt, auto)+

lemma sys_at_alloc: "I s \<Longrightarrow> I (snd (sys_at_alloc e u src sh i nm pid s))"
  unfolding sys_at_alloc_def by (intro seq at_alloc processor_import_obj set_user_name) auto

lemma sys_at_get: "I s \<Longrightarrow> I (snd (sys_at_get e u src ob p s))"
  unfolding sys_at_get_def by (intro seq processor_co_obj at_to_user) auto

lemma sys_at_set: "I s \<Longrightarrow> I (snd (sys_at_set e u src ob p s))"
  unfolding sys_at_set_def by (intro seq processor_co_obj at_from_user) auto

lemma at_set_uslot: "I s \<Longrightarrow> I (snd (at_set_uslot e a uam s))"
  unfolding at_set_uslot_def Let_def
  by (intro seq at_resize at_get_uaddrmap at_invalidate_uaddrmap) (auto intro: km at_resize at_invalidate_uaddrmap)

lemma sys_at_set_slot: "I s \<Longrightarrow> I (snd (sys_at_set_slot e u src ob p s))"
  unfolding sys_at_set_slot_def by (intro seq processor_co_obj at_set_uslot) auto

lemma sys_machine:
  assumes "machine_keeps I mc" and s: "I s"
  shows "I (snd (sys_debug (mc_debug mc) op l s))" "I (snd (sys_machine_reinit e u (mc_reinit mc) p n s))"
proof -
  have mc: "I s \<Longrightarrow> I (snd (mc_debug mc op l s))" "I s \<Longrightarrow> I (snd (mc_reinit mc l' s))" for op l l' s
    using assms by (simp_all add: machine_keeps_def)
  show "I (snd (sys_debug (mc_debug mc) op l s))" unfolding sys_debug_def by (intro seq mc s) auto
  show "I (snd (sys_machine_reinit e u (mc_reinit mc) p n s))"
    unfolding sys_machine_reinit_def by (intro seq mc s) (auto simp: s)
qed

lemma sys_cons_flush: "I s \<Longrightarrow> I (snd (sys_cons_flush e s))"
  by (auto simp: sys_cons_flush_def cons_flush_def cons_flush_outbuf_def Let_def intro!: cons_log cons_bufs)

lemma syscall_core:
  assumes "drivers_keep I dr" "machine_keeps I mc" "num \<notin> {3, 5, 6}" and s: "I s"
  shows "I (snd (syscall_exec e dr u mc src num a s))"
proof -
  note calls = sys_cons_puts sys_cons_flush sys_locality_get sys_device_alloc sys_device_buf [OF assms(1)]
    sys_machine [OF assms(2)] sys_obj_get_name sys_share_alloc sys_share_addref sys_share_unref sys_segment_copy
    sys_segment_alloc sys_segment_get_nbytes sys_segment_set_nbytes sys_processor_alloc sys_processor_vector
    sys_processor_set_interval sys_processor_halt sys_processor_set_device sys_self sys_at_alloc sys_at_get
    sys_at_set sys_at_set_slot
  show ?thesis
    using assms(3) unfolding syscall_exec_def by (simp add: calls [OF s] s sys_processor_current_def)
qed

end

subsection \<open>Traps\<close>

locale kernel_laws = core_laws +
  assumes uacc: "I s \<Longrightarrow> I (s\<lparr>uaccess := U\<rparr>)"
begin

lemma uaccess_ops:
  "I s \<Longrightarrow> I (snd (uaccess_start e s))" "I s \<Longrightarrow> I (snd (uaccess_stop e s))" "I s \<Longrightarrow> I (snd (uaccess_error e s))"
  by (simp_all add: uaccess_start_def uaccess_stop_def uaccess_error_def uacc)

lemma sys_device_list: "I s \<Longrightarrow> I (snd (sys_device_list e u p s))"
  unfolding sys_device_list_def
  by (intro seq uaccess_ops) (auto simp: uaccess_stop_def uaccess_error_def intro!: seq uacc ustore split: result.splits)

lemma sys_device_stat:
  assumes "drivers_keep I dr" and s: "I s"
  shows "I (snd (sys_device_stat e dr u src d p s))"
proof -
  have drv: "I s \<Longrightarrow> I (snd (device_stat dr q s))" for q s
    using assms unfolding drivers_keep_def device_stat_def by (auto intro!: seq)
  show ?thesis unfolding sys_device_stat_def by (intro seq processor_co_obj uaccess_ops drv s) (auto intro: ustore)
qed

lemma sys_device_conf:
  assumes "drivers_keep I dr" and s: "I s"
  shows "I (snd (sys_device_conf e dr u src d p s))"
proof -
  have drv: "I s \<Longrightarrow> I (snd (device_conf dr q c s))" for q c s
    using assms unfolding drivers_keep_def device_conf_def by (auto intro!: seq)
  show ?thesis
    unfolding sys_device_conf_def
    by (intro seq processor_co_obj uaccess_ops s) (auto intro!: seq drv uaccess_ops split: option.split)
qed

lemma syscall_exec:
  assumes d: "drivers_keep I dr" and m: "machine_keeps I mc" and s: "I s"
  shows "I (snd (syscall_exec e dr u mc src num a s))"
proof (cases "num \<in> {3, 5, 6}")
  case True
  then show ?thesis
    using sys_device_list [OF s] sys_device_stat [OF d s] sys_device_conf [OF d s] by (auto simp: syscall_exec_def)
qed (use assms syscall_core in simp)

lemma ps_address_tree: "I s \<Longrightarrow> (\<And>A. I (snd (f A))) \<Longrightarrow> I (snd (ps_address_tree P s f))"
  by (auto simp: ps_address_tree_def intro: seq split: option.splits)

lemma processor_utrap: "I s \<Longrightarrow> I (snd (processor_utrap e u p n pr arg s))"
proof -
  assume s: "I s"
  have a: "I (snd (processor_arch_utrap e u p n arg s))"
    unfolding processor_arch_utrap_def Let_def by (intro seq ps_address_tree put_user s) (auto simp: s intro: upd_ps)
  have b: "I (snd (processor_arch_pending e u p n s))"
    unfolding processor_arch_pending_def Let_def
    by (intro seq ps_address_tree uaccess_ops s) (auto simp: s intro: uaccess_ops ustore split: option.splits)
  show ?thesis unfolding processor_utrap_def by (intro seq a b s) (simp_all add: s)
qed

lemma page_fault: "I s \<Longrightarrow> I (snd (page_fault e u src tf err va s))"
  unfolding page_fault_def Let_def
  by (intro seq snd_case_r [of I] processor_pagefault processor_utrap) (auto intro: uacc)

lemma dispatch_syscall:
  assumes "drivers_keep I dr" "machine_keeps I mc" "I s"
  shows "I (snd (dispatch_syscall e dr u mc p tf s))"
  unfolding dispatch_syscall_def kern_syscall_def
  by (intro snd_case_r [of I] syscall_exec assms) (auto intro: upd_ps)

lemma trap_dispatch:
  assumes "drivers_keep I dr" "machine_keeps I mc" "I s"
  shows "I (snd (trap_dispatch e dr u mc n tf err va s))"
proof -
  have irq: "I s \<Longrightarrow> I (snd (irq_handler dr p i s))" for p i s
    using assms(1) by (simp add: irq_handler_def drivers_keep_def)
  have "I (snd (case processor_utrap e u p n True 0 s of
                 (Ok _, s) \<Rightarrow> (Ok To_run, s)
               | (Err er, s) \<Rightarrow>
                   if er = E_RESTART then (Ok To_run, s) else bind_r (halt e p s) (\<lambda>_ s. (Ok To_run, s))
               | (Panic, s) \<Rightarrow> (Panic, s)))" for p
    by (intro snd_case_r [of I] processor_utrap assms seq halt) auto
  then show ?thesis
    unfolding trap_dispatch_def
    by (auto split: option.splits intro!: seq irq dispatch_syscall page_fault halt assms)
qed

lemma pin_devices: "I s \<Longrightarrow> I (snd (pin_devices e p os s))"
proof (induction os arbitrary: s)
  case (Cons r os)
  show ?case
    unfolding pin_devices.simps
    by (intro seq snd_case_r [of I] processor_co_obj Cons.IH incref Cons.prems) auto
qed simp

lemma gc_scan_post: "I s \<Longrightarrow> post_w I (kobject_gc_scan e s)"
  using kobject_gc_scan by auto

lemma processor_run: "I s \<Longrightarrow> post_w I (processor_run e s)"
proof -
  have arch: "I s \<Longrightarrow> I (snd (processor_arch_run p s))" for p s
    unfolding processor_arch_run_def by (intro seq) (auto split: ps_mode_t.splits)
  show "I s \<Longrightarrow> ?thesis"
    unfolding processor_run_def
    by (intro post_bind_w share_action_scan gc_scan_post)
      (auto simp del: post_w_def intro!: post_someI seq pin_devices at_set_current arch split: option.split)
qed

lemma save_tf: "I s \<Longrightarrow> I (save_tf e tf s)"
  by (auto simp: save_tf_def intro: upd_ps split: option.splits)

lemma trap_handler:
  assumes "drivers_keep I dr" "machine_keeps I mc" "I s"
  shows "post_w I (trap_handler e dr u mc n tf err va s)"
  unfolding trap_handler_def
  by (intro post_bind_w post_someI trap_dispatch assms save_tf)
    (auto simp del: post_w_def intro!: post_bind_w post_someI processor_run split: fault_exit.split)

end

end
