(* ===== verification/Example_State.thy ===== *)
theory Example_State
  imports Trap
begin

text \<open>
  A small kernel state on which the properties are instantiated: a running processor in page 5 with
  one share in page 6, which holds one object in page 7.  Pages 8 and 9 hold the tables of the two
  maps, page 10 the blobs of the share.
\<close>

definition one_entry_map :: "page \<Rightarrow> Map" where
  "one_entry_map p =
     \<lparr>map_slots = (\<lambda>c. if c then null_slot
        else \<lparr>ms_back = (pagetree_init False 0)\<lparr>pt_direct := [\<lparr>pe_page = Some p, pe_mode = page_excl\<rparr>, null_pe, null_pe]\<rparr>,
              ms_capacity = 1, ms_size = 1\<rparr>),
      map_npages = 1, map_cur = False, map_pid = 0\<rparr>"

lemma one_entry_map_get:
  assumes "page_words m p ! 0 = k" "valid_key k"
  shows "map_get nm k (one_entry_map p, m) = Ok (page_words m p ! 1)"
proof -
  have g: "get_hash_ent nm ((pagetree_init False 0)\<lparr>pt_direct := [\<lparr>pe_page = Some p, pe_mode = page_excl\<rparr>, null_pe, null_pe]\<rparr>, m) 0
      = (Ok (p, 0), (pagetree_init False 0)\<lparr>pt_direct := [\<lparr>pe_page = Some p, pe_mode = page_excl\<rparr>, null_pe, null_pe]\<rparr>, m)"
    by (simp add: get_hash_ent_def pagetree_get_page_def pagetree_get_entp_def pagetree_layout Let_def pagetree_init_def)
  show ?thesis
    using assms
    by (simp add: map_get_def one_entry_map_def hash_get_def hash_get_fn_def valid_key_def slot_table_def hash_ent_def
      map_ops_def hash_probe_def g key_hit_def)
qed

definition world_mem :: physmem where
  "world_mem = tiny_mem\<lparr>page_words := (page_words tiny_mem)
     (8 := (replicate 512 0)[0 := 8, 1 := kptr_va (6, 0)], 9 := (replicate 512 0)[0 := 9, 1 := kptr_va (10, 0)])\<rparr>"

definition world_ko :: "u64 \<Rightarrow> kobject_type \<Rightarrow> kobject_body \<Rightarrow> kobject" where
  "world_ko i t b = \<lparr>ko_hdr = \<lparr>ko_id = i, ko_type = t, ko_name = [], ko_ref = 1, ko_pid = 0\<rparr>, ko_body = b\<rparr>"

definition world_ps :: Processor where
  "world_ps = (new_processor 0 5)\<lparr>ps_running := True,
     ps_sharemap := \<lparr>sm_map = one_entry_map 8, sm_owner = 5, sm_mask = - 1\<rparr>\<rparr>"

definition world_sh :: Share where
  "world_sh = \<lparr>sh_kobject_map = one_entry_map 9, sh_blob = (\<lambda>_. (empty_pool 0)\<lparr>sp_free := [(10, 40), (10, 80)]\<rparr>), sh_mask = - 1\<rparr>"

definition world_of :: "Processor \<Rightarrow> kobject_type \<Rightarrow> kobject_body \<Rightarrow> kst" where
  "world_of P t b =
     (kst0 world_mem)\<lparr>
       kobjs := (kobjs (kst0 world_mem))(5 := world_ko 7 kobj_processor (KProcessor P),
         6 := world_ko 8 kobj_share (KShare world_sh), 7 := world_ko 9 t b),
       processors := (processors (kst0 world_mem))(0 := Some 5),
       sh_infos := (\<lambda>_. \<lparr>si_ko = 7, si_co = 0, si_cnt = 1\<rparr>)\<rparr>"

abbreviation world :: "kobject_type \<Rightarrow> kobject_body \<Rightarrow> kst" where
  "world \<equiv> world_of world_ps"

lemma world_simps [simp]:
  "kobjs (world_of P t b) 5 = world_ko 7 kobj_processor (KProcessor P)"
  "kobjs (world_of P t b) 6 = world_ko 8 kobj_share (KShare world_sh)"
  "kobjs (world_of P t b) 7 = world_ko 9 t b"
  "km (world_of P t b) = world_mem" "uaccess (world_of P t b) = (\<lambda>_. False)" "processors (world_of P t b) = (\<lambda>_. None)(0 := Some 5)"
  "sh_infos (world_of P t b) x = \<lparr>si_ko = 7, si_co = 0, si_cnt = 1\<rparr>" "ko_body (world_ko i t b) = b"
  "ko_hdr (world_ko i t b) = \<lparr>ko_id = i, ko_type = t, ko_name = [], ko_ref = 1, ko_pid = 0\<rparr>"
  by (simp_all add: world_of_def kst0_def world_ko_def)

lemma world_get:
  assumes "sm_map (ps_sharemap P) = one_entry_map 8"
  shows "sharemap_get e 5 8 (world_of P t b) = (Ok 6, world_of P t b)" "share_get e 6 9 (world_of P t b) = (Ok (10, 0), world_of P t b)"
proof -
  have "map_get (ke_numa e) 8 (one_entry_map 8, world_mem) = Ok (kptr_va (6, 0))"
    by (subst one_entry_map_get) (simp_all add: world_mem_def valid_key_def TOMB_def)
  then show "sharemap_get e 5 8 (world_of P t b) = (Ok 6, world_of P t b)"
    by (simp add: sharemap_get_def with_ps_def assms va_kptr_va)
  have "map_get (ke_numa e) 9 (one_entry_map 9, world_mem) = Ok (kptr_va (10, 0))"
    by (subst one_entry_map_get) (simp_all add: world_mem_def valid_key_def TOMB_def)
  then show "share_get e 6 9 (world_of P t b) = (Ok (10, 0), world_of P t b)"
    by (simp add: share_get_def with_sh_def world_sh_def va_kptr_va)
qed

text \<open>Looking the object up by its name in the share.\<close>

lemma world_lookup:
  assumes "t' = t \<or> t' = kobj_any" "sm_map (ps_sharemap P) = one_entry_map 8"
  obtains s' where "processor_co_obj tiny_env 5 (SOBJ 8 9) t' (world_of P t b) = (Ok 7, s')"
    "\<And>p. p \<noteq> 6 \<Longrightarrow> kobjs s' p = kobjs (world_of P t b) p" "uaccess s' = uaccess (world_of P t b)" "km s' = km (world_of P t b)"
proof -
  let ?x = "processor_co_obj tiny_env 5 (SOBJ 8 9) t' (world_of P t b)"
  have "fst ?x = Ok 7 \<and> (\<forall>p. p \<noteq> 6 \<longrightarrow> kobjs (snd ?x) p = kobjs (world_of P t b) p) \<and>
    uaccess (snd ?x) = uaccess (world_of P t b) \<and> km (snd ?x) = km (world_of P t b)"
    using assms(1)
    by (auto simp: processor_co_obj_def sharemap_co_obj_def world_get [OF assms(2)] share_co_obj_def share_blob_alloc_def with_sh_def
      world_sh_def upd_info_def set_pool_def set_body_def upd_ko_def Let_def SOBJ_def)
  then show thesis by (intro that [of "snd ?x"]) (auto simp: prod_eq_iff)
qed

end
