(* ===== verification/Kernel_Types.thy ===== *)
theory Kernel_Types
  imports Kernel_Syscalls Example_State
begin

text \<open>
  Two invariants of the kernel: the type in the header of an object says which structure the object
  is, and the guard of user-memory accesses is left as it was found.
\<close>

subsection \<open>Object types\<close>

definition typed :: "kst \<Rightarrow> bool" where
  "typed s \<longleftrightarrow> (\<forall>p. ko_type (hdr s p) = body_type (ko_body (kobjs s p)))"

lemma typed_body: "typed s \<Longrightarrow> ko_body (kobjs s p) = b \<Longrightarrow> body_type c = body_type b \<Longrightarrow> typed (set_body p c s)"
  by (auto simp: typed_def set_body_def upd_ko_def)

lemma typed_hdr: "typed s \<Longrightarrow> (\<And>h. ko_type (f h) = ko_type h) \<Longrightarrow> typed (upd_hdr p f s)"
  by (auto simp: typed_def upd_hdr_def upd_ko_def)

lemma typed_fields:
  assumes "kobjs s' = kobjs s" "typed s" shows "typed s'"
  using assms by (simp add: typed_def)

lemma typed_alloc: "typed s \<Longrightarrow> body_type b = t \<Longrightarrow> typed (snd (kobject_alloc e t b pid s))"
  by (auto simp: kobject_alloc_def id_alloc_def on_mem_def kobject_gc_collect_def Let_def bind_r_def typed_def
    split: prod.splits result.splits)

lemma typed_upd: "typed s \<Longrightarrow> typed (upd_at p f s)" "typed s \<Longrightarrow> typed (upd_sg p g s)"
  by (auto simp: upd_at_def upd_sg_def intro: typed_body split: kobject_body.splits)

lemma typed_decref: "typed s \<Longrightarrow> typed (snd (kobject_decref e p s))"
  unfolding kobject_decref_def Let_def kobject_gc_collect_def
  by (auto intro: typed_hdr typed_fields [OF _ typed_hdr])

interpretation type_inv: kernel_laws typed
  by unfold_locales
    (auto simp: kobject_incref_def kobject_set_name_def
      intro: typed_body typed_hdr typed_alloc typed_upd typed_decref typed_fields)


definition idle_drivers :: drivers where
  "idle_drivers = \<lparr>dr_stat = \<lambda>_ s. (Ok [], s), dr_conf = \<lambda>_ _ s. (Err E_INVAL, s), dr_feed = \<lambda>_ _ _ _ _ s. (Err E_INVAL, s),
     dr_poll = \<lambda>_ s. (Ok (), s), dr_irq = \<lambda>_ _ s. (Ok (), s)\<rparr>"

definition idle_machine :: machine where
  "idle_machine = \<lparr>mc_debug = \<lambda>_ _ s. (Ok (), s), mc_reinit = \<lambda>_ s. (Err E_UNSPEC, s)\<rparr>"

lemma idle_keep: "drivers_keep P idle_drivers" "machine_keeps P idle_machine"
  by (simp_all add: drivers_keep_def machine_keeps_def idle_drivers_def idle_machine_def)

text \<open>A running processor object in page 5, and a trap frame that asks for its number.\<close>

definition one_processor :: kst where
  "one_processor =
     (kst0 tiny_mem)\<lparr>kobjs := (kobjs (kst0 tiny_mem))(5 :=
          \<lparr>ko_hdr = \<lparr>ko_id = 7, ko_type = kobj_processor, ko_name = [], ko_ref = 1, ko_pid = 0\<rparr>,
           ko_body = KProcessor ((new_processor 0 5)\<lparr>ps_running := True\<rparr>)\<rparr>),
        processors := (processors (kst0 tiny_mem))(0 := Some 5)\<rparr>"

definition no_memory :: uview where
  "no_memory = \<lparr>um_rd = \<lambda>_. None, um_wr = \<lambda>_. False\<rparr>"

lemmas one_processor_simps = one_processor_def kst0_def tiny_env_def tiny_numa_def idle_drivers_def idle_machine_def
  new_processor_def processor_sched_def with_ps_def


subsection \<open>Guarded accesses\<close>

interpretation guard_inv: core_laws "\<lambda>s. uaccess s = U" for U
  by unfold_locales
    (auto simp: kobject_incref_def kobject_set_name_def kobject_decref_def kobject_alloc_def id_alloc_def on_mem_def
      kobject_gc_collect_def Let_def bind_r_def upd_hdr_def upd_ko_def upd_at_def upd_sg_def set_body_def
      split: prod.splits result.splits kobject_body.splits)

text \<open>
  C18: a system call that returns leaves the guard of user-memory accesses as it was, except the
  status and the configuration of a device.
\<close>

theorem syscall_guard_balanced:
  assumes "syscall_exec e dr u mc src num a s = (r, s')" and "r \<noteq> Panic" and "num \<notin> {5, 6}" and "ndev s \<le> NDEVICES"
    and "drivers_keep (\<lambda>t. uaccess t = uaccess s) dr" "machine_keeps (\<lambda>t. uaccess t = uaccess s) mc"
  shows "uaccess s' = uaccess s"
proof (cases "num = 3")
  case True
  with assms(1,2,4) show ?thesis
    by (auto simp: syscall_exec_def sys_device_list_def device_list_def uaccess_start_def uaccess_stop_def
      uaccess_error_def fun_upd_idem split: if_splits)
next
  case False
  with assms(3) guard_inv.syscall_core [OF assms(5,6), of num s e u src a] show ?thesis by (simp add: assms(1))
qed

text \<open>Memory with the same byte everywhere.\<close>

definition byte_memory :: "u8 \<Rightarrow> uview" where
  "byte_memory b = \<lparr>um_rd = \<lambda>_. Some b, um_wr = \<lambda>_. True\<rparr>"

theorem syscall_guard_balanced_witness:
  "fst (syscall_exec tiny_env idle_drivers (byte_memory 65) idle_machine 5 0 [0x1000, 1] one_processor) = Ok 0 \<and>
   uaccess (snd (syscall_exec tiny_env idle_drivers (byte_memory 65) idle_machine 5 0 [0x1000, 1] one_processor)) =
     uaccess one_processor"
proof -
  have ok: "fst (syscall_exec tiny_env idle_drivers (byte_memory 65) idle_machine 5 0 [0x1000, 1] one_processor) = Ok 0"
    by (simp add: syscall_exec_def sys_cons_puts_def uaccess_start_def uaccess_stop_def byte_memory_def one_processor_simps
      cons_putc_def cons_flush_outbuf_def Let_def cons_bufsize_def)
  obtain r s' where x: "syscall_exec tiny_env idle_drivers (byte_memory 65) idle_machine 5 0 [0x1000, 1] one_processor = (r, s')"
    by fastforce
  with ok have r: "r \<noteq> Panic" by auto
  have n: "ndev one_processor \<le> NDEVICES" by (simp add: one_processor_def kst0_def)
  show ?thesis using syscall_guard_balanced [OF x r _ n idle_keep] x ok by simp
qed

text \<open>
  C19: when the driver refuses a configuration, the call returns the driver's error with the guard
  still set, and the next guarded access of the same processor stops the kernel.
\<close>

theorem device_conf_error_leaves_guard:
  assumes co: "processor_co_obj e src ref kobj_device s = (Ok dv, s1)" and g: "\<not> uaccess s (arch_cpu e)"
    and dv: "ko_body (kobjs s1 dv) = KDevice D" and c: "rd_conf u p = Some c"
    and drv: "\<And>t. \<exists>t'. dr_conf dr (dv_dh D) c t = (Err er, t') \<and> uaccess t' = uaccess t"
  shows "\<exists>s'. sys_device_conf e dr u src ref p s = (Err er, s') \<and> uaccess s' (arch_cpu e) \<and>
           (\<forall>p n. fst (sys_cons_puts e u p n s') = Panic)"
proof -
  have "uaccess s1 = uaccess s" using guard_inv.processor_co_obj [of s _ e src ref kobj_device] co by simp
  with g have g1: "\<not> uaccess s1 (arch_cpu e)" by simp
  let ?s2 = "s1\<lparr>uaccess := (uaccess s1)(arch_cpu e := True)\<rparr>"
  obtain s' where s': "dr_conf dr (dv_dh D) c ?s2 = (Err er, s')" "uaccess s' = uaccess ?s2" using drv by blast
  then have "uaccess s' (arch_cpu e)" by simp
  then show ?thesis
    using co g1 dv c s'(1)
    by (simp add: sys_device_conf_def uaccess_start_def device_conf_def with_dv_def sys_cons_puts_def)
qed

theorem device_conf_error_leaves_guard_witness:
  "\<exists>s'. sys_device_conf tiny_env idle_drivers (byte_memory 0) 5 (SOBJ 8 9) 0x1000 (world kobj_device (KDevice \<lparr>dv_dh = 0\<rparr>)) =
          (Err E_INVAL, s') \<and> fst (sys_cons_puts tiny_env (byte_memory 0) 0x1000 1 s') = Panic"
proof -
  let ?s = "world kobj_device (KDevice \<lparr>dv_dh = 0\<rparr>)"
  obtain s1 where s1: "processor_co_obj tiny_env 5 (SOBJ 8 9) kobj_device ?s = (Ok 7, s1)" "kobjs s1 7 = kobjs ?s 7"
    by (rule world_lookup [of kobj_device kobj_device world_ps "KDevice \<lparr>dv_dh = 0\<rparr>"]) (auto simp: world_ps_def)
  have b: "rd_bytes (byte_memory 0) a n = Some (replicate n 0)" for a n
    by (induction n arbitrary: a) (simp_all add: byte_memory_def)
  obtain c where c: "rd_conf (byte_memory 0) 0x1000 = Some c" by (simp add: rd_conf_def b Let_def)
  have dv: "ko_body (kobjs s1 7) = KDevice \<lparr>dv_dh = 0\<rparr>" by (simp add: s1(2))
  have drv: "\<exists>t'. dr_conf idle_drivers (dv_dh \<lparr>dv_dh = 0\<rparr>) c t = (Err E_INVAL, t') \<and> uaccess t' = uaccess t" for t
    by (simp add: idle_drivers_def)
  have g: "\<not> uaccess ?s (arch_cpu tiny_env)" by simp
  show ?thesis using device_conf_error_leaves_guard [OF s1(1) g dv c drv] by blast
qed

end
