(* ===== verification/Kernel_Progress.thy ===== *)
theory Kernel_Progress
  imports Kernel_Inv Example_State
begin

text \<open>
  The loops of the kernel end: the recursion of \<open>processor_halt\<close> through the callbacks of address
  trees, the collection of objects, and the deferred actions on shares.
\<close>

subsection \<open>Halting\<close>

definition treeless :: "page \<Rightarrow> kst \<Rightarrow> bool" where
  "treeless ps s \<longleftrightarrow> (\<exists>P. ko_body (kobjs s ps) = KProcessor P \<and> ps_at P = None)"

interpretation treeless: obj_laws "treeless ps" for ps
  by unfold_locales
    (auto simp: treeless_def kobject_decref_def kobject_gc_collect_def Let_def upd_at_def upd_sg_def set_body_def
      upd_ko_def split: kobject_body.splits)

text \<open>A processor without an address tree is not halted by the callbacks.\<close>

lemma bind_r_state_cong: "(\<And>x s. fst r = Ok x \<Longrightarrow> snd r = s \<Longrightarrow> f x s = g x s) \<Longrightarrow> bind_r r f = bind_r r g"
  by (cases r; cases "fst r") auto

lemma for_each_cong:
  assumes "I s" and "\<And>x s. I s \<Longrightarrow> f x s = g x s" and "\<And>x s. I s \<Longrightarrow> I (snd (f x s))"
  shows "for_each f xs s = for_each g xs s"
  using assms(1)
proof (induction xs arbitrary: s)
  case (Cons x xs)
  have "bind_r (f x s) (\<lambda>_. for_each f xs) = bind_r (f x s) (\<lambda>_. for_each g xs)"
    by (rule bind_r_state_cong) (use assms(3) [OF Cons.prems, of x] Cons.IH in auto)
  then show ?case using assms(2) [OF Cons.prems] by simp
qed simp

lemma scope_cb_treeless:
  assumes "treeless ps s"
  shows "scope_cb h e ko sh ps s = scope_cb h' e ko sh ps s"
proof -
  have "at_scope_cb h e ko sh ps s = at_scope_cb h' e ko sh ps s"
    unfolding at_scope_cb_def
  proof (rule bind_r_state_cong)
    fix s' assume "snd (kobj_cache_flush e ko s) = s'"
    then have "treeless ps s'" using treeless.kobj_cache_flush [OF assms] by auto
    then have "with_ps ps s' (\<lambda>P. if ps_at P = Some ko \<and> sh = so_share (ps_atref P)
           then bind_r (h ps s') (\<lambda>_ s. (Ok (), s)) else (Ok (), s')) =
        with_ps ps s' (\<lambda>P. if ps_at P = Some ko \<and> sh = so_share (ps_atref P)
           then bind_r (h' ps s') (\<lambda>_ s. (Ok (), s)) else (Ok (), s'))"
      by (auto simp: treeless_def with_ps_def)
    then show "with_at ko s' (\<lambda>A. if at_interior A then aml_scope e ko sh ps s'
         else with_ps ps s' (\<lambda>P. if ps_at P = Some ko \<and> sh = so_share (ps_atref P)
           then bind_r (h ps s') (\<lambda>_ s. (Ok (), s)) else (Ok (), s'))) =
       with_at ko s' (\<lambda>A. if at_interior A then aml_scope e ko sh ps s'
         else with_ps ps s' (\<lambda>P. if ps_at P = Some ko \<and> sh = so_share (ps_atref P)
           then bind_r (h' ps s') (\<lambda>_ s. (Ok (), s)) else (Ok (), s')))"
      by (simp only:)
  qed
  then show ?thesis by (simp add: scope_cb_def split: kobject_type.split)
qed

lemma treeless_scope: "treeless ps s \<Longrightarrow> treeless ps (snd (scope_cb h e ko sh ps s))"
  using treeless.scope_cb [where h = "\<lambda>_ s. (Panic, s)"] scope_cb_treeless [of ps s h e ko sh "\<lambda>_ s. (Panic, s)"] by simp

lemma share_scope_change_treeless:
  assumes "treeless ps s"
  shows "share_scope_change h e sh ps s = share_scope_change h' e sh ps s"
  unfolding share_scope_change_def with_sh_def
  by (auto split: kobject_body.split intro!: for_each_cong [where I = "treeless ps"] assms scope_cb_treeless treeless_scope)

lemma treeless_scope_change: "treeless ps s \<Longrightarrow> treeless ps (snd (share_scope_change h e sh ps s))"
  using treeless.share_scope_change [where h = "\<lambda>_ s. (Panic, s)"]
    share_scope_change_treeless [of ps s h e sh "\<lambda>_ s. (Panic, s)"] by simp

lemma sharemap_clear_treeless:
  assumes t: "treeless ps s" and o: "\<And>P. ko_body (kobjs s ps) = KProcessor P \<Longrightarrow> sm_owner (ps_sharemap P) = ps"
  shows "sharemap_clear h e ps s = sharemap_clear h' e ps s"
proof -
  let ?f = "\<lambda>h sh s. bind_r (share_scope_change h e (fst sh) ps s) (\<lambda>_. kobject_decref e (fst sh))"
  have eq: "for_each (?f h) l s = for_each (?f h') l s" for l
  proof (rule for_each_cong [where I = "treeless ps", OF t])
    fix sh s assume s: "treeless ps s"
    show "?f h sh s = ?f h' sh s" by (simp only: share_scope_change_treeless [OF s, of h e "fst sh" h'])
    show "treeless ps (snd (?f h sh s))"
      by (intro snd_bind_r [of "treeless ps"] treeless_scope_change treeless.decref s)
  qed
  obtain P where P: "ko_body (kobjs s ps) = KProcessor P" using t by (auto simp: treeless_def)
  show ?thesis unfolding sharemap_clear_def with_ps_def P kobject_body.case o [OF P] eq ..
qed

text \<open>
  C21: the recursion of \<open>processor_halt\<close> through the callbacks ends by itself: any larger bound on
  its depth than the two levels of \<open>halt\<close> gives the same result, for a processor that owns its share
  map.
\<close>

theorem processor_halt_depth:
  assumes "\<And>P. ko_body (kobjs s ps) = KProcessor P \<Longrightarrow> sm_owner (ps_sharemap P) = ps"
  shows "processor_halt (halt_depth + d) e ps s = halt e ps s"
proof -
  have "processor_halt (Suc (Suc d)) e ps s = processor_halt (Suc (Suc 0)) e ps s"
  proof (cases "ko_body (kobjs s ps)")
    case (KProcessor P)
    have own: "sm_owner (ps_sharemap P) = ps" using assms KProcessor .
    let ?s1 = "s\<lparr>cr3 := (cr3 s)(arch_cpu e := None)\<rparr>"
    let ?clear = "\<lambda>h s. bind_r (timer_interval_time e (ps_pid P) 0 (upd_ps ps (\<lambda>P. P\<lparr>ps_at := None, ps_atref := SOBJ 0 0\<rparr>) s)) (\<lambda>_ s.
         bind_r (sharemap_clear h e ps s) (\<lambda>_ s.
           (Ok True, upd_ps ps (\<lambda>P. P\<lparr>ps_running := False\<rparr>) (s\<lparr>processors := (processors s)(ps_pid P := None)\<rparr>))))"
    have eq: "?clear h s2 = ?clear h' s2" if "ko_body (kobjs s2 ps) = KProcessor P" for s2 h h'
    proof (rule bind_r_state_cong)
      fix s3 assume "snd (timer_interval_time e (ps_pid P) 0 (upd_ps ps (\<lambda>P. P\<lparr>ps_at := None, ps_atref := SOBJ 0 0\<rparr>) s2)) = s3"
      then have s3: "ko_body (kobjs s3 ps) = KProcessor (P\<lparr>ps_at := None, ps_atref := SOBJ 0 0\<rparr>)"
        using that by (auto simp: timer_interval_time_def upd_ps_def set_body_def upd_ko_def)
      have "sharemap_clear h e ps s3 = sharemap_clear h' e ps s3"
        by (rule sharemap_clear_treeless) (use s3 own in \<open>auto simp: treeless_def\<close>)
      then show "bind_r (sharemap_clear h e ps s3) (\<lambda>_ s.
           (Ok True, upd_ps ps (\<lambda>P. P\<lparr>ps_running := False\<rparr>) (s\<lparr>processors := (processors s)(ps_pid P := None)\<rparr>))) =
         bind_r (sharemap_clear h' e ps s3) (\<lambda>_ s.
           (Ok True, upd_ps ps (\<lambda>P. P\<lparr>ps_running := False\<rparr>) (s\<lparr>processors := (processors s)(ps_pid P := None)\<rparr>)))"
        by (simp only:)
    qed
    have body: "ko_body (kobjs (snd (at_detach (ps_at P) ps ?s1)) ps) = KProcessor P"
      using KProcessor
      by (auto simp: at_detach_def with_ps_def with_at_def upd_at_def set_body_def upd_ko_def split: option.split kobject_body.split)
    have "bind_r (at_detach (ps_at P) ps ?s1) (\<lambda>_. ?clear (processor_halt (Suc d) e)) =
        bind_r (at_detach (ps_at P) ps ?s1) (\<lambda>_. ?clear (processor_halt (Suc 0) e))"
      by (rule bind_r_state_cong, rule eq) (use body in auto)
    then show ?thesis
      unfolding processor_halt.simps(2) [of "Suc d"] processor_halt.simps(2) [of "Suc 0"]
      by (simp add: with_ps_def KProcessor at_set_current_def)
  qed (simp_all add: with_ps_def)
  then show ?thesis by (simp only: halt_def halt_depth_def numeral_2_eq_2 add_Suc add_0)
qed

theorem processor_halt_depth_witness:
  "processor_halt 9 tiny_env 5 (world kobj_device (KDevice \<lparr>dv_dh = 0\<rparr>)) = halt tiny_env 5 (world kobj_device (KDevice \<lparr>dv_dh = 0\<rparr>))"
  using processor_halt_depth [of "world kobj_device (KDevice \<lparr>dv_dh = 0\<rparr>)" 5 7 tiny_env]
  by (simp add: world_ps_def halt_depth_def)

subsection \<open>Collecting\<close>

text \<open>What is left to do: every reference that can still be dropped, and the objects on the list.\<close>

definition referenced :: "kst \<Rightarrow> page set" where
  "referenced s = {p. kobject_getref p s \<noteq> 0}"

definition gc_weight :: "nat \<Rightarrow> kst \<Rightarrow> nat" where
  "gc_weight c s = (\<Sum>p\<in>referenced s. unat (kobject_getref p s)) + length (ko_gc_list s c)"

definition gc_bound :: "nat \<Rightarrow> nat \<Rightarrow> kst \<Rightarrow> bool" where
  "gc_bound c n s \<longleftrightarrow> finite (referenced s) \<and> gc_weight c s \<le> n"

lemma gc_bound_same:
  assumes "gc_bound c n s" "\<And>p. kobject_getref p s' = kobject_getref p s" "ko_gc_list s' = ko_gc_list s"
  shows "gc_bound c n s'"
  using assms by (simp add: gc_bound_def gc_weight_def referenced_def)

lemma hdr_set_body [simp]: "hdr (set_body p b s) q = hdr s q" "ko_gc_list (set_body p b s) = ko_gc_list s"
  by (simp_all add: set_body_def upd_ko_def)

lemma hdr_upd [simp]:
  "hdr (upd_at p f s) q = hdr s q" "ko_gc_list (upd_at p f s) = ko_gc_list s"
  "hdr (upd_sg p g s) q = hdr s q" "ko_gc_list (upd_sg p g s) = ko_gc_list s"
  by (auto simp: upd_at_def upd_sg_def split: kobject_body.splits)

lemma decref_refs:
  assumes f: "finite (referenced s)" and r: "kobject_getref p s \<noteq> 0" and s': "\<And>q. kobject_getref q s' = (if q = p then kobject_getref p s - 1 else kobject_getref q s)"
  shows "finite (referenced s')" "Suc (\<Sum>p\<in>referenced s'. unat (kobject_getref p s')) = (\<Sum>p\<in>referenced s. unat (kobject_getref p s))"
proof -
  let ?R = "referenced s"
  have sub: "referenced s' \<subseteq> ?R" using r by (auto simp: referenced_def s' split: if_splits)
  then show "finite (referenced s')" using f by (rule finite_subset)
  have p: "p \<in> ?R" using r by (simp add: referenced_def)
  have "(\<Sum>q\<in>referenced s'. unat (kobject_getref q s')) = (\<Sum>q\<in>?R. unat (kobject_getref q s'))"
    by (rule sum.mono_neutral_left [OF f sub]) (auto simp: referenced_def)
  also have "\<dots> = unat (kobject_getref p s') + (\<Sum>q\<in>?R - {p}. unat (kobject_getref q s'))"
    by (rule sum.remove [OF f p])
  also have "(\<Sum>q\<in>?R - {p}. unat (kobject_getref q s')) = (\<Sum>q\<in>?R - {p}. unat (kobject_getref q s))"
    by (rule sum.cong) (auto simp: s')
  finally have "Suc (\<Sum>q\<in>referenced s'. unat (kobject_getref q s')) =
      Suc (unat (kobject_getref p s - 1)) + (\<Sum>q\<in>?R - {p}. unat (kobject_getref q s))" by (simp add: s')
  also have "Suc (unat (kobject_getref p s - 1)) = unat (kobject_getref p s)"
    using r by (simp add: unat_minus_one unat_gt_0)
  also have "unat (kobject_getref p s) + (\<Sum>q\<in>?R - {p}. unat (kobject_getref q s)) = (\<Sum>q\<in>?R. unat (kobject_getref q s))"
    by (rule sum.remove [OF f p, symmetric])
  finally show "Suc (\<Sum>p\<in>referenced s'. unat (kobject_getref p s')) = (\<Sum>p\<in>?R. unat (kobject_getref p s))" .
qed

lemma gc_bound_decref:
  assumes "gc_bound c n s"
  shows "gc_bound c n (snd (kobject_decref e p s))"
proof (cases "kobject_getref p s = 0")
  case False
  let ?s = "snd (kobject_decref e p s)"
  have g: "kobject_getref q ?s = (if q = p then kobject_getref p s - 1 else kobject_getref q s)" for q
    using False by (auto simp: kobject_decref_def Let_def kobject_getref_def upd_hdr_def upd_ko_def kobject_gc_collect_def)
  have l: "length (ko_gc_list ?s c) \<le> Suc (length (ko_gc_list s c))"
    using False by (auto simp: kobject_decref_def Let_def upd_hdr_def upd_ko_def kobject_gc_collect_def)
  show ?thesis using decref_refs [OF _ False g] l assms by (auto simp: gc_bound_def gc_weight_def)
qed (use assms in \<open>simp add: kobject_decref_def\<close>)

lemma gc_bound_pop:
  assumes "gc_bound c n s" "ko_gc_list s d = k # l"
  shows "gc_bound c n (s\<lparr>ko_gc_list := (ko_gc_list s)(d := l)\<rparr>)"
  using assms by (auto simp: gc_bound_def gc_weight_def referenced_def kobject_getref_def)

interpretation gc_work: gc_laws "gc_bound c n" for c n
  by unfold_locales
    (erule (1) gc_bound_pop | erule gc_bound_decref | (erule gc_bound_same; simp add: kobject_getref_def))+

text \<open>One round of the loop, and a round that waits for a processor that runs elsewhere.\<close>

inductive gc_step :: "kenv \<Rightarrow> kst \<Rightarrow> kst \<Rightarrow> bool" for e where
  keep: "ko_gc_list s (arch_cpu e) = ko # l \<Longrightarrow> kobject_getref ko s \<noteq> 0 \<Longrightarrow>
    gc_step e s (s\<lparr>ko_gc_list := (ko_gc_list s)(arch_cpu e := l)\<rparr>)"
| free: "ko_gc_list s (arch_cpu e) = ko # l \<Longrightarrow> kobject_getref ko s = 0 \<Longrightarrow>
    gc_cb e ko (s\<lparr>ko_gc_list := (ko_gc_list s)(arch_cpu e := l)\<rparr>) = Some (Ok (), t) \<Longrightarrow>
    kobject_free e ko t = (Ok (), t') \<Longrightarrow> gc_step e s t'"

definition gc_waits :: "kenv \<Rightarrow> kst \<Rightarrow> bool" where
  "gc_waits e s \<longleftrightarrow>
     (\<exists>ko l P. ko_gc_list s (arch_cpu e) = ko # l \<and> kobject_getref ko s = 0 \<and>
        ko_body (kobjs s ko) = KProcessor P \<and> ps_running P \<and> processor_sched e s \<noteq> Some ko)"

text \<open>A processor that runs here has been stopped when \<open>halt\<close> returns.\<close>

lemma halt_here_stops:
  assumes "processor_sched e s = Some p" "halt e p s = (Ok r, s')" "ko_body (kobjs s' p) = KProcessor P"
  shows "\<not> ps_running P"
proof -
  obtain Q where Q: "ko_body (kobjs s p) = KProcessor Q"
    using assms(2) by (auto simp: halt_def halt_depth_def numeral_2_eq_2 with_ps_def split: kobject_body.splits)
  from assms(1,2) Q obtain t where "s' = upd_ps p (\<lambda>P. P\<lparr>ps_running := False\<rparr>) t"
    by (auto simp: halt_def halt_depth_def numeral_2_eq_2 with_ps_def bind_r_Ok_iff)
  with assms(3) show ?thesis by (auto simp: upd_ps_def set_body_def upd_ko_def split: kobject_body.splits)
qed

lemma processor_gc_waits:
  assumes "processor_gc_cb e p s = None"
  shows "\<exists>P. ko_body (kobjs s p) = KProcessor P \<and> ps_running P \<and> processor_sched e s \<noteq> Some p"
proof -
  let ?x = "with_ps p s (\<lambda>P. if ps_running P then bind_r (halt e p s) (\<lambda>_ s. (Ok (), s)) else (Ok (), s))"
  obtain s' P where x: "?x = (Ok (), s')" and P: "ko_body (kobjs s' p) = KProcessor P" "ps_running P"
    using assms unfolding processor_gc_cb_def
    by (auto split: prod.splits result.splits kobject_body.splits if_splits)
  from x obtain Q where Q: "ko_body (kobjs s p) = KProcessor Q" by (auto simp: with_ps_def split: kobject_body.splits)
  show ?thesis
  proof (cases "ps_running Q")
    case True
    with x Q obtain r where "halt e p s = (Ok r, s')" by (auto simp: with_ps_def bind_r_Ok_iff)
    with halt_here_stops P have "processor_sched e s \<noteq> Some p" by blast
    with True Q show ?thesis by blast
  next
    case False
    then show ?thesis using x Q P by (auto simp: with_ps_def)
  qed
qed

text \<open>
  C20: the collection of unreferenced objects does not run forever: from any state with finitely many
  referenced objects it returns, or it comes to an unreferenced processor object that is still
  running on another processor and waits for that one.
\<close>

theorem gc_scan_returns_or_waits:
  assumes "finite (referenced s)"
  shows "(\<exists>y. kobject_gc_scan e s = Some y) \<or> (\<exists>t. (gc_step e)\<^sup>*\<^sup>* s t \<and> gc_waits e t)"
proof -
  have "gc_bound (arch_cpu e) (gc_weight (arch_cpu e) s) s" using assms by (simp add: gc_bound_def)
  then show ?thesis
  proof (induction "gc_weight (arch_cpu e) s" arbitrary: s rule: less_induct)
    case less
    let ?c = "arch_cpu e"
    show ?case
    proof (cases "ko_gc_list s ?c")
      case Nil
      then have "kobject_gc_scan e s = Some (Ok (), s)" by (simp add: kobject_gc_scan.simps)
      then show ?thesis by blast
    next
      case (Cons ko l)
      let ?s = "s\<lparr>ko_gc_list := (ko_gc_list s)(?c := l)\<rparr>"
      have w: "gc_weight ?c ?s < gc_weight ?c s" "gc_bound ?c (gc_weight ?c ?s) ?s"
        using Cons less.prems by (simp_all add: gc_weight_def gc_bound_def referenced_def kobject_getref_def)
      have next': ?thesis if "gc_step e s t" "kobject_gc_scan e s = kobject_gc_scan e t" "gc_bound ?c (gc_weight ?c ?s) t" for t
      proof -
        have "gc_weight ?c t < gc_weight ?c s" "gc_bound ?c (gc_weight ?c t) t" using that(3) w by (auto simp: gc_bound_def)
        from less.hyps [OF this] that(1,2) show ?thesis by (metis converse_rtranclp_into_rtranclp)
      qed
      show ?thesis
      proof (cases "kobject_getref ko ?s = 0")
        case False
        then have "kobject_gc_scan e s = kobject_gc_scan e ?s"
          by (subst kobject_gc_scan.simps) (simp add: Cons Let_def)
        then show ?thesis using gc_step.keep [OF Cons] False w by (intro next') (auto simp: kobject_getref_def)
      next
        case True
        then have scan: "kobject_gc_scan e s = Option.bind (gc_cb e ko ?s) (\<lambda>(r, s).
             case r of
               Ok _ \<Rightarrow> (case kobject_free e ko s of (Ok _, s) \<Rightarrow> kobject_gc_scan e s | (r, s) \<Rightarrow> Some (Panic, s))
             | _ \<Rightarrow> Some (Panic, s))"
          by (subst kobject_gc_scan.simps) (simp add: Cons Let_def)
        show ?thesis
        proof (cases "gc_cb e ko ?s")
          case None
          then have "processor_gc_cb e ko ?s = None" by (auto simp: gc_cb_def split: kobject_type.splits)
          from processor_gc_waits [OF this] have "gc_waits e s"
            using Cons True by (auto simp: gc_waits_def kobject_getref_def processor_sched_def)
          then show ?thesis by blast
        next
          case (Some a)
          obtain r t where a: "a = (r, t)" by (cases a)
          obtain r' t' where f: "kobject_free e ko t = (r', t')" by (cases "kobject_free e ko t")
          show ?thesis
          proof (cases "r = Ok () \<and> r' = Ok ()")
            case True
            have "gc_bound ?c (gc_weight ?c ?s) t" using gc_work.gc_cb [OF w(2)] Some a by blast
            from gc_work.kobject_free [OF this, of e ko] have b: "gc_bound ?c (gc_weight ?c ?s) t'" using f by simp
            have "gc_step e s t'"
              using gc_step.free [OF Cons, of t t'] Some a f True \<open>kobject_getref ko ?s = 0\<close> by (auto simp: kobject_getref_def)
            moreover have "kobject_gc_scan e s = kobject_gc_scan e t'" using scan Some a f True by simp
            ultimately show ?thesis using b by (intro next')
          next
            case False
            then show ?thesis using scan Some a f by (cases r; cases r') auto
          qed
        qed
      qed
    qed
  qed
qed

text \<open>A processor object on the list of the processor.\<close>

definition gc_example :: kst where
  "gc_example = (world kobj_processor (KProcessor world_ps))\<lparr>ko_gc_list := (\<lambda>_. [])(0 := [7])\<rparr>"

theorem gc_scan_returns_or_waits_witness:
  "(\<exists>y. kobject_gc_scan tiny_env gc_example = Some y) \<or> (\<exists>t. (gc_step tiny_env)\<^sup>*\<^sup>* gc_example t \<and> gc_waits tiny_env t)"
proof -
  have "referenced gc_example \<subseteq> {5, 6, 7}"
    by (auto simp: referenced_def kobject_getref_def gc_example_def world_of_def kst0_def world_ko_def split: if_splits)
  then have "finite (referenced gc_example)" by (rule finite_subset) simp
  then show ?thesis by (rule gc_scan_returns_or_waits)
qed

subsection \<open>Deferred actions on shares\<close>

lemma scan_ci_infos:
  assumes "scan_ci e l s = (Ok (), s')"
  shows "si_co (sh_infos s' b) = si_co (sh_infos s b) - of_nat (count_list (map sa_si l) b)"
    "sh_rm_list s' = sh_rm_list s"
proof -
  have free: "sh_infos t' = sh_infos t \<and> sh_rm_list t' = sh_rm_list t" if "share_blob_free e p q t = (Ok (), t')" for p q t t'
    using that by (auto simp: share_blob_free_def with_sh_def set_pool_def set_body_def upd_ko_def Let_def split: kobject_body.splits)
  have "si_co (sh_infos s' b) = si_co (sh_infos s b) - of_nat (count_list (map sa_si l) b) \<and> sh_rm_list s' = sh_rm_list s"
    using assms
  proof (induction l arbitrary: s)
    case (Cons sa l)
    from Cons.prems obtain s1 s2 where "share_action_ci (sa_si sa) s = (Ok (), s1)"
      "share_blob_free e (sa_sh sa) (sa_blob sa) (s1\<lparr>sh_ci_list := (sh_ci_list s1)(arch_cpu e := l)\<rparr>) = (Ok (), s2)"
      and r: "scan_ci e l s2 = (Ok (), s')" by (auto simp: bind_r_Ok_iff)
    then have "sh_infos s2 = (sh_infos s)(sa_si sa := (sh_infos s (sa_si sa))\<lparr>si_co := si_co (sh_infos s (sa_si sa)) - 1\<rparr>)"
      "sh_rm_list s2 = sh_rm_list s"
      by (auto simp: share_action_ci_def upd_info_def split: if_splits dest: free)
    with Cons.IH [OF r] show ?case by auto
  qed simp
  then show "si_co (sh_infos s' b) = si_co (sh_infos s b) - of_nat (count_list (map sa_si l) b)"
    "sh_rm_list s' = sh_rm_list s" by auto
qed

lemma scan_rm_returns:
  "(\<And>sa. sa \<in> set l \<Longrightarrow> si_co (sh_infos s (sa_si sa)) = 0) \<Longrightarrow> scan_rm e l s \<noteq> None"
proof (induction l arbitrary: s)
  case (Cons sa l)
  have free: "sh_infos (snd (share_blob_free e p q t)) = sh_infos t" for p q t
    by (simp add: share_blob_free_def with_sh_def set_pool_def set_body_def upd_ko_def Let_def split: kobject_body.split)
  have dec: "sh_infos (snd (kobject_decref e p t)) = sh_infos t" for p t
    by (simp add: kobject_decref_def kobject_gc_collect_def Let_def upd_hdr_def upd_ko_def)
  obtain r s1 where 1: "share_action_dec e (sa_sh sa) (sa_si sa) s = Some (r, s1)"
    using Cons.prems [of sa] by (cases "share_action_dec e (sa_sh sa) (sa_si sa) s") (auto simp: share_action_dec_def)
  have i1: "sh_infos s1 = sh_infos s"
  proof -
    have "sh_infos (snd (bind_r (kobject_decref e p s) (\<lambda>_ s. share_blob_free e q b s))) = sh_infos s" for p q b
      using dec [of p s] free by (cases "kobject_decref e p s"; cases "fst (kobject_decref e p s)") auto
    from this [of "si_ko (sh_infos s (sa_si sa))" "sa_sh sa" "sa_si sa"] show ?thesis
      using 1 by (simp add: share_action_dec_def split: if_splits)
  qed
  obtain r2 s2 where 2: "share_blob_free e (sa_sh sa) (sa_blob sa) (s1\<lparr>sh_rm_list := (sh_rm_list s1)(arch_cpu e := l)\<rparr>) = (r2, s2)"
    by fastforce
  then have i2: "sh_infos s2 = sh_infos s" using free [of "sa_sh sa" "sa_blob sa" "s1\<lparr>sh_rm_list := (sh_rm_list s1)(arch_cpu e := l)\<rparr>"] i1 by simp
  have "scan_rm e l s2 \<noteq> None" using Cons.prems i2 by (intro Cons.IH) auto
  then show ?case using 1 2 by (cases r; cases r2) (auto simp: bind_w_def)
qed simp

text \<open>
  C22: the scan of the deferred actions waits for other processors only: when every check-out of the
  objects being removed was made by this processor, and is therefore on its own list, the scan
  returns.
\<close>

theorem share_action_scan_returns:
  assumes "\<And>sa. sa \<in> set (sh_rm_list s (arch_cpu e)) \<Longrightarrow>
      unat (si_co (sh_infos s (sa_si sa))) = count_list (map sa_si (sh_ci_list s (arch_cpu e))) (sa_si sa)"
  shows "\<exists>y. share_action_scan e s = Some y"
proof (cases "scan_ci e (sh_ci_list s (arch_cpu e)) s")
  case (Pair r s')
  show ?thesis
  proof (cases r)
    case (Ok u)
    have "si_co (sh_infos s' (sa_si sa)) = 0" if "sa \<in> set (sh_rm_list s (arch_cpu e))" for sa
      using scan_ci_infos(1) [of e _ s s' "sa_si sa"] Pair Ok assms [OF that, symmetric] by simp
    moreover have "sh_rm_list s' = sh_rm_list s" using scan_ci_infos(2) Pair Ok by simp
    ultimately have "scan_rm e (sh_rm_list s' (arch_cpu e)) s' \<noteq> None" by (intro scan_rm_returns) auto
    then show ?thesis using Pair Ok by (auto simp: share_action_scan_def bind_w_def)
  qed (use Pair in \<open>auto simp: share_action_scan_def bind_w_def\<close>)
qed

definition rm_example :: kst where
  "rm_example = (world kobj_device (KDevice \<lparr>dv_dh = 0\<rparr>))\<lparr>
     sh_infos := (\<lambda>_. \<lparr>si_ko = 7, si_co = 1, si_cnt = 0\<rparr>),
     sh_ci_list := (\<lambda>_. [])(0 := [\<lparr>sa_blob = (10, 80), sa_sh = 6, sa_si = (10, 0)\<rparr>]),
     sh_rm_list := (\<lambda>_. [])(0 := [\<lparr>sa_blob = (10, 120), sa_sh = 6, sa_si = (10, 0)\<rparr>])\<rparr>"

theorem share_action_scan_returns_witness:
  "\<exists>y. share_action_scan tiny_env rm_example = Some y"
  using share_action_scan_returns [of rm_example tiny_env]
  by (simp add: rm_example_def tiny_env_def tiny_numa_def)

end
