(* ===== verification/Kernel_Access.thy ===== *)
theory Kernel_Access
  imports Example_State
begin

text \<open>
  What the checks of user-supplied addresses and numbers guarantee, and what they let through.
\<close>

subsection \<open>Ranges of user memory\<close>

lemma unat_of_nat64: "n < 2 ^ 64 \<Longrightarrow> unat (of_nat n :: u64) = n"
  by (simp add: unsigned_of_nat take_bit_nat_eq_self)

lemma page_round:
  fixes x :: nat
  shows "x div 4096 * 4096 \<le> x" and "x \<le> (x + 4095) div 4096 * 4096"
proof -
  have "(x + 4095) div 4096 * 4096 + (x + 4095) mod 4096 = x + 4095" by (rule div_mult_mod_eq)
  moreover have "(x + 4095) mod 4096 < 4096" by simp
  ultimately show "x \<le> (x + 4095) div 4096 * 4096" by linarith
qed simp

lemma check_pages_below:
  "check_pages e at f va n s = (Ok (), s') \<Longrightarrow> i < n \<Longrightarrow> va + of_nat i * PGSIZE < ULIM"
proof (induction n arbitrary: va s i)
  case (Suc n)
  have va: "va < ULIM" using Suc.prems(1) by (simp split: if_splits)
  show ?case
  proof (cases i)
    case (Suc j)
    from Suc.prems(1) va obtain t where "check_pages e at f (va + PGSIZE) n t = (Ok (), s')"
      by (auto simp: Let_def with_at_def bind_r_Ok_iff split: kobject_body.splits option.splits prod.splits if_splits)
    from Suc.IH [OF this, of j] Suc.prems(2) Suc show ?thesis by (simp add: algebra_simps)
  qed (use va in simp)
qed simp

text \<open>
  C25: a range that \<open>check_user_access\<close> accepts lies below the kernel's addresses, when its end,
  rounded up to a page, does not exceed the largest address.
\<close>

theorem check_user_access_below_ulim:
  assumes "check_user_access e at p n f s = (Ok (), s')" and "unat p + unat n + 4096 \<le> 2 ^ 64" and n: "n \<noteq> 0"
  shows "unat p + unat n \<le> unat ULIM"
proof -
  let ?a = "ROUNDDOWN p PGSIZE" and ?b = "ROUNDUP (p + n) PGSIZE"
  let ?k = "unat ((?b - ?a) div PGSIZE)"
  have P: "unat PGSIZE = 4096" by (simp add: PGSIZE_def)
  have pn: "unat (p + n) = unat p + unat n" using assms(2) by (simp add: unat_word_ariths)
  have a: "unat ?a = unat p div 4096 * 4096" using unat_ROUNDDOWN [of PGSIZE p] P by simp
  have b: "unat ?b = (unat p + unat n + 4095) div 4096 * 4096"
    using unat_ROUNDUP [of PGSIZE "p + n"] P pn assms(2) by simp
  have n0: "0 < unat n" using n by (simp add: unat_gt_0)
  have ab: "unat ?a < unat ?b" unfolding a b using n0 page_round(1) [of "unat p"] page_round(2) [of "unat p + unat n"] by linarith
  with assms(1) n have c: "check_pages e at f ?a ?k s = (Ok (), s')"
    by (simp add: check_user_access_def Let_def word_le_nat_alt)
  have k: "?k * 4096 = unat ?b - unat ?a"
  proof -
    have "?k = (unat ?b - unat ?a) div 4096"
      using ab by (simp add: unat_div P unat_sub word_le_nat_alt)
    moreover have "4096 dvd unat ?b - unat ?a" unfolding a b by (intro dvd_diff_nat) auto
    ultimately show ?thesis by simp
  qed
  then have k0: "0 < ?k" using ab by (cases ?k) auto
  have "?a + of_nat (?k - 1) * PGSIZE < ULIM" using check_pages_below [OF c, of "?k - 1"] k0 by simp
  moreover have "unat (?a + of_nat (?k - 1) * PGSIZE) = unat ?a + (?k - 1) * 4096"
  proof -
    have lt: "unat ?a + (?k - 1) * 4096 < 2 ^ 64"
      using k k0 unat_less64 [of ?b] by (cases ?k) auto
    have "(of_nat (unat ?a + (?k - 1) * 4096) :: u64) = ?a + of_nat (?k - 1) * PGSIZE" by (simp add: PGSIZE_def)
    then show ?thesis using lt by (metis unat_of_nat64)
  qed
  ultimately have "unat ?a + (?k - 1) * 4096 < unat ULIM" by (simp add: word_less_nat_alt)
  moreover have "unat ?a + (?k - 1) * 4096 = unat ?b - 4096" using k k0 ab by (cases ?k) auto
  ultimately have "unat ?b - 4096 < unat ULIM" by simp
  moreover have "4096 dvd unat ?b" unfolding b by simp
  moreover have "unat ULIM = 4096 * 34359738368" by (simp add: ULIM_def)
  ultimately have "unat ?b \<le> unat ULIM" by (auto elim!: dvdE)
  moreover have "unat p + unat n \<le> unat ?b" unfolding b by (rule page_round(2))
  ultimately show "unat p + unat n \<le> unat ULIM" by simp
qed

text \<open>Page 11 as a page map whose first entry maps the page itself, so that address 0 is mapped.\<close>

definition self_mapped :: "kst \<Rightarrow> kst" where
  "self_mapped s = s\<lparr>km := (km s)\<lparr>page_words := (page_words (km s))(11 := (replicate 512 0)[0 := 0xB007])\<rparr>\<rparr>"

lemma self_mapped_lookup:
  assumes "page_words m 11 ! 0 = 0xB007"
  shows "page_lookup nm 11 0 m = (Ok (Some (11, 0xB007)), m)"
proof -
  have t: "page_map_traverse_internal nm \<lparr>PM_TRAV_CREATE = False, PM_TRAV_LINK = False\<rparr> pgdir_walk_cb 0 l 11 0 0 va (a, m) =
      (Ok (), Some (11, 0), m)" for l va a
    using assms
    by (induction l arbitrary: va a)
      (simp_all add: PDX_def pm_ent_def pte_bits pte_page_def PTE_ADDR_def Let_def pgdir_walk_cb_def)
  show ?thesis
    using assms by (simp add: page_lookup_def ULIM_def pgdir_walk_def t pm_ent_def pte_bits pte_page_def PTE_ADDR_def)
qed

definition example_at :: Address_tree where
  "example_at = null_at\<lparr>at_pgmap := Some 11, at_uaddrmap :=
     \<lparr>da_pt = (pagetree_init False 0)\<lparr>pt_direct := [\<lparr>pe_page = Some 12, pe_mode = page_excl\<rparr>, null_pe, null_pe]\<rparr>,
      da_pid = 0, da_pp = 73, da_esz = 56, da_nent = 1, da_demand = False\<rparr>\<rparr>"

lemma self_mapped_check:
  assumes "page_words (km s) 11 ! 0 = 0xB007" "ko_body (kobjs s at) = KAddress_tree A" "at_pgmap A = Some 11"
    and "unat p + unat n \<le> 4096" "n \<noteq> 0"
  shows "check_user_access e at p n SEGMAP_WRITE s = (Ok (), s)"
proof -
  have P: "unat PGSIZE = 4096" by (simp add: PGSIZE_def)
  have n0: "0 < unat n" using assms(5) by (simp add: unat_gt_0)
  have pn: "unat (p + n) = unat p + unat n" using assms(4) by (simp add: unat_word_ariths)
  have "unat (ROUNDDOWN p PGSIZE) = 0" using unat_ROUNDDOWN [of PGSIZE p] P assms(4) n0 by simp
  then have a: "ROUNDDOWN p PGSIZE = 0" by (simp add: unsigned_eq_0_iff)
  have "(unat p + unat n + 4095) div 4096 = 1" by (rule div_nat_eqI) (use assms(4) n0 in simp_all)
  then have "unat (ROUNDUP (p + n) PGSIZE) = unat PGSIZE" using unat_ROUNDUP [of PGSIZE "p + n"] P pn assms(4) by simp
  then have b: "ROUNDUP (p + n) PGSIZE = PGSIZE" by (simp only: word_unat_eq_iff)
  have k: "unat ((PGSIZE - 0) div PGSIZE) = Suc 0" "PGSIZE \<noteq> 0" by (simp_all add: PGSIZE_def)
  have "check_pages e at SEGMAP_WRITE 0 (Suc 0) s = (Ok (), s)"
    using assms(1,2,3) by (simp add: ULIM_def with_at_def on_mem_def self_mapped_lookup pte_bits segmap_bits Let_def)
  then show ?thesis using assms(5) unfolding check_user_access_def a b Let_def k by (simp add: k del: check_pages.simps)
qed

lemma self_mapped_simps [simp]:
  "page_words (km (self_mapped s)) 11 = (replicate 512 0)[0 := 0xB007]" "kobjs (self_mapped s) = kobjs s"
  "p \<noteq> 11 \<Longrightarrow> page_words (km (self_mapped s)) p = page_words (km s) p"
  by (simp_all add: self_mapped_def)

theorem check_user_access_below_ulim_witness:
  "fst (check_user_access tiny_env 7 0x10 0x20 SEGMAP_WRITE (self_mapped (world kobj_address_tree (KAddress_tree example_at)))) = Ok () \<and>
   unat (0x10 :: u64) + unat (0x20 :: u64) \<le> unat ULIM"
proof -
  let ?s = "self_mapped (world kobj_address_tree (KAddress_tree example_at))"
  have "check_user_access tiny_env 7 0x10 0x20 SEGMAP_WRITE ?s = (Ok (), ?s)"
    by (rule self_mapped_check [of _ _ example_at]) (simp_all add: example_at_def)
  then show ?thesis using check_user_access_below_ulim [of tiny_env 7 "0x10" "0x20" SEGMAP_WRITE ?s ?s] by simp
qed

text \<open>
  C26: nothing notices that the end of a range wraps around: a request for all but the first \<open>k\<close>
  bytes of the address space, from an address more than \<open>k\<close> bytes into its page, is checked like a
  request for a single byte.
\<close>

theorem check_user_access_wraps:
  assumes "0 < k" "k < unat p mod 4096" and "unat p + 8192 \<le> 2 ^ 64"
  shows "check_user_access e at p (- of_nat k) f s = check_user_access e at p 1 f s"
proof -
  have P: "unat PGSIZE = 4096" by (simp add: PGSIZE_def)
  have k: "k < 4096" using assms(2) by (metis mod_less_divisor less_trans zero_less_numeral)
  then have uk: "unat (of_nat k :: u64) = k" by (intro unat_of_nat64) simp
  have pk: "unat (p - of_nat k) = unat p - k"
  proof -
    have "of_nat k \<le> p"
      using order_trans [OF less_imp_le [OF assms(2)] mod_less_eq_dividend] by (simp add: word_le_nat_alt uk)
    then show ?thesis by (simp add: unat_sub uk)
  qed
  have p1: "unat (p + 1) = unat p + 1" using assms(3) by (simp add: unat_word_ariths)
  have "unat (ROUNDUP (p - of_nat k) PGSIZE) = (unat p - k + 4095) div 4096 * 4096"
    using unat_ROUNDUP [of PGSIZE "p - of_nat k"] P pk assms(3) by simp
  moreover have "unat (ROUNDUP (p + 1) PGSIZE) = (unat p + 4096) div 4096 * 4096"
    using unat_ROUNDUP [of PGSIZE "p + 1"] P p1 assms(3) by simp
  moreover have "(unat p - k + 4095) div 4096 = (unat p + 4096) div 4096"
  proof -
    define q r where "q = unat p div 4096" and "r = unat p mod 4096"
    have q: "unat p = 4096 * q + r" "r < 4096" "k < r" using assms(2) by (simp_all add: q_def r_def)
    have "(unat p - k + 4095) div 4096 = q + 1" by (rule div_nat_eqI) (use q assms(1) in simp_all)
    moreover have "(unat p + 4096) div 4096 = q + 1" by (rule div_nat_eqI) (use q in simp_all)
    ultimately show ?thesis by simp
  qed
  ultimately have "ROUNDUP (p + - of_nat k) PGSIZE = ROUNDUP (p + 1) PGSIZE"
    by (simp add: word_unat_eq_iff)
  moreover have "(- of_nat k :: u64) \<noteq> 0" using uk assms(1) by (metis neg_equal_0_iff_equal unsigned_0 less_irrefl)
  ultimately show ?thesis by (simp add: check_user_access_def)
qed

theorem check_user_access_wraps_witness:
  "check_user_access tiny_env 7 0x1800 0xFFFFFFFFFFFFFF00 SEGMAP_WRITE (kst0 tiny_mem) =
   check_user_access tiny_env 7 0x1800 1 SEGMAP_WRITE (kst0 tiny_mem)"
proof -
  have n: "(0xFFFFFFFFFFFFFF00 :: u64) = - of_nat 256" by simp
  show ?thesis unfolding n by (rule check_user_access_wraps) simp_all
qed

subsection \<open>Mappings stored in pages\<close>

lemma ld_st_words:
  assumes "fst a = fst b" "snd a = snd b" "snd a div 8 + i + length ws \<le> length (page_words m (fst a))" "i \<le> j" "j < i + length ws"
  shows "ld (st_words a i ws m) b j = ws ! (j - i)"
  using assms
proof (induction ws arbitrary: i m)
  case (Cons w ws)
  have keep: "ld (st_words a k us m') a j = ld m' a j" if "j < k" for k us m'
    using that by (induction us arbitrary: k m') (simp_all add: ld_def st_def)
  show ?case
  proof (cases "j = i")
    case True
    then show ?thesis using Cons.prems keep [of "Suc i" ws "st a i w m"] by (simp add: ld_def st_def prod_eq_iff)
  next
    case False
    then have "ld (st_words a (Suc i) ws (st a i w m)) b j = ws ! (j - Suc i)"
      using Cons.prems by (intro Cons.IH) (simp_all add: st_def)
    then show ?thesis using False Cons.prems by (simp add: nth_Cons' Suc_diff_Suc)
  qed
qed simp

lemma halves: "ucast (ucast k OR push_bit 32 (ucast f) :: u64) = (k :: u32)"
  "ucast (drop_bit 32 (ucast k) OR drop_bit 32 (push_bit 32 (ucast f)) :: u64) = (f :: u32)"
  "ucast (ucast k :: u64) = (k :: u32)"
  by (rule bit_word_eqI; auto simp: bit_simps dest: bit_imp_le_length)+

text \<open>
  A mapping that is stored in the words of an array page reads back as it was, the slot number
  and the flags, which share a word, included.
\<close>

theorem uam_round_trip:
  assumes "snd a + 56 \<le> 4096" "length (page_words m (fst a)) = 512"
  shows "ld_uam (st_uam a u m) a = u"
proof -
  have "snd a div 8 + 7 \<le> 512" using assms(1) by simp
  then have "ld (st_uam a u m) a j = uam_words u ! j" if "j < 7" for j
    using ld_st_words [of a a 0 "uam_words u" m j] assms(2) that by (simp add: st_uam_def uam_words_def)
  then show ?thesis by (simp add: ld_uam_def uam_words_def halves SOBJ_def)
qed

theorem uam_round_trip_witness:
  "uam_flags (ld_uam (st_uam (12, 112) (null_uam\<lparr>uam_flags := 7, uam_kslot := 9\<rparr>) tiny_mem) (12, 112)) = 7"
  using uam_round_trip [of "(12, 112)" tiny_mem "null_uam\<lparr>uam_flags := 7, uam_kslot := 9\<rparr>"] by (simp add: tiny_mem_def)

subsection \<open>Setting the mappings of a tree\<close>

lemma snd_elem_ptr: "snd (elem_ptr x) = snd x"
  by (cases x; cases "fst x") (auto simp: elem_ptr_def split: option.split)

lemma upd_at_ustores [simp]: "ustores (upd_at p f s) = ustores s"
  by (simp add: upd_at_def set_body_def upd_ko_def split: kobject_body.split)

lemma get_uaddrmap_ustores: "ustores (snd (at_get_uaddrmap e at i s)) = ustores s"
  by (simp add: at_get_uaddrmap_def with_at_def snd_elem_ptr Let_def split: kobject_body.split prod.split)

lemma from_user_loop_writes:
  assumes "from_user_loop e at ents uat l s = (Ok (), s')"
  shows "set (ustores s) \<subseteq> set (ustores s') \<and>
    (\<forall>i\<in>set l. i < uat_nent uat \<longrightarrow> (uat_ents uat + i * UADDRMAP_SIZE + 24, [i]) \<in> set (ustores s'))"
  using assms
proof (induction l arbitrary: s)
  case (Cons i l)
  from Cons.prems obtain a s1 where a: "at_get_uaddrmap e at i s = (Ok a, s1)" by (auto simp: bind_r_Ok_iff)
  have same: "ustores s1 = ustores s" using get_uaddrmap_ustores [of e at i s] a by simp
  show ?case
  proof (cases "i < uat_nent uat")
    case True
    with Cons.prems a obtain u m where
      "from_user_loop e at ents uat l (write_back (uat_ents uat + i * UADDRMAP_SIZE) u i (s1\<lparr>km := m\<rparr>)) = (Ok (), s')"
      by (auto simp: Let_def split: option.splits)
    from Cons.IH [OF this] same show ?thesis by (auto simp: write_back_def ustore_def)
  next
    case False
    with Cons.prems a obtain m where "from_user_loop e at ents uat l (s1\<lparr>km := m\<rparr>) = (Ok (), s')"
      by (auto simp: Let_def)
    from Cons.IH [OF this] same False show ?thesis by auto
  qed
qed simp

lemma at_invalidate_ustores: "ustores (snd (at_invalidate e at ps s)) = ustores s"
  by (auto simp: at_invalidate_def with_at_def with_ps_def at_invalidate_range_def on_mem_def
    split: kobject_body.split option.split prod.split)

lemma for_each_ustores:
  "(\<And>x s. ustores (snd (f x s)) = ustores s) \<Longrightarrow> ustores (snd (for_each f l s)) = ustores s"
proof (induction l arbitrary: s)
  case (Cons x l)
  then show ?case by (cases "f x s"; cases "fst (f x s)") (auto, (metis snd_conv)+)
qed simp

text \<open>
  C27: with a size of zero nothing is checked of the user's array, and still every entry gets its slot
  number written back, wherever the array is said to be.
\<close>

theorem at_from_user_writes_unchecked:
  assumes size: "uat_size uat = 0" and ps: "processor_sched e s = Some ps" "ko_body (kobjs s ps) = KProcessor P" "ps_at P = Some cur"
    and chk: "check_user_access e cur uatp 48 SEGMAP_WRITE s = (Ok (), s1)"
    and A1: "ko_body (kobjs s1 at) = KAddress_tree A1" "uat_nent uat \<le> at_nents A1"
    and clr: "at_clear_mappings e at s1 = (Ok (), s2)"
    and A2: "ko_body (kobjs s2 at) = KAddress_tree A2" and i: "i < at_nents A2" "i < uat_nent uat"
    and run: "at_from_user e at uatp (Some uat) ents s = (Ok (), s')"
  shows "(uat_ents uat + i * UADDRMAP_SIZE + 24, [i]) \<in> set (ustores s')"
proof -
  have c: "at_check_uat e cur uatp (Some uat) s = (Ok uat, s1)"
    using chk size by (simp add: at_check_uat_def safe_mul64_def check_user_access_def [of e cur "uat_ents uat"] UADDRMAP_SIZE_def)
  have nl: "\<not> at_nents A1 < uat_nent uat" using A1(2) by simp
  let ?l = "slot_range (at_nents A2)"
  obtain r s3 where l: "from_user_loop e at ents uat ?l s2 = (r, s3)" by fastforce
  let ?s4 = "upd_at at (\<lambda>A. A\<lparr>at_utrap_entry := uat_trap_handler uat, at_utrap_stack_base := uat_trap_stack_base uat,
              at_utrap_stack_top := uat_trap_stack_top uat\<rparr>) s3"
  have eq: "at_from_user e at uatp (Some uat) ents s =
      (case r of Panic \<Rightarrow> (Panic, s3)
       | Err er \<Rightarrow> with_at at s3 (\<lambda>A. bind_r (for_each (at_invalidate e at) (at_ps_list A) s3) (\<lambda>_ s. (Err er, s)))
       | Ok _ \<Rightarrow> with_at at ?s4 (\<lambda>A. bind_r (for_each (at_invalidate e at) (at_ps_list A) ?s4) (\<lambda>_ s. (Ok (), s))))"
    using A1(1) by (cases r) (simp_all add: at_from_user_def current_at_def with_ps_def ps c with_at_def nl clr A2 l Let_def)
  have r: "r = Ok ()"
    using run unfolding eq by (cases r) (auto simp: with_at_def bind_r_Ok_iff split: kobject_body.splits)
  have "i \<in> set ?l"
    using i(1) by (auto simp: slot_range_def word_less_nat_alt intro!: image_eqI [of _ _ "unat i"])
  with from_user_loop_writes [OF l [unfolded r]] i(2)
  have mem: "(uat_ents uat + i * UADDRMAP_SIZE + 24, [i]) \<in> set (ustores s3)" by blast
  have "with_at at ?s4 (\<lambda>A. bind_r (for_each (at_invalidate e at) (at_ps_list A) ?s4) (\<lambda>_ s. (Ok (), s))) = (Ok (), s')"
    using run unfolding eq r by simp
  then obtain l' where "for_each (at_invalidate e at) l' ?s4 = (Ok (), s')"
    by (auto simp: with_at_def bind_r_Ok_iff split: kobject_body.splits)
  then have "ustores s' = ustores s3"
    using for_each_ustores [of "at_invalidate e at" l' ?s4, OF at_invalidate_ustores] by simp
  with mem show ?thesis by simp
qed

lemma upd_at_id: "ko_body (kobjs s p) = KAddress_tree A \<Longrightarrow> f A = A \<Longrightarrow> upd_at p f s = s"
  by (cases "kobjs s p") (simp add: upd_at_def set_body_def upd_ko_def fun_upd_idem)

lemma body_upd_at: "ko_body (kobjs s p) = KAddress_tree A \<Longrightarrow> ko_body (kobjs (upd_at p f s) p) = KAddress_tree (f A)"
  by (simp add: upd_at_def set_body_def upd_ko_def)

lemma kobjs_write_back [simp]: "kobjs (write_back p u i s) = kobjs s"
  by (simp add: write_back_def ustore_def)

text \<open>The tree of the example is the one the processor runs on; its only slot is empty.\<close>

definition running_at :: kst where
  "running_at = upd_ps 5 (\<lambda>P. P\<lparr>ps_at := Some 7\<rparr>) (self_mapped (world kobj_address_tree (KAddress_tree example_at)))"

lemma running_at_simps [simp]:
  "ko_body (kobjs running_at 5) = KProcessor (world_ps\<lparr>ps_at := Some 7\<rparr>)"
  "ko_body (kobjs running_at 7) = KAddress_tree example_at" "processor_sched tiny_env running_at = Some 5"
  "page_words (km running_at) 11 ! 0 = 0xB007" "page_words (km running_at) 12 = replicate 512 0"
  by (simp_all add: running_at_def upd_ps_def set_body_def upd_ko_def processor_sched_def self_mapped_def world_mem_def
    tiny_mem_def tiny_env_def tiny_numa_def)

lemma running_at_slot: "at_get_uaddrmap tiny_env 7 0 running_at = (Ok (12, 0), running_at)"
proof -
  have "darray_get nm 0 page_excl (at_uaddrmap example_at, m) = (Ok (Some 12, 0), at_uaddrmap example_at, m)" for nm m
    by (simp add: darray_get_def example_at_def pagetree_get_page_def pagetree_get_entp_def pagetree_layout Let_def pagetree_init_def)
  then show ?thesis
    by (simp add: at_get_uaddrmap_def with_at_def elem_ptr_def upd_at_id [of _ _ example_at])
qed

lemma running_at_clear: "at_clear_mappings tiny_env 7 running_at = (Ok (), running_at)"
proof -
  have "clear_slot tiny_env 7 0 running_at = (Ok (), running_at)"
    by (simp add: clear_slot_def running_at_slot assert_ok_def ld_uam_def ld_def)
  moreover have "slot_range (at_nents example_at) = [0]"
    by (simp add: slot_range_def at_nents_def darray_get_nent_def example_at_def)
  ultimately show ?thesis by (simp add: at_clear_mappings_def with_at_def)
qed

theorem at_from_user_writes_unchecked_witness:
  "\<exists>s'. at_from_user tiny_env 7 0x10 (Some \<lparr>uat_size = 0, uat_nent = 1, uat_ents = PHYSBASE, uat_trap_handler = 0,
          uat_trap_stack_base = 0, uat_trap_stack_top = 0\<rparr>) (\<lambda>_. Some null_uam) running_at = (Ok (), s') \<and>
     (PHYSBASE + 24, [0]) \<in> set (ustores s')"
proof -
  let ?uat = "\<lparr>uat_size = 0, uat_nent = 1, uat_ents = PHYSBASE, uat_trap_handler = 0,
          uat_trap_stack_base = 0, uat_trap_stack_top = 0\<rparr>"
  have chk: "check_user_access tiny_env 7 0x10 48 SEGMAP_WRITE running_at = (Ok (), running_at)"
    by (rule self_mapped_check [of _ _ example_at]) (simp_all add: example_at_def)
  have n: "at_nents example_at = 1" by (simp add: at_nents_def example_at_def darray_get_nent_def)
  obtain s' where s': "at_from_user tiny_env 7 0x10 (Some ?uat) (\<lambda>_. Some null_uam) running_at = (Ok (), s')"
    by (simp add: at_from_user_def current_at_def with_ps_def at_check_uat_def chk safe_mul64_def with_at_def n running_at_clear
      slot_range_def running_at_slot Let_def check_user_access_def [of _ _ PHYSBASE]
      body_upd_at [of _ _ example_at]) (simp add: example_at_def null_at_def)
  show ?thesis
    using at_from_user_writes_unchecked [OF _ _ _ _ chk _ _ running_at_clear _ _ _ s', of 5 "world_ps\<lparr>ps_at := Some 7\<rparr>" example_at example_at 0] s'
    by (simp add: n)
qed

end
