(* ===== verification/Kernel_Control.thy ===== *)
theory Kernel_Control
  imports Example_State
begin

text \<open>
  Control flow of the kernel: trap delivery, halting, device slots, the modes of processors, and the
  distances between processors.
\<close>

subsection \<open>Traps delivered to programs\<close>

text \<open>
  C28: a trap that a program handles itself pushes one frame with the saved registers on the trap
  stack, below the words for pending traps and, on a nested trap, below the red zone of the
  interrupted code; the program continues at its handler with further traps masked.
\<close>

theorem utrap_frame_placed:
  fixes tf :: Trapframe
  assumes ps: "ko_body (kobjs s ps) = KProcessor P" "ps_mode P \<noteq> ps_mode_vm" "ps_at P = Some at"
    and at: "ko_body (kobjs s at) = KAddress_tree A" and g: "\<not> uaccess s (arch_cpu e)"
    and top: "288 \<le> unat (at_utrap_stack_top A)" "at_utrap_stack_base A < tf_rsp (ps_tf P) \<Longrightarrow> 288 \<le> unat (tf_rsp (ps_tf P))"
  defines "utf \<equiv> utrap_stacktop A (tf_rsp (ps_tf P)) - UTRAPFRAME_SIZE"
    and "P' \<equiv> P\<lparr>ps_tf := (ps_tf P)\<lparr>tf_rsp := utrap_stacktop A (tf_rsp (ps_tf P)) - UTRAPFRAME_SIZE,
                 tf_rip := at_utrap_entry A, tf_cs := GD_UT_MASK\<rparr>\<rparr>"
  assumes w: "um_wr u utf"
  shows "\<exists>s'. processor_arch_utrap e u ps trapno arg s = (Ok (), s') \<and>
     ustores s' = (utf, utrap_words (ps_tf P) trapno arg) # ustores s \<and> ko_body (kobjs s' ps) = KProcessor P' \<and>
     processor_arch_is_masked P' \<and> uaccess s' = uaccess s \<and>
     unat utf + 160 \<le> unat (at_utrap_stack_top A) - 16 \<and>
     (at_utrap_stack_base A < tf_rsp (ps_tf P) \<and> tf_rsp (ps_tf P) \<le> at_utrap_stack_top A \<longrightarrow>
        unat utf + 160 + 128 = unat (tf_rsp (ps_tf P)))"
proof -
  let ?s = "s\<lparr>uaccess := (uaccess s)(arch_cpu e := False), ustores := (utf, utrap_words (ps_tf P) trapno arg) # ustores s\<rparr>"
  have "put_user e u utf (utrap_words (ps_tf P) trapno arg) s = (Ok (), ?s)"
    using g w by (simp add: put_user_def uaccess_start_def uaccess_stop_def ustore_def)
  then have r: "processor_arch_utrap e u ps trapno arg s = (Ok (), upd_ps ps (\<lambda>P. P\<lparr>ps_tf := (ps_tf P)\<lparr>tf_rsp := utf,
       tf_rip := at_utrap_entry A, tf_cs := GD_UT_MASK\<rparr>\<rparr>) ?s)"
    using ps at by (simp add: processor_arch_utrap_def with_ps_def ps_address_tree_def with_at_def Let_def utf_def)
  have u: "unat (x - 128 - 160) + 160 + 128 = unat x" if "288 \<le> unat x" for x :: u64
  proof -
    have "288 \<le> x" using that by (simp add: word_le_nat_alt)
    then have "unat (x - 288) = unat x - 288" by (simp add: unat_sub)
    then show ?thesis using that by (simp add: diff_diff_eq)
  qed
  have v: "unat (x - 16 - 160) + 160 = unat x - 16" if "288 \<le> unat x" for x :: u64
  proof -
    have "176 \<le> x" using that by (simp add: word_le_nat_alt)
    then have "unat (x - 176) = unat x - 176" by (simp add: unat_sub)
    then show ?thesis using that by (simp add: diff_diff_eq)
  qed
  have nested: "unat utf + 160 + 128 = unat (tf_rsp (ps_tf P))"
    if "at_utrap_stack_base A < tf_rsp (ps_tf P) \<and> tf_rsp (ps_tf P) \<le> at_utrap_stack_top A"
    using that u [OF top(2)] by (simp add: utf_def utrap_stacktop_def UTRAPFRAME_SIZE_def)
  moreover have "unat utf + 160 \<le> unat (at_utrap_stack_top A) - 16"
    using nested v [OF top(1)] top(1)
    by (cases "at_utrap_stack_base A < tf_rsp (ps_tf P) \<and> tf_rsp (ps_tf P) \<le> at_utrap_stack_top A")
      (auto simp: utf_def utrap_stacktop_def UTRAPFRAME_SIZE_def word_le_nat_alt)
  moreover have "processor_arch_is_masked P'" using ps(2) by (simp add: P'_def processor_arch_is_masked_def)
  moreover have "(uaccess s)(arch_cpu e := False) = uaccess s" using g by (simp add: fun_upd_idem)
  ultimately show ?thesis
    unfolding r using ps(1) by (simp add: upd_ps_def set_body_def upd_ko_def P'_def utf_def)
qed

definition trap_ps :: Processor where
  "trap_ps = (new_processor 0 5)\<lparr>ps_at := Some 7, ps_running := True, ps_tf := null_tf\<lparr>tf_rsp := 0x1800\<rparr>\<rparr>"

definition trap_at :: Address_tree where
  "trap_at = null_at\<lparr>at_utrap_entry := 0x4000, at_utrap_stack_base := 0x1000, at_utrap_stack_top := 0x2000\<rparr>"

theorem utrap_frame_placed_witness:
  "\<exists>s'. processor_arch_utrap tiny_env \<lparr>um_rd = \<lambda>_. None, um_wr = \<lambda>_. True\<rparr> 5 3 0
          (world_of trap_ps kobj_address_tree (KAddress_tree trap_at)) = (Ok (), s')"
  using utrap_frame_placed [of "world_of trap_ps kobj_address_tree (KAddress_tree trap_at)" 5 trap_ps 7 trap_at tiny_env
      "\<lparr>um_rd = \<lambda>_. None, um_wr = \<lambda>_. True\<rparr>" 3 0]
  by (auto simp: trap_ps_def trap_at_def new_processor_def)

subsection \<open>Halting\<close>

text \<open>
  Once a processor has halted itself, another request to halt or to flush its translations, sent
  before it gets new work, stops the kernel.
\<close>

theorem halted_processor_ipi_panics:
  assumes "halt e ps s = (Ok True, s')" and P: "ko_body (kobjs s ps) = KProcessor P" "ps_pid P = arch_cpu e"
    and "trapno \<in> {T_HALT, T_TLBFLUSH}"
  shows "fst (trap_dispatch e dr u mc trapno tf err cr2 s') = Panic"
proof -
  have kob: "processors (upd_ps p f t) = processors t" for p f t
    by (simp add: upd_ps_def set_body_def upd_ko_def split: kobject_body.split)
  from assms(1) P obtain t where "s' = upd_ps ps (\<lambda>P. P\<lparr>ps_running := False\<rparr>) (t\<lparr>processors := (processors t)(ps_pid P := None)\<rparr>)"
    by (auto simp: halt_def halt_depth_def numeral_2_eq_2 with_ps_def bind_r_Ok_iff split: if_splits)
  then have "processor_sched e s' = None" using P(2) by (simp add: processor_sched_def kob)
  then show ?thesis using assms(4) by (auto simp: trap_dispatch_def T_HALT_def T_TLBFLUSH_def T_NMI_def)
qed

lemma clear_empty_sharemap:
  assumes "ko_body (kobjs s p) = KProcessor P" "sm_map (ps_sharemap P) = map_init pid"
  shows "fst (sharemap_clear h e p s) = Ok ()"
proof -
  have v: "map_vals e (map_init pid) s = []"
    by (simp add: map_vals_def map_init_def null_slot_def hashiter_next_def map_iter_init_def hashiter_init_def slot_table_def)
  obtain mp m where "map_free (ke_numa e) (map_init pid, km s) = (Ok (), mp, m)"
    by (simp add: map_free_def map_init_def null_slot_def pagetree_free_def pagetree_init_def pagetree_layout
      PAGETREE_DIRECT_ENTRIES_def PAGETREE_INDIRECT_ENTRIES_def null_pe_def numeral_eq_Suc Let_def)
  then show ?thesis using assms by (simp add: sharemap_clear_def with_ps_def v)
qed

theorem halted_processor_ipi_panics_witness:
  "case halt tiny_env 5 (world_of trap_ps kobj_address_tree (KAddress_tree trap_at)) of
     (r, s') \<Rightarrow> r = Ok True \<and>
       fst (trap_dispatch tiny_env undefined undefined undefined T_TLBFLUSH null_tf 0 0 s') = Panic"
proof -
  let ?s = "world_of trap_ps kobj_address_tree (KAddress_tree trap_at)"
  have "fst (halt tiny_env 5 ?s) = Ok True"
  proof -
    let ?s1 = "?s\<lparr>cr3 := (cr3 ?s)(0 := None)\<rparr>"
    have cpu: "arch_cpu tiny_env = 0" by (simp add: tiny_env_def tiny_numa_def)
    let ?s2 = "upd_at 7 (\<lambda>A. A\<lparr>at_ps_list := []\<rparr>) ?s1"
    have d: "at_detach (Some 7) 5 ?s1 = (Ok (), ?s2)"
      by (simp add: at_detach_def with_ps_def with_at_def trap_ps_def trap_at_def null_at_def upd_at_def)
    let ?s3 = "(upd_ps 5 (\<lambda>P. P\<lparr>ps_at := None, ps_atref := SOBJ 0 0\<rparr>) ?s2)"
    let ?s4 = "?s3\<lparr>timer_hz := (timer_hz ?s3)(0 := 0)\<rparr>"
    have t: "timer_interval_time tiny_env 0 0 ?s3 = (Ok (), ?s4)" by (simp add: timer_interval_time_def tiny_env_def)
    have b: "ko_body (kobjs ?s4 5) = KProcessor (trap_ps\<lparr>ps_at := None, ps_atref := SOBJ 0 0\<rparr>)"
      by (simp add: upd_ps_def upd_at_def set_body_def upd_ko_def)
    have "fst (sharemap_clear (processor_halt (Suc 0) tiny_env) tiny_env 5 ?s4) = Ok ()"
      by (rule clear_empty_sharemap [OF b, of 0]) (simp add: trap_ps_def new_processor_def sharemap_init_def)
    then obtain s5 where c: "sharemap_clear (processor_halt (Suc 0) tiny_env) tiny_env 5 ?s4 = (Ok (), s5)"
      by (metis prod.collapse)
    have P: "ps_pid trap_ps = 0" "ps_at trap_ps = Some 7" by (simp_all add: trap_ps_def new_processor_def)
    show ?thesis
      unfolding halt_def halt_depth_def numeral_2_eq_2 processor_halt.simps(2) [of "Suc 0"]
      by (simp add: with_ps_def processor_sched_def cpu at_set_current_def d t c P del: processor_halt.simps)
  qed
  then obtain s' where s': "halt tiny_env 5 ?s = (Ok True, s')" by (cases "halt tiny_env 5 ?s") auto
  then show ?thesis
    using halted_processor_ipi_panics [OF s', of trap_ps T_TLBFLUSH]
    by (simp add: trap_ps_def new_processor_def tiny_env_def tiny_numa_def)
qed

subsection \<open>What system calls let through\<close>

text \<open>
  Index 32 passes the check of \<open>processor_set_device\<close>; with a null share the store clears the
  address tree of the processor, and its next page fault in user mode stops the kernel.
\<close>

theorem set_device_clobbers_tree:
  assumes "ko_body (kobjs s ps) = KProcessor P" and "processor_set_device ps 32 (SOBJ 0 ob) s = (Ok (), s')"
    and "tf_cs tf AND 3 \<noteq> 0"
  shows "fst (page_fault e u ps tf err va s') = Panic"
proof -
  have "ko_body (kobjs s' ps) = KProcessor (P\<lparr>ps_at := None, ps_atref := (ps_atref P)\<lparr>so_share := ob\<rparr>\<rparr>)"
    using assms(1,2)
    by (auto simp: processor_set_device_def with_ps_def NDEVICES_PER_MONITOR_def upd_ps_def set_body_def upd_ko_def
      SOBJ_def word_ptr_def)
  then show ?thesis using assms(3) by (simp add: page_fault_def processor_pagefault_def with_ps_def)
qed

theorem set_device_clobbers_tree_witness:
  "case processor_set_device 5 32 (SOBJ 0 9) (world_of trap_ps kobj_address_tree (KAddress_tree trap_at)) of
     (r, s') \<Rightarrow> r = Ok () \<and> fst (page_fault tiny_env undefined 5 (null_tf\<lparr>tf_cs := GD_UT_NMASK OR 3\<rparr>) 0 0x3000 s') = Panic"
proof -
  let ?s = "world_of trap_ps kobj_address_tree (KAddress_tree trap_at)"
  have "fst (processor_set_device 5 32 (SOBJ 0 9) ?s) = Ok ()"
    by (simp add: processor_set_device_def with_ps_def NDEVICES_PER_MONITOR_def)
  then obtain s' where s': "processor_set_device 5 32 (SOBJ 0 9) ?s = (Ok (), s')"
    by (cases "processor_set_device 5 32 (SOBJ 0 9) ?s") auto
  then show ?thesis
    using set_device_clobbers_tree [OF _ s', of trap_ps "null_tf\<lparr>tf_cs := GD_UT_NMASK OR 3\<rparr>"] by (simp add: GD_UT_NMASK_def)
qed

text \<open>
  \<open>processor_vector\<close> accepts a mode that does not exist, and the processor that is started that way
  stops the kernel when it is run.
\<close>

theorem vector_bad_mode_panics:
  assumes "processor_vector e ps uc s = (Ok (), s')" and "uc_mode uc = ps_mode_bad w"
  shows "fst (processor_arch_run ps s') = Panic"
proof -
  from assms(1) obtain t c Q where "s' = (upd_ps ps (\<lambda>P. P\<lparr>ps_at := Some Q, ps_atref := uc_at uc, ps_mode := uc_mode uc,
                                   ps_running := True, ps_halt := False\<rparr>) t)\<lparr>processors := c\<rparr>"
    by (auto simp: processor_vector_def with_ps_def bind_r_Ok_iff Let_def split: kobject_body.splits if_splits)
  then have "ps_mode P = ps_mode_bad w" if "ko_body (kobjs s' ps) = KProcessor P" for P
    using that assms(2) by (auto simp: upd_ps_def set_body_def upd_ko_def split: kobject_body.splits)
  then show ?thesis by (simp add: processor_arch_run_def with_ps_def split: kobject_body.split)
qed

theorem vector_bad_mode_panics_witness:
  "case processor_vector tiny_env 5 \<lparr>uc_at = SOBJ 8 9, uc_mode = ps_mode_bad 7, uc_entry = 0, uc_stack = 0, uc_share = [], uc_arg = replicate 6 0\<rparr>
       (world_of (world_ps\<lparr>ps_running := False\<rparr>) kobj_address_tree (KAddress_tree trap_at)) of
     (r, s') \<Rightarrow> r = Ok () \<and> fst (processor_arch_run 5 s') = Panic"
proof -
  let ?s = "world_of (world_ps\<lparr>ps_running := False\<rparr>) kobj_address_tree (KAddress_tree trap_at)"
  let ?uc = "\<lparr>uc_at = SOBJ 8 9, uc_mode = ps_mode_bad 7, uc_entry = 0, uc_stack = 0, uc_share = [], uc_arg = replicate 6 0\<rparr>"
  obtain s1 where s1: "processor_co_obj tiny_env 5 (SOBJ 8 9) kobj_address_tree ?s = (Ok 7, s1)"
    "\<And>p. p \<noteq> 6 \<Longrightarrow> kobjs s1 p = kobjs ?s p"
    by (rule world_lookup [of kobj_address_tree kobj_address_tree "world_ps\<lparr>ps_running := False\<rparr>" "KAddress_tree trap_at"])
      (auto simp: world_ps_def)
  have "fst (processor_vector tiny_env 5 ?uc ?s) = Ok ()"
    by (simp add: processor_vector_def with_ps_def s1(1) Let_def processor_arch_vector_def at_attach_def with_at_def
      s1(2) upd_ps_def set_body_def upd_ko_def)
  then obtain s' where s': "processor_vector tiny_env 5 ?uc ?s = (Ok (), s')"
    by (cases "processor_vector tiny_env 5 ?uc ?s") auto
  then show ?thesis using vector_bad_mode_panics [OF s', of 7] by simp
qed

lemma blob_alloc_infos: "sh_infos (snd (share_blob_alloc e sh s)) = sh_infos s"
  by (simp add: share_blob_alloc_def with_sh_def set_pool_def set_body_def upd_ko_def on_mem_def Let_def bind_r_def
    split: kobject_body.split list.split prod.split result.split)

text \<open>
  C29: an object that is looked up in a share has the requested type; a reference that names the same
  share twice is resolved to the share itself whatever type was requested.
\<close>

theorem co_obj_type:
  "(processor_co_obj e src ref t s = (Ok ko, s') \<and> t \<noteq> kobj_any \<and> so_share ref \<noteq> so_object ref \<longrightarrow>
      ko_type (hdr s ko) = t) \<and>
   (sharemap_get e src i s = (Ok sh, s) \<longrightarrow> processor_co_obj e src (SOBJ i i) t s = (Ok sh, s))"
proof (intro conjI impI)
  assume a: "processor_co_obj e src ref t s = (Ok ko, s') \<and> t \<noteq> kobj_any \<and> so_share ref \<noteq> so_object ref"
  have g: "snd (sharemap_get e src j s) = s" for j by (simp add: sharemap_get_def with_ps_def split: kobject_body.split)
  have h: "snd (share_get e q j s) = s" for q j by (simp add: share_get_def with_sh_def split: kobject_body.split)
  from a obtain q where co: "share_co_obj e q (so_object ref) t s = (Ok ko, s')"
    using g by (auto simp: processor_co_obj_def sharemap_co_obj_def bind_r_Ok_iff) (metis snd_conv)
  then obtain sb where sb: "share_get e q (so_object ref) s = (Ok sb, s)"
    using h by (auto simp: share_co_obj_def bind_r_Ok_iff) (metis snd_conv)
  with co a have ty: "ko_type (hdr s (si_ko (sh_infos s sb))) = t" by (auto simp: share_co_obj_def split: if_splits)
  from co sb a ty obtain b s1 where "share_blob_alloc e q s = (Ok b, s1)" "ko = si_ko (sh_infos (upd_info sb (\<lambda>i. i\<lparr>si_co := si_co i + 1\<rparr>) s1) sb)"
    by (auto simp: share_co_obj_def bind_r_Ok_iff Let_def)
  with blob_alloc_infos [of e q s] have "ko = si_ko (sh_infos s sb)" by (simp add: upd_info_def)
  with ty show "ko_type (hdr s ko) = t" by simp
next
  assume "sharemap_get e src i s = (Ok sh, s)"
  then show "processor_co_obj e src (SOBJ i i) t s = (Ok sh, s)"
    by (simp add: processor_co_obj_def sharemap_co_obj_def SOBJ_def)
qed

theorem co_obj_type_witness:
  "\<exists>s'. processor_co_obj tiny_env 5 (SOBJ 8 9) kobj_device (world kobj_device (KDevice \<lparr>dv_dh = 0\<rparr>)) = (Ok 7, s') \<and>
     ko_type (hdr (world kobj_device (KDevice \<lparr>dv_dh = 0\<rparr>)) 7) = kobj_device \<and>
     processor_co_obj tiny_env 5 (SOBJ 8 8) kobj_segment (world kobj_device (KDevice \<lparr>dv_dh = 0\<rparr>)) =
       (Ok 6, world kobj_device (KDevice \<lparr>dv_dh = 0\<rparr>))"
proof -
  let ?s = "world kobj_device (KDevice \<lparr>dv_dh = 0\<rparr>)"
  have m: "sm_map (ps_sharemap world_ps) = one_entry_map 8" by (simp add: world_ps_def)
  obtain s' where s': "processor_co_obj tiny_env 5 (SOBJ 8 9) kobj_device ?s = (Ok 7, s')"
    by (rule world_lookup [of kobj_device kobj_device world_ps "KDevice \<lparr>dv_dh = 0\<rparr>"]) (auto simp: m)
  have "ko_type (hdr ?s 7) = kobj_device" using co_obj_type [of tiny_env 5 "SOBJ 8 9" kobj_device ?s 7 s'] s' by (simp add: SOBJ_def)
  moreover have "processor_co_obj tiny_env 5 (SOBJ 8 8) kobj_segment ?s = (Ok 6, ?s)"
    using co_obj_type [of tiny_env 5 _ kobj_segment ?s _ _ 8 6] world_get(1) [OF m] by blast
  ultimately show ?thesis using s' by blast
qed

text \<open>
  C30: a device is handed out once: after a call that was not refused, whether or not the object could
  be made, every further call for the same device is refused as busy.
\<close>

theorem device_alloc_once:
  assumes "device_alloc e did pid s = (r, s')" and "r \<notin> {Err E_INVAL, Panic}" and "ndev s \<le> length (devices s)"
  shows "fst (device_alloc e' did pid' s') = Err E_BUSY"
proof -
  have same: "devices (snd (kobject_alloc e kobj_device b pid t)) = devices t \<and> ndev (snd (kobject_alloc e kobj_device b pid t)) = ndev t"
    for b t
    by (auto simp: kobject_alloc_def id_alloc_def on_mem_def kobject_gc_collect_def Let_def bind_r_def
      split: prod.splits result.splits)
  let ?i = "unat did - 1"
  have ok: "\<not> (of_nat (ndev s) < did \<or> did = 0)" using assms(1,2) by (auto simp: device_alloc_def)
  then have "unat did \<le> unat (of_nat (ndev s) :: u64)" by (simp add: word_le_nat_alt not_less)
  also have "\<dots> \<le> ndev s" by (simp add: unsigned_of_nat)
  finally have i: "?i < length (devices s)" using ok assms(3) unat_gt_0 [of did] by auto
  show ?thesis
  proof (cases "ds_alloced (devices s ! ?i)")
    case True
    then show ?thesis using ok assms(1) by (auto simp: device_alloc_def Let_def)
  next
    case False
    let ?t = "upd_device ?i (\<lambda>d. d\<lparr>ds_alloced := True\<rparr>) s"
    obtain r1 s1 where a: "kobject_alloc e kobj_device (KDevice \<lparr>dv_dh = ?i\<rparr>) pid ?t = (r1, s1)" by fastforce
    with same [of "KDevice \<lparr>dv_dh = ?i\<rparr>" ?t] have s1: "devices s1 = devices ?t" "ndev s1 = ndev s" by (simp_all add: upd_device_def)
    have "ds_alloced (devices s' ! ?i) \<and> ndev s' = ndev s"
      using assms(1,2) ok False a s1 i by (cases r1) (auto simp: device_alloc_def Let_def upd_device_def split: option.splits)
    then show ?thesis using ok by (simp add: device_alloc_def Let_def)
  qed
qed

definition one_device :: kst where
  "one_device = (kst0 tiny_mem)\<lparr>ndev := 1, devices := [\<lparr>ds_dh = Some \<lparr>dh_type = 1, dh_id = 1, dh_dev = None\<rparr>, ds_alloced = False\<rparr>]\<rparr>"

theorem device_alloc_once_witness:
  "case device_alloc tiny_env 1 0 one_device of (r, s') \<Rightarrow>
     r = Ok 2 \<and> fst (device_alloc tiny_env 1 0 s') = Err E_BUSY"
proof -
  have "fst (device_alloc tiny_env 1 0 one_device) = Ok 2"
    by (simp add: device_alloc_def one_device_def Let_def kobject_alloc_def on_mem_def page_alloc_def tiny_env_def tiny_numa_def
      tiny_mem_def arch_node_by_cpu_def page_to_pageinfo_def kst0_def upd_device_def id_alloc_def kobject_gc_collect_def)
  then obtain s' where s': "device_alloc tiny_env 1 0 one_device = (Ok 2, s')"
    by (cases "device_alloc tiny_env 1 0 one_device") auto
  then show ?thesis using device_alloc_once [OF s', of tiny_env 0] by (simp add: one_device_def)
qed

subsection \<open>Distances between processors\<close>

definition same_node :: "kenv \<Rightarrow> nat \<Rightarrow> nat \<Rightarrow> bool" where
  "same_node e j k = (\<exists>i < length (memnode (ke_numa e)). mn_cpu (memnode (ke_numa e) ! i) j \<and> mn_cpu (memnode (ke_numa e) ! i) k)"

lemma fold_row: "fold (\<lambda>k r. r(k := h k)) [0..<n] r k = (if k < n then h k else r k)" for r :: "nat \<Rightarrow> 'a"
  by (induction n) auto

lemma fold_rows:
  "fold (\<lambda>j d. if c j then d(j := g j (d j)) else d) [0..<n] d j = (if j < n \<and> c j then g j (d j) else d j)" for d :: "nat \<Rightarrow> 'a"
  by (induction n) auto

text \<open>
  C31: when every processor belongs to exactly one memory node, the matrix that \<open>arch_locality_fill\<close>
  builds node by node is the matrix of distances: zero to itself, one on the same node, two otherwise.
\<close>

theorem locality_is_distance:
  assumes uniq: "\<And>i i' j. i < length (memnode (ke_numa e)) \<Longrightarrow> i' < length (memnode (ke_numa e)) \<Longrightarrow>
      mn_cpu (memnode (ke_numa e) ! i) j \<Longrightarrow> mn_cpu (memnode (ke_numa e) ! i') j \<Longrightarrow> i = i'"
    and covers: "\<And>j. j < ke_ncpu e \<Longrightarrow> same_node e j j"
    and "j < ke_ncpu e" "k < ke_ncpu e"
  shows "arch_locality_fill e d j k = (if k = j then 0 else if same_node e j k then 1 else 2)"
proof -
  let ?M = "memnode (ke_numa e)" and ?n = "ke_ncpu e"
  let ?row = "\<lambda>i j r. (fold (\<lambda>k r. r(k := if mn_cpu (?M ! i) k then 1 else 2)) [0..<?n] r)(j := 0)"
  let ?F = "\<lambda>m. fold (\<lambda>i. fold (\<lambda>j d. if mn_cpu (?M ! i) j then d(j := ?row i j (d j)) else d) [0..<?n]) [0..<m] d"
  have step: "?F (Suc m) j = (if mn_cpu (?M ! m) j then ?row m j (?F m j) else ?F m j)" for m
    using fold_rows [of "mn_cpu (?M ! m)" "?row m" ?n "?F m" j] assms(3) by simp
  have "(\<exists>i<m. mn_cpu (?M ! i) j) \<longrightarrow> ?F m j k = (if k = j then 0 else if same_node e j k then 1 else 2)"
    if "m \<le> length ?M" for m
    using that
  proof (induction m)
    case (Suc m)
    show ?case
    proof (cases "mn_cpu (?M ! m) j")
      case True
      have "same_node e j k = mn_cpu (?M ! m) k"
        using uniq [of _ m j] True Suc.prems by (auto simp: same_node_def intro: exI [of _ m])
      then show ?thesis unfolding step using True assms(4) by (simp add: fold_row)
    next
      case False
      have "(\<exists>i<Suc m. mn_cpu (?M ! i) j) = (\<exists>i<m. mn_cpu (?M ! i) j)" using False less_Suc_eq by auto
      then show ?thesis unfolding step using False Suc by simp
    qed
  qed simp
  from this [of "length ?M"] covers [OF assms(3)] show ?thesis
    by (auto simp: same_node_def arch_locality_fill_def)
qed

definition two_nodes :: kenv where
  "two_nodes = tiny_env\<lparr>ke_ncpu := 4, ke_numa := tiny_numa\<lparr>memnode :=
     [\<lparr>mn_baseaddr = 0, mn_length = 0x4000, mn_cpu = (\<lambda>j. j < 2)\<rparr>,
      \<lparr>mn_baseaddr = 0x4000, mn_length = 0x4000, mn_cpu = (\<lambda>j. 2 \<le> j \<and> j < 4)\<rparr>]\<rparr>\<rparr>"

theorem locality_is_distance_witness:
  "arch_locality_fill two_nodes (\<lambda>_ _. 0) 1 2 = 2"
proof -
  let ?M = "memnode (ke_numa two_nodes)"
  have n: "i = 0 \<or> i = 1" if "i < length ?M" for i using that by (auto simp: two_nodes_def less_Suc_eq)
  have M: "mn_cpu (?M ! 0) j = (j < 2)" "mn_cpu (?M ! 1) j = (2 \<le> j \<and> j < 4)" "length ?M = 2" for j
    by (simp_all add: two_nodes_def)
  have uniq: "i = i'" if "i < length ?M" "i' < length ?M" "mn_cpu (?M ! i) j" "mn_cpu (?M ! i') j" for i i' j
    using n [OF that(1)] n [OF that(2)] that(3,4) by (elim disjE) (simp_all add: M M [simplified])
  have covers: "same_node two_nodes j j" if "j < ke_ncpu two_nodes" for j
  proof (cases "j < 2")
    case True
    then show ?thesis unfolding same_node_def using M by (intro exI [of _ 0]) simp
  next
    case False
    then show ?thesis unfolding same_node_def using M that by (intro exI [of _ 1]) (simp add: two_nodes_def)
  qed
  have "\<not> same_node two_nodes 1 2" 
  proof
    assume "same_node two_nodes 1 2"
    then obtain i where "i < length ?M" "mn_cpu (?M ! i) 1" "mn_cpu (?M ! i) 2" by (auto simp: same_node_def)
    then show False using n [of i] M(1) [of 2] M(2) [of 1] by auto
  qed
  moreover have "ke_ncpu two_nodes = 4" by (simp add: two_nodes_def)
  ultimately show ?thesis using locality_is_distance [of two_nodes 1 2, OF uniq covers] by simp
qed

end
