(* ===== verification/Share_Table.thy ===== *)
theory Share_Table
  imports Kernel_Inv Example_State
begin

text \<open>
  The abstract view of a share: a table from identifiers to objects with the number of times each was
  imported.  Blobs, the kernel map and the pages it lives in are hidden.
\<close>

definition share_table :: "kenv \<Rightarrow> page \<Rightarrow> kst \<Rightarrow> u64 \<rightharpoonup> page \<times> u32" where
  "share_table e sh s oid =
     (case ko_body (kobjs s sh) of
        KShare S \<Rightarrow>
          map_option (\<lambda>v. (si_ko (sh_infos s (va_kptr v)), si_cnt (sh_infos s (va_kptr v))))
            (kmap_of (ke_numa e) (sh_kobject_map S, km s) oid)
      | _ \<Rightarrow> None)"

definition valid_blob :: "kptr \<Rightarrow> bool" where
  "valid_blob b \<longleftrightarrow> fst b < 2 ^ 52 \<and> snd b < 4096"

text \<open>The blobs of the entries are distinct and none of them is free.\<close>

definition share_ok :: "kenv \<Rightarrow> page \<Rightarrow> kst \<Rightarrow> bool" where
  "share_ok e sh s \<longleftrightarrow>
     (\<exists>S. ko_body (kobjs s sh) = KShare S \<and> kmap_ok (ke_numa e) (sh_kobject_map S, km s) \<and>
        inj_on va_kptr (ran (kmap_of (ke_numa e) (sh_kobject_map S, km s))) \<and>
        inj_on (kmap_of (ke_numa e) (sh_kobject_map S, km s)) (dom (kmap_of (ke_numa e) (sh_kobject_map S, km s))) \<and>
        (let free = sp_free (sh_blob S (arch_cpu e)) in
         distinct free \<and> (\<forall>b\<in>set free. valid_blob b \<and> b \<notin> va_kptr ` ran (kmap_of (ke_numa e) (sh_kobject_map S, km s)))))"

definition share_room :: "kenv \<Rightarrow> page \<Rightarrow> kst \<Rightarrow> bool" where
  "share_room e sh s \<longleftrightarrow>
     (\<exists>S. ko_body (kobjs s sh) = KShare S \<and> sp_free (sh_blob S (arch_cpu e)) \<noteq> [] \<and>
        map_percent (map_slots (sh_kobject_map S) (map_cur (sh_kobject_map S))) < 70)"

lemma va_kptr_blob: "valid_blob b \<Longrightarrow> va_kptr (kptr_va b) = b"
  by (simp add: valid_blob_def va_kptr_va)

text \<open>Taking a free blob does not touch the table.\<close>

lemma blob_at_hand:
  assumes "ko_body (kobjs s sh) = KShare S" "sp_free (sh_blob S (arch_cpu e)) = b # bs"
  shows "share_blob_alloc e sh s =
    (Ok b, set_body sh (KShare (S\<lparr>sh_blob := (sh_blob S)(arch_cpu e := (sh_blob S (arch_cpu e))\<lparr>sp_free := bs\<rparr>)\<rparr>)) s)"
  using assms by (simp add: share_blob_alloc_def with_sh_def Let_def set_pool_def)

lemma import_refines:
  assumes ok: "share_ok e sh s" and room: "share_room e sh s"
    and mask: "\<And>S. ko_body (kobjs s sh) = KShare S \<Longrightarrow> type_bit (ko_type (hdr s ko)) AND sh_mask S \<noteq> 0"
    and k: "valid_key (ko_id (hdr s ko))"
  shows "\<exists>s'. share_import_obj e sh ko s = (Ok (), s') \<and> share_ok e sh s' \<and>
    share_table e sh s' = (share_table e sh s)(ko_id (hdr s ko) \<mapsto>
      (case share_table e sh s (ko_id (hdr s ko)) of None \<Rightarrow> (ko, 1) | Some (ko', c) \<Rightarrow> (ko', c + 1))) \<and>
    kobject_getref ko s' = (if share_table e sh s (ko_id (hdr s ko)) = None then kobject_getref ko s + 1 else kobject_getref ko s) \<and>
    (\<exists>S S'. ko_body (kobjs s sh) = KShare S \<and> ko_body (kobjs s' sh) = KShare S' \<and>
       length (sp_free (sh_blob S (arch_cpu e))) \<le> Suc (length (sp_free (sh_blob S' (arch_cpu e)))))"
proof -
  let ?nm = "ke_numa e" and ?c = "arch_cpu e" and ?id = "ko_id (hdr s ko)"
  obtain S b bs where S: "ko_body (kobjs s sh) = KShare S" and f: "sp_free (sh_blob S ?c) = b # bs"
    and pc: "map_percent (map_slots (sh_kobject_map S) (map_cur (sh_kobject_map S))) < 70"
    using room by (auto simp: share_room_def neq_Nil_conv)
  let ?M = "kmap_of ?nm (sh_kobject_map S, km s)"
  have M: "kmap_ok ?nm (sh_kobject_map S, km s)" "inj_on va_kptr (ran ?M)" "inj_on ?M (dom ?M)"
    "distinct (b # bs)" "\<And>x. x \<in> set (b # bs) \<Longrightarrow> valid_blob x \<and> x \<notin> va_kptr ` ran ?M"
    using ok S f by (auto simp: share_ok_def Let_def)
  define S1 where "S1 = S\<lparr>sh_blob := (sh_blob S)(?c := (sh_blob S ?c)\<lparr>sp_free := bs\<rparr>)\<rparr>"
  define s2 where "s2 = upd_info b (\<lambda>_. \<lparr>si_ko = ko, si_co = 0, si_cnt = 1\<rparr>) (set_body sh (KShare S1) s)"
  have s2: "ko_body (kobjs s2 sh) = KShare S1" "km s2 = km s" "hdr s2 p = hdr s p"
    "sh_infos s2 = (sh_infos s)(b := \<lparr>si_ko = ko, si_co = 0, si_cnt = 1\<rparr>)" for p
    by (simp_all add: s2_def upd_info_def set_body_def upd_ko_def)
  have S1: "sh_kobject_map S1 = sh_kobject_map S" "sp_free (sh_blob S1 ?c) = bs" by (simp_all add: S1_def)
  have get: "share_get e sh ?id s2 =
      (case ?M ?id of None \<Rightarrow> (Err E_NOT_FOUND, s2) | Some v \<Rightarrow> (Ok (va_kptr v), s2))"
    using map_get_ok [OF M(1) k] by (simp add: share_get_def with_sh_def s2 S1 split: option.split)
  have imp0: "share_import_obj e sh ko s =
      (case share_get e sh (ko_id (hdr s2 ko)) s2 of
             (Ok sb1, s) \<Rightarrow> share_blob_free e sh b (upd_info sb1 (\<lambda>i. i\<lparr>si_cnt := si_cnt i + 1\<rparr>) s)
           | (Err _, s) \<Rightarrow>
               (case share_put e sh (ko_id (hdr s2 ko)) (kptr_va b) s of
                  (Ok _, s) \<Rightarrow> (Ok (), kobject_incref ko s)
                | (Err er, s) \<Rightarrow> bind_r (share_blob_free e sh b s) (\<lambda>_ s. (Err er, s))
                | (Panic, s) \<Rightarrow> (Panic, s))
           | (Panic, s) \<Rightarrow> (Panic, s))"
    unfolding s2_def using mask [OF S]
    by (simp add: share_import_obj_def with_sh_def S blob_at_hand [OF S f] Let_def flip: S1_def)
  note imp = imp0 [unfolded s2(3)]
  show ?thesis
  proof (cases "?M ?id")
    case None
    then have t0: "share_table e sh s ?id = None" by (simp add: share_table_def S)
    obtain mp' m' where put: "map_put ?nm (ke_stack e) ?id (kptr_va b) (sh_kobject_map S, km s) = (Ok (), mp', m')"
      "kmap_ok ?nm (mp', m')" and M': "kmap_of ?nm (mp', m') = ?M(?id \<mapsto> kptr_va b)"
      using map_put_ok [OF M(1) _ k None, of "ke_stack e" "kptr_va b"] pc by auto
    define s4 where "s4 = kobject_incref ko (set_body sh (KShare (S1\<lparr>sh_kobject_map := mp'\<rparr>)) (s2\<lparr>km := m'\<rparr>))"
    have run: "share_import_obj e sh ko s = (Ok (), s4)"
      unfolding imp get by (simp add: None share_put_def with_sh_def s2 S1 put s4_def)
    have s4: "ko_body (kobjs s4 sh) = KShare (S1\<lparr>sh_kobject_map := mp'\<rparr>)" "km s4 = m'"
      "sh_infos s4 = (sh_infos s)(b := \<lparr>si_ko = ko, si_co = 0, si_cnt = 1\<rparr>)" "kobject_getref ko s4 = kobject_getref ko s + 1"
      by (auto simp: s4_def s2_def upd_info_def kobject_incref_def upd_hdr_def set_body_def upd_ko_def kobject_getref_def)
    have vb: "va_kptr (kptr_va b) = b" using M(5) [of b] va_kptr_blob by simp
    have nb: "?M k = Some v \<Longrightarrow> va_kptr v \<noteq> b" for k v using M(5) [of b] by (auto intro: ranI)
    have r: "ran (?M(?id \<mapsto> kptr_va b)) = insert (kptr_va b) (ran ?M)" using None by (simp add: ran_map_upd)
    have nr: "kptr_va b \<notin> ran ?M" using nb vb by (auto simp: ran_def)
    have "share_ok e sh s4"
      unfolding share_ok_def s4
      using M put(2) M' r nr vb nb
      by (auto simp: Let_def S1 inj_on_def dom_def ran_def)
    moreover have "share_table e sh s4 = (share_table e sh s)(?id \<mapsto> (ko, 1))"
      using nb by (auto simp: share_table_def s4 S M' vb fun_eq_iff map_option_case split: option.split)
    ultimately show ?thesis using run t0 s4(4) S s4(1) f by (intro exI [of _ s4]) (auto simp: S1)
  next
    case (Some v)
    let ?a = "va_kptr v"
    have t0: "share_table e sh s ?id = Some (si_ko (sh_infos s ?a), si_cnt (sh_infos s ?a))" by (simp add: share_table_def S Some)
    define S4 where "S4 = S1\<lparr>sh_blob := (sh_blob S1)(?c := (sh_blob S1 ?c)\<lparr>sp_free := b # bs\<rparr>)\<rparr>"
    define s4 where "s4 = set_body sh (KShare S4) (upd_info ?a (\<lambda>i. i\<lparr>si_cnt := si_cnt i + 1\<rparr>) s2)"
    have ab: "?a \<noteq> b" using M(5) [of b] Some by (auto intro: ranI)
    have run: "share_import_obj e sh ko s = (Ok (), s4)"
      unfolding imp get
      by (simp add: Some share_blob_free_def with_sh_def upd_info_def s2 S1 Let_def set_pool_def s4_def S4_def)
    have s4: "ko_body (kobjs s4 sh) = KShare S4" "km s4 = km s" "kobject_getref ko s4 = kobject_getref ko s"
      "sh_infos s4 = (sh_infos s)(b := \<lparr>si_ko = ko, si_co = 0, si_cnt = 1\<rparr>, ?a := (sh_infos s ?a)\<lparr>si_cnt := si_cnt (sh_infos s ?a) + 1\<rparr>)"
      using ab by (simp_all add: s4_def s2 upd_info_def set_body_def upd_ko_def kobject_getref_def)
    have "share_ok e sh s4" unfolding share_ok_def s4 using M by (simp add: S4_def S1 Let_def)
    moreover have "share_table e sh s4 k = ((share_table e sh s)(?id \<mapsto> (si_ko (sh_infos s ?a), si_cnt (sh_infos s ?a) + 1))) k" for k
    proof (cases "?M k")
      case None
      then show ?thesis using Some by (auto simp: share_table_def s4 S S4_def S1)
    next
      case (Some w)
      have "va_kptr w \<noteq> b" using M(5) [of b] Some by (auto intro: ranI)
      moreover have "va_kptr w = ?a \<longleftrightarrow> k = ?id"
        using M(2,3) Some \<open>?M ?id = Some v\<close> by (metis domI inj_onD option.inject ranI)
      ultimately show ?thesis using Some \<open>?M ?id = Some v\<close> by (auto simp: share_table_def s4 S S4_def S1)
    qed
    ultimately show ?thesis using run t0 s4(3) S s4(1) f by (intro exI [of _ s4]) (auto simp: fun_eq_iff S4_def)
  qed
qed


text \<open>An empty share in page 6 and a device object in page 7.\<close>

definition empty_share :: kst where
  "empty_share = (world_of world_ps kobj_device (KDevice \<lparr>dv_dh = 0\<rparr>))\<lparr>km := tiny_mem,
     kobjs := (kobjs (world_of world_ps kobj_device (KDevice \<lparr>dv_dh = 0\<rparr>)))(6 := world_ko 8 kobj_share
       (KShare (world_sh\<lparr>sh_kobject_map := tiny_map\<rparr>)))\<rparr>"

lemma empty_share_ok: "share_ok e 6 empty_share" "share_room e 6 empty_share" "share_table e 6 empty_share k = None"
  "hdr empty_share 7 = \<lparr>ko_id = 9, ko_type = kobj_device, ko_name = [], ko_ref = 1, ko_pid = 0\<rparr>"
proof -
  have "map_percent (map_slots tiny_map (map_cur tiny_map)) < 70" by (simp add: map_percent_def tiny_map_def)
  then show "share_room e 6 empty_share" by (simp add: share_room_def empty_share_def world_sh_def)
qed (auto simp: share_ok_def share_table_def empty_share_def world_sh_def tiny_map_ok valid_blob_def Let_def)

lemma empty_share_key:
  "ko_body (kobjs empty_share 6) = KShare S \<Longrightarrow> type_bit (ko_type (hdr empty_share 7)) AND sh_mask S \<noteq> 0"
  "valid_key (ko_id (hdr empty_share 7))"
proof -
  show "type_bit (ko_type (hdr empty_share 7)) AND sh_mask S \<noteq> 0" if "ko_body (kobjs empty_share 6) = KShare S"
    using that by (auto simp: empty_share_def type_bit_def world_sh_def)
  show "valid_key (ko_id (hdr empty_share 7))" by (simp add: empty_share_ok valid_key_def TOMB_def)
qed




end
