(* ===== verification/Locks.thy ===== *)
theory Locks
  imports Kobject
begin

text \<open>
  The locks of the kernel: the spin lock and the recursive lock of
  \<^verbatim>\<open>kern/arch/amd64/spinlock.h\<close>, the reader/writer lock of \<^verbatim>\<open>kern/arch/amd64/rwlock.h\<close>
  and the split reader/writer lock of \<^verbatim>\<open>lib/rwlock.c\<close>.

  Processors run concurrently.  An operation is a function that takes a processor, which stands at some
  point of the code of the operation, through its next access to the words of the lock.  A system
  interleaves the accesses of the processors in any order; memory is sequentially consistent, so an
  access is seen at once by every processor.  The locale \<open>guarded\<close> is a system whose steps keep an
  invariant, \<open>mutex\<close> and \<open>rw_mutex\<close> are what the users of a lock rely on.
\<close>

section \<open>Interleaved systems\<close>

text \<open>
  The accesses that a processor at a point of its code may make next are a list, more than one when the
  processor is free to choose the operation it calls.
\<close>

type_synonym ('p, 'm) act = "nat \<Rightarrow> 'p \<Rightarrow> 'm \<Rightarrow> ('p \<times> 'm) list"
type_synonym ('p, 'm) sys = "'m \<times> (nat \<Rightarrow> 'p)"

inductive interleave :: "('p, 'm) act \<Rightarrow> ('p, 'm) sys \<Rightarrow> ('p, 'm) sys \<Rightarrow> bool" for act where
  access: "c < JOS_NCPU \<Longrightarrow> (p, m') \<in> set (act c (pc c) m) \<Longrightarrow> interleave act (m, pc) (m', pc(c := p))"

inductive_cases interleaveE: "interleave act s t"

abbreviation reaches :: "('p, 'm) act \<Rightarrow> ('p, 'm) sys \<Rightarrow> ('p, 'm) sys \<Rightarrow> bool" where
  "reaches act \<equiv> rtranclp (interleave act)"

text \<open>A schedule names the processor that moves and which of its accesses it makes.\<close>

fun run :: "('p, 'm) act \<Rightarrow> (nat \<times> nat) list \<Rightarrow> ('p, 'm) sys \<Rightarrow> ('p, 'm) sys option" where
  "run act [] s = Some s"
| "run act ((c, i) # cs) (m, pc) =
     (if c < JOS_NCPU \<and> i < length (act c (pc c) m)
      then (case act c (pc c) m ! i of (p, m') \<Rightarrow> run act cs (m', pc(c := p))) else None)"

lemma run_reaches: "run act cs s = Some t \<Longrightarrow> reaches act s t"
proof (induction act cs s rule: run.induct)
  case (2 act c i cs m pc)
  obtain p m' where a: "act c (pc c) m ! i = (p, m')" by (cases "act c (pc c) m ! i")
  from 2(2) a have c: "c < JOS_NCPU" "i < length (act c (pc c) m)" and r: "run act cs (m', pc(c := p)) = Some t"
    by (auto split: if_splits)
  have "interleave act (m, pc) (m', pc(c := p))" by (rule access) (use c a nth_mem in fastforce)+
  moreover have "reaches act (m', pc(c := p)) t" using 2(1) c a r by auto
  ultimately show ?case by (rule converse_rtranclp_into_rtranclp)
qed simp

locale guarded =
  fixes act :: "('p, 'm) act" and init :: "('p, 'm) sys" and inv :: "'m \<Rightarrow> (nat \<Rightarrow> 'p) \<Rightarrow> bool"
  assumes init_inv: "inv (fst init) (snd init)"
    and act_inv: "inv m pc \<Longrightarrow> c < JOS_NCPU \<Longrightarrow> (p, m') \<in> set (act c (pc c) m) \<Longrightarrow> inv m' (pc(c := p))"
begin

lemma reach_inv:
  assumes "reaches act init s"
  shows "inv (fst s) (snd s)"
  using assms by induction (auto intro: init_inv act_inv elim!: interleaveE)

end

locale mutex = guarded act init inv
  for act :: "('p, 'm) act" and init :: "('p, 'm) sys" and inv :: "'m \<Rightarrow> (nat \<Rightarrow> 'p) \<Rightarrow> bool" +
  fixes holds :: "'p \<Rightarrow> bool"
  assumes one: "inv m pc \<Longrightarrow> holds (pc c) \<Longrightarrow> holds (pc d) \<Longrightarrow> c = d"
begin

lemma exclusion: "reaches act init (m, pc) \<Longrightarrow> holds (pc c) \<Longrightarrow> holds (pc d) \<Longrightarrow> c = d"
  using one reach_inv by fastforce

end

definition rw_excl :: "('p \<Rightarrow> bool) \<Rightarrow> ('p \<Rightarrow> bool) \<Rightarrow> (nat \<Rightarrow> 'p) \<Rightarrow> bool" where
  "rw_excl reads writes pc \<longleftrightarrow> (\<forall>c d. writes (pc c) \<longrightarrow> \<not> reads (pc d) \<and> (writes (pc d) \<longrightarrow> c = d))"

lemma rw_exclD: "rw_excl R W pc \<Longrightarrow> W (pc c) \<Longrightarrow> \<not> R (pc d) \<and> (W (pc d) \<longrightarrow> c = d)"
  by (simp add: rw_excl_def)

lemma rw_excl_upd:
  assumes "rw_excl R W pc" "\<And>d. R p \<Longrightarrow> d \<noteq> c \<Longrightarrow> \<not> W (pc d)"
    "\<And>d. W p \<Longrightarrow> d \<noteq> c \<Longrightarrow> \<not> W (pc d) \<and> \<not> R (pc d)" "\<not> (R p \<and> W p)"
  shows "rw_excl R W (pc(c := p))"
  using assms unfolding rw_excl_def by simp blast

locale rw_mutex = guarded act init inv
  for act :: "('p, 'm) act" and init :: "('p, 'm) sys" and inv :: "'m \<Rightarrow> (nat \<Rightarrow> 'p) \<Rightarrow> bool" +
  fixes reads :: "'p \<Rightarrow> bool" and writes :: "'p \<Rightarrow> bool"
  assumes excl: "inv m pc \<Longrightarrow> rw_excl reads writes pc"
begin

lemma rw_exclusion:
  assumes "reaches act init (m, pc)" "writes (pc c)"
  shows "(writes (pc d) \<longrightarrow> c = d) \<and> \<not> reads (pc d)"
  using rw_exclD [OF excl [OF reach_inv [OF assms(1)]]] assms(2) by simp

end

text \<open>What processors that are at given points of their code add up to.\<close>

definition total :: "('p \<Rightarrow> int) \<Rightarrow> (nat \<Rightarrow> 'p) \<Rightarrow> int" where
  "total w pc = (\<Sum>c<JOS_NCPU. w (pc c))"

lemma total_upd:
  assumes "c < JOS_NCPU"
  shows "total w (pc(c := p)) = total w pc - w (pc c) + w p"
proof -
  have "(\<Sum>d\<in>{..<JOS_NCPU} - {c}. w ((pc(c := p)) d)) = (\<Sum>d\<in>{..<JOS_NCPU} - {c}. w (pc d))"
    by (rule sum.cong) auto
  then show ?thesis
    using assms sum.remove [of "{..<JOS_NCPU}" c "\<lambda>d. w (pc d)"] sum.remove [of "{..<JOS_NCPU}" c "\<lambda>d. w ((pc(c := p)) d)"]
    by (simp add: total_def)
qed

lemma total_nonneg: "(\<And>p. 0 \<le> w p) \<Longrightarrow> 0 \<le> total w pc"
  by (simp add: total_def sum_nonneg)

lemma total_ge: "(\<And>p. 0 \<le> w p) \<Longrightarrow> c < JOS_NCPU \<Longrightarrow> w (pc c) \<le> total w pc"
  unfolding total_def by (rule member_le_sum [of c "{..<JOS_NCPU}" "\<lambda>d. w (pc d)"]) auto

lemma total_ge2:
  assumes "\<And>p. 0 \<le> w p" "c < JOS_NCPU" "d < JOS_NCPU" "c \<noteq> d"
  shows "w (pc c) + w (pc d) \<le> total w pc"
proof -
  have "(\<Sum>d\<in>{c, d}. w (pc d)) \<le> (\<Sum>d<JOS_NCPU. w (pc d))" using assms by (intro sum_mono2) auto
  then show ?thesis using assms by (simp add: total_def)
qed

lemma total_le: "(\<And>p. w p \<le> 1) \<Longrightarrow> total w pc \<le> int JOS_NCPU"
  unfolding total_def using sum_bounded_above [of "{..<JOS_NCPU}" "\<lambda>d. w (pc d)" 1] by simp

section \<open>The spin lock\<close>

text \<open>
  \<open>spin_lock\<close> exchanges the word with one; when it was not zero the processor reads the word until it
  is, and exchanges again.
\<close>

datatype spin_pc = Spin_out | Spin_xchg | Spin_pause | Spin_in

definition spin_lock :: "spin_pc \<Rightarrow> u64 \<Rightarrow> spin_pc \<times> u64" where
  "spin_lock p locked =
     (case p of
        Spin_out \<Rightarrow> (Spin_xchg, locked)
      | Spin_xchg \<Rightarrow> (if locked = 0 then Spin_in else Spin_pause, 1)
      | Spin_pause \<Rightarrow> (if locked \<noteq> 0 then Spin_pause else Spin_xchg, locked)
      | Spin_in \<Rightarrow> (Spin_in, locked))"

definition spin_unlock :: "u64 \<Rightarrow> spin_pc \<times> u64" where
  "spin_unlock locked = (Spin_out, 0)"

definition spin_locked :: "u64 \<Rightarrow> bool" where
  "spin_locked locked \<longleftrightarrow> locked \<noteq> 0"

definition spin_init :: u64 where
  "spin_init = 0"

definition spin_act :: "(spin_pc, u64) act" where
  "spin_act c p m = [if p = Spin_in then spin_unlock m else spin_lock p m]"

definition spin_inv :: "u64 \<Rightarrow> (nat \<Rightarrow> spin_pc) \<Rightarrow> bool" where
  "spin_inv m pc \<longleftrightarrow> (\<forall>c d. pc c = Spin_in \<longrightarrow> pc d = Spin_in \<longrightarrow> c = d) \<and> ((\<exists>c. pc c = Spin_in) \<longrightarrow> spin_locked m)"

interpretation spin: mutex spin_act "(spin_init, \<lambda>_. Spin_out)" spin_inv "\<lambda>p. p = Spin_in"
proof unfold_locales
  show "spin_inv m' (pc(c := p))" if "spin_inv m pc" "c < JOS_NCPU" "(p, m') \<in> set (spin_act c (pc c) m)" for m pc c p m'
    using that
    by (cases "pc c") (auto simp: spin_inv_def spin_act_def spin_lock_def spin_unlock_def spin_locked_def split: if_splits)
qed (auto simp: spin_inv_def)

section \<open>The recursive lock\<close>

text \<open>
  The source reads \<^verbatim>\<open>if (r->owner == arch_cpu()) return spin_lock(&r->l);\<close>, as the
  return has no semicolon, and then sets the owner: a processor that is not the owner never takes the
  lock, and the one that is waits for it.
\<close>

record reclock =
  rl_l :: u64
  rl_owner :: u32

datatype rec_pc = Rec_out | Rec_spin spin_pc | Rec_own | Rec_in | Rec_rel

definition rec_lock :: "nat \<Rightarrow> rec_pc \<Rightarrow> reclock \<Rightarrow> rec_pc \<times> reclock" where
  "rec_lock cpu p r =
     (case p of
        Rec_out \<Rightarrow> (if rl_owner r = of_nat cpu then Rec_spin Spin_xchg else Rec_own, r)
      | Rec_spin q \<Rightarrow>
          (let (q, l) = spin_lock q (rl_l r)
           in (if q = Spin_in then Rec_in else Rec_spin q, r\<lparr>rl_l := l\<rparr>))
      | Rec_own \<Rightarrow> (Rec_in, r\<lparr>rl_owner := of_nat cpu\<rparr>)
      | _ \<Rightarrow> (p, r))"

definition rec_unlock :: "rec_pc \<Rightarrow> reclock \<Rightarrow> rec_pc \<times> reclock" where
  "rec_unlock p r =
     (case p of
        Rec_in \<Rightarrow> (Rec_rel, r\<lparr>rl_owner := - 1\<rparr>)
      | Rec_rel \<Rightarrow> (Rec_out, r\<lparr>rl_l := snd (spin_unlock (rl_l r))\<rparr>)
      | _ \<Rightarrow> (p, r))"

definition rec_init :: reclock where
  "rec_init = \<lparr>rl_l = spin_init, rl_owner = - 1\<rparr>"

definition rec_act :: "(rec_pc, reclock) act" where
  "rec_act c p r = [if p = Rec_in \<or> p = Rec_rel then rec_unlock p r else rec_lock c p r]"

section \<open>The reader/writer lock\<close>

definition RW_LOCK_BIAS :: int where
  "RW_LOCK_BIAS = 0x01000000"

datatype rw_pc = Rw_out | Rd_inc | Rd_cmp | Rd_dec | Rd_in | Wr_add | Wr_cmp | Wr_sub | Wr_in

definition rw_read_lock :: "rw_pc \<Rightarrow> u32 \<Rightarrow> rw_pc \<times> u32" where
  "rw_read_lock p l =
     (case p of
        Rw_out \<Rightarrow> (if sint (l - 1) < 0 then Rd_inc else Rd_in, l - 1)
      | Rd_inc \<Rightarrow> (Rd_cmp, l + 1)
      | Rd_cmp \<Rightarrow> (if sint (l - 1) < 0 then Rd_cmp else Rd_dec, l)
      | Rd_dec \<Rightarrow> (if sint (l - 1) < 0 then Rd_inc else Rd_in, l - 1)
      | _ \<Rightarrow> (p, l))"

definition rw_write_lock :: "rw_pc \<Rightarrow> u32 \<Rightarrow> rw_pc \<times> u32" where
  "rw_write_lock p l =
     (let bias = word_of_int RW_LOCK_BIAS in
      case p of
        Rw_out \<Rightarrow> (if l - bias = 0 then Wr_in else Wr_add, l - bias)
      | Wr_add \<Rightarrow> (Wr_cmp, l + bias)
      | Wr_cmp \<Rightarrow> (if l \<noteq> bias then Wr_cmp else Wr_sub, l)
      | Wr_sub \<Rightarrow> (if l - bias \<noteq> 0 then Wr_add else Wr_in, l - bias)
      | _ \<Rightarrow> (p, l))"

definition rw_read_unlock :: "u32 \<Rightarrow> rw_pc \<times> u32" where
  "rw_read_unlock l = (Rw_out, l + 1)"

definition rw_write_unlock :: "u32 \<Rightarrow> rw_pc \<times> u32" where
  "rw_write_unlock l = (Rw_out, l + word_of_int RW_LOCK_BIAS)"

definition rw_init :: u32 where
  "rw_init = word_of_int RW_LOCK_BIAS"

definition rw_act :: "(rw_pc, u32) act" where
  "rw_act c p l =
     (case p of
        Rw_out \<Rightarrow> [rw_read_lock p l, rw_write_lock p l]
      | Rd_in \<Rightarrow> [rw_read_unlock l]
      | Wr_in \<Rightarrow> [rw_write_unlock l]
      | _ \<Rightarrow> [if p \<in> {Rd_inc, Rd_cmp, Rd_dec} then rw_read_lock p l else rw_write_lock p l])"

text \<open>
  A reader counts one and a writer the bias, from its subtraction to the addition that takes it back.
\<close>

definition rd_weight :: "rw_pc \<Rightarrow> int" where
  "rd_weight p = (if p = Rd_inc \<or> p = Rd_in then 1 else 0)"

definition wr_weight :: "rw_pc \<Rightarrow> int" where
  "wr_weight p = (if p = Wr_add \<or> p = Wr_in then 1 else 0)"

definition rw_count :: "(nat \<Rightarrow> rw_pc) \<Rightarrow> int" where
  "rw_count pc = RW_LOCK_BIAS - total rd_weight pc - RW_LOCK_BIAS * total wr_weight pc"

definition rw_inv :: "u32 \<Rightarrow> (nat \<Rightarrow> rw_pc) \<Rightarrow> bool" where
  "rw_inv l pc \<longleftrightarrow> l = word_of_int (rw_count pc) \<and> (\<forall>c. JOS_NCPU \<le> c \<longrightarrow> pc c = Rw_out) \<and>
     rw_excl (\<lambda>p. p = Rd_in) (\<lambda>p. p = Wr_in) pc"

lemma sint_small: "- (2 ^ 31) \<le> x \<Longrightarrow> x < 2 ^ 31 \<Longrightarrow> sint (word_of_int x :: u32) = x"
  by (simp add: signed_of_int signed_take_bit_int_eq_self)

lemma weights_range: "0 \<le> rd_weight p" "0 \<le> wr_weight p" "rd_weight p \<le> 1" "wr_weight p \<le> 1"
  by (auto simp: rd_weight_def wr_weight_def)

lemma rw_totals:
  "0 \<le> total rd_weight pc" "total rd_weight pc \<le> 16" "0 \<le> total wr_weight pc" "total wr_weight pc \<le> 16"
  using total_nonneg [of rd_weight pc] total_nonneg [of wr_weight pc] total_le [of rd_weight pc] total_le [of wr_weight pc]
  by (auto simp: weights_range JOS_NCPU_def)

lemma rw_count_range: "- (2 ^ 31) < rw_count pc - 1" "rw_count pc < 2 ^ 31"
  using rw_totals [of pc] by (auto simp: rw_count_def RW_LOCK_BIAS_def)

lemma rw_count_pos:
  assumes "1 \<le> rw_count pc" "\<forall>c\<ge>JOS_NCPU. pc c = Rw_out"
  shows "pc d \<noteq> Wr_in"
proof
  assume w: "pc d = Wr_in"
  then have "d < JOS_NCPU" using assms(2) by (metis leI rw_pc.distinct(15))
  from total_ge [of wr_weight, OF weights_range(2) this, of pc] w have "1 \<le> total wr_weight pc" by (simp add: wr_weight_def)
  then show False using assms(1) rw_totals [of pc] by (simp add: rw_count_def RW_LOCK_BIAS_def)
qed

lemma rw_count_full:
  assumes "rw_count pc = RW_LOCK_BIAS" "\<forall>c\<ge>JOS_NCPU. pc c = Rw_out"
  shows "pc d \<noteq> Wr_in \<and> pc d \<noteq> Rd_in"
proof -
  have "total rd_weight pc = 0" using assms(1) rw_totals [of pc] by (simp add: rw_count_def RW_LOCK_BIAS_def)
  then have "pc d \<noteq> Rd_in" if "d < JOS_NCPU"
    using total_ge [of rd_weight, OF weights_range(1) that, of pc] by (auto simp: rd_weight_def split: if_splits)
  then show ?thesis
    using assms rw_count_pos [of pc d] by (cases "d < JOS_NCPU") (auto simp: RW_LOCK_BIAS_def)
qed

lemma rw_act_inv:
  assumes i: "rw_inv l pc" and c: "c < JOS_NCPU" and a: "(p, l') \<in> set (rw_act c (pc c) l)"
  shows "rw_inv l' (pc(c := p))"
proof -
  have l: "l = word_of_int (rw_count pc)" and o: "\<forall>c\<ge>JOS_NCPU. pc c = Rw_out" using i by (simp_all add: rw_inv_def)
  have s: "sint (l - 1) = rw_count pc - 1"
    using sint_small [of "rw_count pc - 1"] rw_count_range [of pc] by (simp add: l)
  have "sint l = rw_count pc" "sint (word_of_int RW_LOCK_BIAS :: u32) = RW_LOCK_BIAS"
    using sint_small [of "rw_count pc"] sint_small [of RW_LOCK_BIAS] rw_count_range [of pc] by (simp_all add: l RW_LOCK_BIAS_def)
  then have z: "l = word_of_int RW_LOCK_BIAS \<longleftrightarrow> rw_count pc = RW_LOCK_BIAS" by (metis l)
  have cnt: "rw_count (pc(c := p)) = rw_count pc + rd_weight (pc c) - rd_weight p + RW_LOCK_BIAS * (wr_weight (pc c) - wr_weight p)"
    by (simp add: rw_count_def total_upd [OF c] algebra_simps)
  have "l' = word_of_int (rw_count (pc(c := p)))"
    using a unfolding cnt
    by (cases "pc c") (auto simp: rw_act_def rw_read_lock_def rw_write_lock_def rw_read_unlock_def rw_write_unlock_def
        rd_weight_def wr_weight_def l [symmetric] Let_def split: if_splits)
  moreover have n: "p = Rd_in \<longrightarrow> 1 \<le> rw_count pc" "p = Wr_in \<longrightarrow> rw_count pc = RW_LOCK_BIAS"
    using a by (cases "pc c"; auto simp: rw_act_def rw_read_lock_def rw_write_lock_def rw_read_unlock_def rw_write_unlock_def Let_def z s
        split: if_splits)+
  moreover have "rw_excl (\<lambda>p. p = Rd_in) (\<lambda>p. p = Wr_in) (pc(c := p))"
    by (rule rw_excl_upd) (use i n rw_count_pos [OF _ o] rw_count_full [OF _ o] in \<open>simp_all add: rw_inv_def\<close>)
  moreover have "\<forall>d\<ge>JOS_NCPU. (pc(c := p)) d = Rw_out" using o c by simp
  ultimately show ?thesis unfolding rw_inv_def by blast
qed

interpretation rw: rw_mutex rw_act "(rw_init, \<lambda>_. Rw_out)" rw_inv "\<lambda>p. p = Rd_in" "\<lambda>p. p = Wr_in"
proof unfold_locales
  show "rw_inv (fst (rw_init, \<lambda>_. Rw_out)) (snd (rw_init, \<lambda>_. Rw_out))"
    by (simp add: rw_inv_def rw_init_def rw_count_def rw_excl_def total_def rd_weight_def wr_weight_def)
  show "rw_inv l' (pc(c := p))" if "rw_inv l pc" "c < JOS_NCPU" "(p, l') \<in> set (rw_act c (pc c) l)" for l l' pc c p
    using that by (rule rw_act_inv)
qed (simp_all add: rw_inv_def)

section \<open>The split reader/writer lock\<close>

text \<open>
  Every reader counts in a word of its own and a writer looks at all of them.  The number of the
  processor is the process number that the readers pass.
\<close>

definition SRW_NREADERS :: nat where
  "SRW_NREADERS = 16"

record srwlock =
  srw_write_locked :: u32
  srw_readers :: "nat \<Rightarrow> u32"

datatype srw_pc = Srw_out | Sr_wait | Sr_in | Sw_scan nat | Sw_cas | Sw_check nat | Sw_back | Sw_in

definition srw_init :: srwlock where
  "srw_init = \<lparr>srw_write_locked = 0, srw_readers = (\<lambda>_. 0)\<rparr>"

definition srw_read_lock :: "nat \<Rightarrow> srw_pc \<Rightarrow> srwlock \<Rightarrow> srw_pc \<times> srwlock" where
  "srw_read_lock pid p l =
     (case p of
        Srw_out \<Rightarrow>
          (let i = pid mod SRW_NREADERS in (Sr_wait, l\<lparr>srw_readers := (srw_readers l)(i := srw_readers l i + 1)\<rparr>))
      | Sr_wait \<Rightarrow> (if srw_write_locked l \<noteq> 0 then Sr_wait else Sr_in, l)
      | _ \<Rightarrow> (p, l))"

definition srw_write_lock :: "srw_pc \<Rightarrow> srwlock \<Rightarrow> srw_pc \<times> srwlock" where
  "srw_write_lock p l =
     (case p of
        Srw_out \<Rightarrow> (Sw_scan 0, l)
      | Sw_scan i \<Rightarrow>
          (if srw_readers l i \<noteq> 0 then Sw_scan 0 else if Suc i < SRW_NREADERS then Sw_scan (Suc i) else Sw_cas, l)
      | Sw_cas \<Rightarrow>
          (if srw_write_locked l = 0 then (Sw_check 0, l\<lparr>srw_write_locked := 1\<rparr>)
           else if srw_write_locked l = 1 then (Sw_cas, l) else (Sw_check 0, l))
      | Sw_check i \<Rightarrow>
          (if srw_readers l i \<noteq> 0 then Sw_back else if Suc i < SRW_NREADERS then Sw_check (Suc i) else Sw_in, l)
      | Sw_back \<Rightarrow> (Sw_scan 0, l\<lparr>srw_write_locked := 0\<rparr>)
      | _ \<Rightarrow> (p, l))"

text \<open>The assertions of the two functions below fail when the write word is out of range.\<close>

definition srw_read_unlock :: "nat \<Rightarrow> srwlock \<Rightarrow> (srw_pc \<times> srwlock) result" where
  "srw_read_unlock pid l =
     (if \<not> srw_write_locked l \<le> 1 then Panic
      else
        (let i = pid mod SRW_NREADERS in Ok (Srw_out, l\<lparr>srw_readers := (srw_readers l)(i := srw_readers l i - 1)\<rparr>)))"

definition srw_write_unlock :: "srwlock \<Rightarrow> (srw_pc \<times> srwlock) result" where
  "srw_write_unlock l = (if srw_write_locked l \<noteq> 1 then Panic else Ok (Srw_out, l\<lparr>srw_write_locked := 0\<rparr>))"

definition srw_act :: "(srw_pc, srwlock) act" where
  "srw_act c p l =
     (case p of
        Srw_out \<Rightarrow> [srw_read_lock c p l, srw_write_lock p l]
      | Sr_wait \<Rightarrow> [srw_read_lock c p l]
      | Sr_in \<Rightarrow> (case srw_read_unlock c l of Ok x \<Rightarrow> [x] | _ \<Rightarrow> [])
      | Sw_in \<Rightarrow> (case srw_write_unlock l of Ok x \<Rightarrow> [x] | _ \<Rightarrow> [])
      | _ \<Rightarrow> [srw_write_lock p l])"

definition srw_writer :: "srw_pc \<Rightarrow> bool" where
  "srw_writer p = (case p of Sw_check i \<Rightarrow> True | Sw_back \<Rightarrow> True | Sw_in \<Rightarrow> True | _ \<Rightarrow> False)"

definition srw_inv :: "srwlock \<Rightarrow> (nat \<Rightarrow> srw_pc) \<Rightarrow> bool" where
  "srw_inv l pc \<longleftrightarrow>
     (\<forall>c\<ge>JOS_NCPU. pc c = Srw_out) \<and>
     (\<forall>c<JOS_NCPU. srw_readers l c = (if pc c = Sr_wait \<or> pc c = Sr_in then 1 else 0)) \<and>
     srw_write_locked l = (if \<exists>c. srw_writer (pc c) then 1 else 0) \<and>
     (\<forall>c d. srw_writer (pc c) \<longrightarrow> srw_writer (pc d) \<longrightarrow> c = d) \<and>
     (\<forall>c i. pc c = Sw_check i \<longrightarrow> (\<forall>d<i. pc d \<noteq> Sr_in)) \<and>
     rw_excl (\<lambda>p. p = Sr_in) (\<lambda>p. p = Sw_in) pc"

lemma srw_writer_simps [simp]:
  "srw_writer (Sw_check i)" "srw_writer Sw_back" "srw_writer Sw_in" "\<not> srw_writer Srw_out" "\<not> srw_writer Sr_wait"
  "\<not> srw_writer Sr_in" "\<not> srw_writer (Sw_scan i)" "\<not> srw_writer Sw_cas"
  by (simp_all add: srw_writer_def)

lemmas srw_defs = srw_act_def srw_read_lock_def srw_write_lock_def srw_read_unlock_def srw_write_unlock_def

lemma srw_upd:
  assumes i: "srw_inv l pc" and c: "c < JOS_NCPU"
    and r: "\<forall>d<JOS_NCPU. srw_readers l' d = (if d = c then if p = Sr_wait \<or> p = Sr_in then 1 else 0 else srw_readers l d)"
    and w: "if srw_writer p then srw_write_locked l' = 1 \<and> (\<forall>d. d \<noteq> c \<longrightarrow> \<not> srw_writer (pc d))
      else srw_write_locked l' = (if srw_writer (pc c) then 0 else srw_write_locked l)"
    and rd: "p = Sr_in \<Longrightarrow> \<forall>d. \<not> srw_writer (pc d)" and wr: "p = Sw_in \<Longrightarrow> \<forall>d. pc d \<noteq> Sr_in"
    and ck: "\<And>i. p = Sw_check i \<Longrightarrow> \<forall>d<i. pc d \<noteq> Sr_in"
  shows "srw_inv l' (pc(c := p))"
proof -
  let ?pc = "pc(c := p)"
  have o: "\<forall>d\<ge>JOS_NCPU. pc d = Srw_out"
    and u: "\<And>d e. srw_writer (pc d) \<Longrightarrow> srw_writer (pc e) \<Longrightarrow> d = e"
    and x: "rw_excl (\<lambda>p. p = Sr_in) (\<lambda>p. p = Sw_in) pc"
    using i by (auto simp: srw_inv_def)
  have "srw_write_locked l' = (if \<exists>d. srw_writer (?pc d) then 1 else 0)"
  proof (cases "srw_writer p")
    case True
    then have "srw_writer (?pc c)" by simp
    then show ?thesis using w True by (auto simp del: fun_upd_apply)
  next
    case False
    then have "(\<exists>d. srw_writer (?pc d)) \<longleftrightarrow> (\<exists>d. d \<noteq> c \<and> srw_writer (pc d))" by auto
    moreover have "(\<exists>d. d \<noteq> c \<and> srw_writer (pc d)) \<longleftrightarrow> \<not> srw_writer (pc c) \<and> (\<exists>d. srw_writer (pc d))" using u by metis
    ultimately show ?thesis using w False i by (simp add: srw_inv_def del: fun_upd_apply)
  qed
  moreover have "\<forall>d e. srw_writer (?pc d) \<longrightarrow> srw_writer (?pc e) \<longrightarrow> d = e"
    using u w by (auto split: if_splits)
  moreover have "\<forall>d i. ?pc d = Sw_check i \<longrightarrow> (\<forall>e<i. ?pc e \<noteq> Sr_in)"
  proof (intro allI impI)
    fix d i e assume d: "?pc d = Sw_check i" "e < i"
    show "?pc e \<noteq> Sr_in"
    proof (cases "d = c")
      case True
      then show ?thesis using ck d by auto
    next
      case False
      then have "srw_writer (pc d)" "pc e \<noteq> Sr_in" using d i by (auto simp: srw_inv_def srw_writer_def)
      then show ?thesis using rd by auto
    qed
  qed
  moreover have "rw_excl (\<lambda>p. p = Sr_in) (\<lambda>p. p = Sw_in) ?pc"
  proof (rule rw_excl_upd [OF x])
    show "pc d \<noteq> Sw_in" if "p = Sr_in" for d using rd [OF that] by (auto simp: srw_writer_def split: srw_pc.splits)
    show "pc d \<noteq> Sw_in \<and> pc d \<noteq> Sr_in" if "p = Sw_in" "d \<noteq> c" for d
      using wr w that by (auto simp: srw_writer_def split: srw_pc.splits)
  qed simp
  moreover have "\<forall>d<JOS_NCPU. srw_readers l' d = (if ?pc d = Sr_wait \<or> ?pc d = Sr_in then 1 else 0)"
    using r i by (auto simp: srw_inv_def)
  moreover have "\<forall>d\<ge>JOS_NCPU. ?pc d = Srw_out" using o c by simp
  ultimately show ?thesis unfolding srw_inv_def by (intro conjI)
qed

lemma srw_inv_facts:
  assumes "srw_inv l pc"
  shows "srw_write_locked l = 0 \<Longrightarrow> \<not> srw_writer (pc d)" "srw_writer (pc c) \<Longrightarrow> srw_write_locked l = 1"
    "srw_writer (pc c) \<Longrightarrow> d \<noteq> c \<Longrightarrow> \<not> srw_writer (pc d)" "srw_write_locked l \<noteq> 0 \<Longrightarrow> srw_write_locked l = 1"
    "c < JOS_NCPU \<Longrightarrow> srw_readers l c = (if pc c = Sr_wait \<or> pc c = Sr_in then 1 else 0)"
    "pc c = Sw_check i \<Longrightarrow> d < i \<Longrightarrow> pc d \<noteq> Sr_in"
  using assms unfolding srw_inv_def by (metis one_neq_zero)+

lemma srw_checked:
  assumes "srw_inv l pc" "pc c = Sw_check i" "srw_readers l i = 0" "d < Suc i"
  shows "pc d \<noteq> Sr_in"
proof (cases "d = i")
  case True
  then show ?thesis using assms by (cases "i < JOS_NCPU") (auto simp: srw_inv_def split: if_splits)
qed (use assms srw_inv_facts(6) in auto)

lemma srw_all_checked:
  assumes "srw_inv l pc" "pc c = Sw_check i" "srw_readers l i = 0" "\<not> Suc i < SRW_NREADERS"
  shows "pc d \<noteq> Sr_in"
  using srw_checked [OF assms(1-3), of d] assms by (cases "d < Suc i") (auto simp: srw_inv_def SRW_NREADERS_def JOS_NCPU_def)

lemma srw_act_inv:
  assumes i: "srw_inv l pc" and c: "c < JOS_NCPU" and a: "(p, l') \<in> set (srw_act c (pc c) l)"
  shows "srw_inv l' (pc(c := p))"
proof -
  have own: "srw_writer (pc c) \<longrightarrow> srw_write_locked l = 1 \<and> (\<forall>d. d \<noteq> c \<longrightarrow> \<not> srw_writer (pc d))"
    and free: "srw_write_locked l = 0 \<longrightarrow> (\<forall>d. \<not> srw_writer (pc d))" and two: "srw_write_locked l = 0 \<or> srw_write_locked l = 1"
    and cnt: "srw_readers l c = (if pc c = Sr_wait \<or> pc c = Sr_in then 1 else 0)"
    using srw_inv_facts [OF i] c by blast+
  have m: "c mod SRW_NREADERS = c" using c by (simp add: SRW_NREADERS_def JOS_NCPU_def)
  note upd = srw_upd [OF i c] and facts = a c own free two cnt m
  show ?thesis
  proof (cases "pc c")
    case (Sw_check j)
    note checked = srw_checked [OF i Sw_check] srw_all_checked [OF i Sw_check]
    show ?thesis by (rule upd) (use facts Sw_check checked in \<open>auto simp: srw_defs split: if_splits\<close>)
  next
    case Srw_out
    then show ?thesis using a cnt c by (auto simp: srw_defs m intro!: upd)
  next
    case Sr_wait
    then show ?thesis using a free cnt c by (auto simp: srw_defs intro!: upd split: if_splits)
  next
    case Sr_in
    then show ?thesis using a cnt c by (auto simp: srw_defs m intro!: upd split: if_splits)
  next
    case (Sw_scan i)
    then show ?thesis using a cnt c by (auto simp: srw_defs intro!: upd split: if_splits)
  next
    case Sw_cas
    then show ?thesis using a free two cnt c by (auto simp: srw_defs intro!: upd split: if_splits)
  next
    case Sw_back
    then show ?thesis using a cnt c by (auto simp: srw_defs intro!: upd split: if_splits)
  next
    case Sw_in
    then show ?thesis using a cnt c by (auto simp: srw_defs intro!: upd split: if_splits)
  qed
qed

interpretation srw: rw_mutex srw_act "(srw_init, \<lambda>_. Srw_out)" srw_inv "\<lambda>p. p = Sr_in" "\<lambda>p. p = Sw_in"
proof unfold_locales
  show "srw_inv (fst (srw_init, \<lambda>_. Srw_out)) (snd (srw_init, \<lambda>_. Srw_out))"
    by (simp add: srw_inv_def srw_init_def srw_writer_def rw_excl_def)
  show "srw_inv l' (pc(c := p))" if "srw_inv l pc" "c < JOS_NCPU" "(p, l') \<in> set (srw_act c (pc c) l)" for l l' pc c p
    using that by (rule srw_act_inv)
qed (simp add: srw_inv_def)

section \<open>What the locks promise\<close>

lemma rec_lock_enters:
  assumes "n < JOS_NCPU" "rl_owner r \<noteq> of_nat n" "pc n = Rec_out"
  shows "reaches rec_act (r, pc) (r\<lparr>rl_owner := of_nat n\<rparr>, pc(n := Rec_in))"
  by (rule run_reaches [of _ "[(n, 0), (n, 0)]"]) (use assms in \<open>simp add: rec_act_def rec_lock_def\<close>)

lemma rec_lock_enter_first:
  assumes "n \<le> JOS_NCPU"
  shows "\<exists>r. (\<forall>m. n \<le> m \<and> m < JOS_NCPU \<longrightarrow> rl_owner r \<noteq> of_nat m) \<and>
    reaches rec_act (rec_init, \<lambda>_. Rec_out) (r, \<lambda>c. if c < n then Rec_in else Rec_out)"
  using assms
proof (induction n)
  case 0
  have "rl_owner rec_init \<noteq> of_nat m" if "m < JOS_NCPU" for m
  proof
    assume "rl_owner rec_init = of_nat m"
    then have "unat (- 1 :: u32) = unat (of_nat m :: u32)" by (simp add: rec_init_def)
    then show False using that by (simp add: JOS_NCPU_def unat_of_nat unsigned_minus_1_eq_mask mask_eq_exp_minus_1)
  qed
  then show ?case by auto
next
  case (Suc n)
  then obtain r where r: "\<forall>m. n \<le> m \<and> m < JOS_NCPU \<longrightarrow> rl_owner r \<noteq> of_nat m"
    "reaches rec_act (rec_init, \<lambda>_. Rec_out) (r, \<lambda>c. if c < n then Rec_in else Rec_out)"
    by auto
  have n: "n < JOS_NCPU" using Suc.prems by simp
  have "(\<lambda>c. if c < n then Rec_in else Rec_out)(n := Rec_in) = (\<lambda>c. if c < Suc n then Rec_in else Rec_out)" by auto
  then have "reaches rec_act (rec_init, \<lambda>_. Rec_out) (r\<lparr>rl_owner := of_nat n\<rparr>, \<lambda>c. if c < Suc n then Rec_in else Rec_out)"
    using rtranclp_trans [OF r(2) rec_lock_enters [OF n]] r(1) n by simp
  moreover have "of_nat n \<noteq> (of_nat m :: u32)" if "Suc n \<le> m" "m < JOS_NCPU" for m
    using that by (simp add: JOS_NCPU_def word_unat_eq_iff unat_of_nat)
  ultimately show ?case by (intro exI [of _ "r\<lparr>rl_owner := of_nat n\<rparr>"]) auto
qed

text \<open>
  C35: the recursive lock excludes nobody: all processors can be between \<open>rec_lock\<close> and
  \<open>rec_unlock\<close> at the same time, as the missing semicolon after the return of \<open>rec_lock\<close> makes
  a processor that is not the owner go on without taking the spin lock.
\<close>

theorem rec_lock_excludes_nobody:
  "\<exists>r. reaches rec_act (rec_init, \<lambda>_. Rec_out) (r, \<lambda>c. if c < JOS_NCPU then Rec_in else Rec_out)"
  using rec_lock_enter_first [OF order_refl] by blast

text \<open>
  While a processor holds the reader/writer lock for writing no other processor does, and none
  reads, however the accesses of the processors to the word of the lock interleave.
\<close>

theorem rw_lock_exclusion:
  assumes "reaches rw_act (rw_init, \<lambda>_. Rw_out) (l, pc)" "pc c = Wr_in"
  shows "(pc d = Wr_in \<longrightarrow> c = d) \<and> pc d \<noteq> Rd_in"
  using rw.rw_exclusion [OF assms] .

text \<open>Processor 3 takes the lock to write, processor 5 fails to read it and is about to undo that.\<close>

theorem rw_lock_exclusion_witness:
  "\<exists>l pc. reaches rw_act (rw_init, \<lambda>_. Rw_out) (l, pc) \<and> pc 3 = Wr_in \<and> pc 5 = Rd_inc \<and>
    (\<forall>d. (pc d = Wr_in \<longrightarrow> 3 = d) \<and> pc d \<noteq> Rd_in)"
proof (intro exI conjI allI)
  let ?pc = "(\<lambda>_. Rw_out)(3 := Wr_in, 5 := Rd_inc) :: nat \<Rightarrow> rw_pc"
  show r: "reaches rw_act (rw_init, \<lambda>_. Rw_out) (- 1, ?pc)"
    by (rule run_reaches [of _ "[(3, 1), (5, 0)]"])
      (simp add: JOS_NCPU_def rw_act_def rw_read_lock_def rw_write_lock_def rw_init_def RW_LOCK_BIAS_def)
  show "?pc d = Wr_in \<longrightarrow> 3 = d" "?pc d \<noteq> Rd_in" for d using rw_lock_exclusion [OF r, of 3 d] by simp_all
qed simp_all

end
