(* ===== verification/Mcs.thy ===== *)
theory Mcs
  imports Locks
begin

text \<open>
  The queue lock of Mellor-Crummey and Scott and the reader/writer lock built on it, of
  \<^verbatim>\<open>kern/arch/amd64/mcs.h\<close>.  The lock keeps a pointer to the node of the last processor that
  asked for it and one node per processor; a node is named by the processor it belongs to.  It is shown
  that the lock refines a queue of processors, whose head holds the lock, and that a processor that
  waits is served whatever state the lock has got into.
\<close>

section \<open>The lock\<close>

record mcslock =
  ml_v :: "nat option"
  ml_next :: "nat \<Rightarrow> nat option"
  ml_locked :: "nat \<Rightarrow> bool"

datatype mcs_pc =
    Mcs_out
  | Mcs_next
  | Mcs_swap
  | Mcs_set nat
  | Mcs_link nat
  | Mcs_spin
  | Mcs_in
  | Mcs_cas
  | Mcs_wait
  | Mcs_load
  | Mcs_hand nat

definition mcs_init :: mcslock where
  "mcs_init = \<lparr>ml_v = None, ml_next = (\<lambda>_. None), ml_locked = (\<lambda>_. False)\<rparr>"

definition fetch_and_store :: "nat option \<Rightarrow> mcslock \<Rightarrow> nat option \<times> mcslock" where
  "fetch_and_store n ml = (ml_v ml, ml\<lparr>ml_v := n\<rparr>)"

definition cmp_and_swap :: "nat option \<Rightarrow> nat option \<Rightarrow> mcslock \<Rightarrow> bool \<times> mcslock" where
  "cmp_and_swap n newval ml = (if ml_v ml = n then (True, ml\<lparr>ml_v := newval\<rparr>) else (False, ml))"

definition mcs_lock :: "nat \<Rightarrow> mcs_pc \<Rightarrow> mcslock \<Rightarrow> mcs_pc \<times> mcslock" where
  "mcs_lock cpu p ml =
     (case p of
        Mcs_out \<Rightarrow> (Mcs_next, ml)
      | Mcs_next \<Rightarrow> (Mcs_swap, ml\<lparr>ml_next := (ml_next ml)(cpu := None)\<rparr>)
      | Mcs_swap \<Rightarrow>
          (let (predecessor, ml) = fetch_and_store (Some cpu) ml
           in (case predecessor of None \<Rightarrow> Mcs_in | Some q \<Rightarrow> Mcs_set q, ml))
      | Mcs_set q \<Rightarrow> (Mcs_link q, ml\<lparr>ml_locked := (ml_locked ml)(cpu := True)\<rparr>)
      | Mcs_link q \<Rightarrow> (Mcs_spin, ml\<lparr>ml_next := (ml_next ml)(q := Some cpu)\<rparr>)
      | Mcs_spin \<Rightarrow> (if ml_locked ml cpu then Mcs_spin else Mcs_in, ml)
      | _ \<Rightarrow> (p, ml))"

text \<open>
  The last line of \<open>mcs_unlock\<close> reads the pointer to the next node and then writes to that node.
\<close>

definition mcs_unlock :: "nat \<Rightarrow> mcs_pc \<Rightarrow> mcslock \<Rightarrow> mcs_pc \<times> mcslock" where
  "mcs_unlock cpu p ml =
     (case p of
        Mcs_in \<Rightarrow> (if ml_next ml cpu = None then Mcs_cas else Mcs_load, ml)
      | Mcs_cas \<Rightarrow>
          (let (swapped, ml) = cmp_and_swap (Some cpu) None ml in (if swapped then Mcs_out else Mcs_wait, ml))
      | Mcs_wait \<Rightarrow> (if ml_next ml cpu = None then Mcs_wait else Mcs_load, ml)
      | Mcs_load \<Rightarrow> (case ml_next ml cpu of None \<Rightarrow> Mcs_load | Some n \<Rightarrow> Mcs_hand n, ml)
      | Mcs_hand n \<Rightarrow> (Mcs_out, ml\<lparr>ml_locked := (ml_locked ml)(n := False)\<rparr>)
      | _ \<Rightarrow> (p, ml))"

definition mcs_locking :: "mcs_pc \<Rightarrow> bool" where
  "mcs_locking p = (case p of Mcs_next \<Rightarrow> True | Mcs_swap \<Rightarrow> True | Mcs_set q \<Rightarrow> True | Mcs_link q \<Rightarrow> True | Mcs_spin \<Rightarrow> True | _ \<Rightarrow> False)"

definition mcs_unlocking :: "mcs_pc \<Rightarrow> bool" where
  "mcs_unlocking p = (case p of Mcs_in \<Rightarrow> True | Mcs_cas \<Rightarrow> True | Mcs_wait \<Rightarrow> True | Mcs_load \<Rightarrow> True | Mcs_hand n \<Rightarrow> True | _ \<Rightarrow> False)"

definition mcs_go :: "nat \<Rightarrow> mcs_pc \<Rightarrow> mcslock \<Rightarrow> mcs_pc \<times> mcslock" where
  "mcs_go c p ml = (if mcs_unlocking p then mcs_unlock c p ml else mcs_lock c p ml)"

definition mcs_act :: "(mcs_pc, mcslock) act" where
  "mcs_act c p ml = [mcs_go c p ml]"

section \<open>The queue behind the lock\<close>

text \<open>
  A processor is queued from its exchange of the tail pointer until it hands the lock over.  Of two
  neighbours the second has yet to link itself to the first or waits for it; the first of the queue
  holds the lock or has been handed it.
\<close>

definition mcs_queued :: "mcs_pc \<Rightarrow> bool" where
  "mcs_queued p \<longleftrightarrow> p \<notin> {Mcs_out, Mcs_next, Mcs_swap}"

definition mcs_edge :: "mcslock \<Rightarrow> (nat \<Rightarrow> mcs_pc) \<Rightarrow> nat \<Rightarrow> nat \<Rightarrow> bool" where
  "mcs_edge ml pc a b =
     (case pc b of
        Mcs_set p \<Rightarrow> p = a \<and> ml_next ml a = None
      | Mcs_link p \<Rightarrow> p = a \<and> ml_next ml a = None \<and> ml_locked ml b
      | Mcs_spin \<Rightarrow> ml_next ml a = Some b \<and> ml_locked ml b
      | _ \<Rightarrow> False)"

fun mcs_links :: "mcslock \<Rightarrow> (nat \<Rightarrow> mcs_pc) \<Rightarrow> nat list \<Rightarrow> bool" where
  "mcs_links ml pc (a # b # q) \<longleftrightarrow> mcs_edge ml pc a b \<and> mcs_links ml pc (b # q)"
| "mcs_links ml pc q \<longleftrightarrow> True"

definition mcs_first :: "mcslock \<Rightarrow> (nat \<Rightarrow> mcs_pc) \<Rightarrow> nat list \<Rightarrow> bool" where
  "mcs_first ml pc q =
     (case pc (hd q) of
        Mcs_spin \<Rightarrow> \<not> ml_locked ml (hd q)
      | Mcs_in \<Rightarrow> True
      | Mcs_cas \<Rightarrow> True
      | Mcs_wait \<Rightarrow> tl q \<noteq> []
      | Mcs_load \<Rightarrow> ml_next ml (hd q) \<noteq> None
      | Mcs_hand n \<Rightarrow> ml_next ml (hd q) = Some n
      | _ \<Rightarrow> False)"

definition mcs_rel :: "mcslock \<Rightarrow> (nat \<Rightarrow> mcs_pc) \<Rightarrow> nat list \<Rightarrow> bool" where
  "mcs_rel ml pc q \<longleftrightarrow>
     distinct q \<and> (\<forall>c. c \<in> set q \<longleftrightarrow> mcs_queued (pc c)) \<and> (\<forall>c\<ge>JOS_NCPU. pc c = Mcs_out) \<and>
     ml_v ml = (if q = [] then None else Some (last q)) \<and> mcs_links ml pc q \<and>
     (q \<noteq> [] \<longrightarrow> ml_next ml (last q) = None \<and> mcs_first ml pc q) \<and>
     (\<forall>c. pc c = Mcs_swap \<longrightarrow> ml_next ml c = None)"

text \<open>What a step of a processor does to the queue.\<close>

definition mcs_queue :: "nat \<Rightarrow> mcs_pc \<Rightarrow> mcslock \<Rightarrow> nat list \<Rightarrow> nat list" where
  "mcs_queue c p ml q =
     (case p of
        Mcs_swap \<Rightarrow> q @ [c]
      | Mcs_cas \<Rightarrow> if ml_v ml = Some c then tl q else q
      | Mcs_hand n \<Rightarrow> tl q
      | _ \<Rightarrow> q)"

lemma mcs_links_cong:
  assumes "\<forall>b\<in>set (tl q). pc' b = pc b \<and> ml_locked ml' b = ml_locked ml b" "\<forall>a\<in>set (butlast q). ml_next ml' a = ml_next ml a"
  shows "mcs_links ml' pc' q = mcs_links ml pc q"
  using assms by (induction ml pc q rule: mcs_links.induct) (auto simp: mcs_edge_def split: if_splits mcs_pc.splits)

lemma mcs_links_append: "mcs_links ml pc (xs @ a # ys) \<longleftrightarrow> mcs_links ml pc (xs @ [a]) \<and> mcs_links ml pc (a # ys)"
  by (induction xs rule: induct_list012) (cases ys; auto)+

lemma in_set_tlD: "x \<in> set (tl q) \<Longrightarrow> x \<in> set q"
  by (cases q) auto

lemma queue_cases:
  assumes "c \<in> set q"
  obtains q1 where "q = c # q1" | xs a ys where "q = xs @ a # c # ys"
proof -
  obtain us ys where q: "q = us @ c # ys" using assms by (auto dest: split_list)
  show thesis
  proof (cases us rule: rev_cases)
    case Nil
    then show ?thesis using q that(1) by simp
  next
    case (snoc xs a)
    then show ?thesis using q that(2) [of xs a ys] by simp
  qed
qed

lemma mcs_rel_waiter:
  assumes "mcs_rel ml pc (xs @ a # c # ys)"
  shows "mcs_edge ml pc a c" "mcs_links ml pc (xs @ [a])" "mcs_links ml pc (c # ys)"
  using assms mcs_links_append [of ml pc xs a "c # ys"] by (auto simp: mcs_rel_def)

lemma mcs_rel_first:
  assumes "mcs_rel ml pc q" "c \<in> set q" "\<not> (\<exists>a. mcs_edge ml pc a c)"
  obtains q1 where "q = c # q1"
  using assms(2) by (rule queue_cases) (use assms mcs_rel_waiter in blast)+

lemma mcs_rel_queued: "mcs_rel ml pc q \<Longrightarrow> mcs_queued (pc c) \<Longrightarrow> c \<in> set q"
  by (simp add: mcs_rel_def)

text \<open>A step of a processor that is not queued leaves the queue as it is, or adds the processor.\<close>

lemma mcs_step_outside:
  assumes "mcs_rel ml pc q" "c < JOS_NCPU" "\<not> mcs_queued p" "\<not> mcs_queued (pc c)"
    "\<forall>d. d \<noteq> c \<longrightarrow> ml_next ml' d = ml_next ml d" "ml_locked ml' = ml_locked ml" "ml_v ml' = ml_v ml"
    "p = Mcs_swap \<longrightarrow> ml_next ml' c = None"
  shows "mcs_rel ml' (pc(c := p)) q"
proof -
  have c: "c \<notin> set q" using assms(1,4) by (simp add: mcs_rel_def)
  have "mcs_links ml' (pc(c := p)) q = mcs_links ml pc q"
    by (rule mcs_links_cong) (use c assms(5,6) in \<open>auto dest: in_set_tlD in_set_butlastD\<close>)
  moreover have "mcs_first ml' (pc(c := p)) q = mcs_first ml pc q" if "q \<noteq> []"
  proof -
    have "hd q \<noteq> c" using that c by (metis hd_in_set)
    then show ?thesis using assms(5,6) by (simp add: mcs_first_def split: mcs_pc.split)
  qed
  moreover have "last q \<noteq> c" if "q \<noteq> []" using that c by (metis last_in_set)
  ultimately show ?thesis using assms c by (auto simp: mcs_rel_def)
qed

lemma mcs_step_swap:
  assumes "mcs_rel ml pc q" "c < JOS_NCPU" "pc c = Mcs_swap"
  shows "mcs_rel (ml\<lparr>ml_v := Some c\<rparr>) (pc(c := case ml_v ml of None \<Rightarrow> Mcs_in | Some a \<Rightarrow> Mcs_set a)) (q @ [c])"
proof -
  let ?ml = "ml\<lparr>ml_v := Some c\<rparr>" and ?pc = "pc(c := case ml_v ml of None \<Rightarrow> Mcs_in | Some a \<Rightarrow> Mcs_set a)"
  have c: "c \<notin> set q" using assms(1,3) by (simp add: mcs_rel_def mcs_queued_def)
  have l: "mcs_links ?ml ?pc q = mcs_links ml pc q"
    by (rule mcs_links_cong) (use c in \<open>auto dest: in_set_tlD\<close>)
  have "mcs_links ?ml ?pc (q @ [c])"
  proof (cases q rule: rev_cases)
    case (snoc xs a)
    then show ?thesis using l assms(1) mcs_links_append [of ?ml ?pc xs a "[c]"] by (auto simp: mcs_rel_def mcs_edge_def)
  qed simp
  moreover have "mcs_first ?ml ?pc (q @ [c])"
  proof (cases q)
    case (Cons h t)
    then show ?thesis using assms(1) c by (auto simp: mcs_rel_def mcs_first_def split: mcs_pc.splits)
  qed (use assms(1) in \<open>simp add: mcs_rel_def mcs_first_def\<close>)
  ultimately show ?thesis
    using assms c by (auto simp: mcs_rel_def mcs_queued_def split: option.splits)
qed

text \<open>A processor that joined the queue links itself to the one before it.\<close>

lemma mcs_step_set:
  assumes "mcs_rel ml pc q" "c < JOS_NCPU" "pc c = Mcs_set p"
  shows "mcs_rel (ml\<lparr>ml_locked := (ml_locked ml)(c := True)\<rparr>) (pc(c := Mcs_link p)) q"
proof -
  let ?ml = "ml\<lparr>ml_locked := (ml_locked ml)(c := True)\<rparr>" and ?pc = "pc(c := Mcs_link p)"
  have "c \<in> set q" using assms by (simp add: mcs_rel_def mcs_queued_def)
  then obtain xs a ys where q: "q = xs @ a # c # ys"
    by (rule queue_cases) (use assms in \<open>auto simp: mcs_rel_def mcs_first_def\<close>)
  note w = mcs_rel_waiter [OF assms(1) [unfolded q]]
  have d: "distinct q" using assms(1) by (simp add: mcs_rel_def)
  have "mcs_links ?ml ?pc (xs @ [a]) = mcs_links ml pc (xs @ [a])"
    by (rule mcs_links_cong) (use d q in \<open>auto dest: in_set_tlD in_set_butlastD\<close>)
  moreover have "mcs_links ?ml ?pc (c # ys) = mcs_links ml pc (c # ys)"
    by (rule mcs_links_cong) (use d q in \<open>auto dest: in_set_tlD in_set_butlastD\<close>)
  ultimately have "mcs_links ?ml ?pc q"
    using w assms(3) d unfolding q mcs_links_append [of ?ml ?pc xs a "c # ys"] by (auto simp: mcs_edge_def)
  moreover have "mcs_first ?ml ?pc q"
    using assms(1) d unfolding q by (cases xs) (auto simp: mcs_rel_def mcs_first_def split: mcs_pc.splits)
  ultimately show ?thesis using assms unfolding q by (auto simp: mcs_rel_def mcs_queued_def)
qed

lemma mcs_step_link:
  assumes "mcs_rel ml pc q" "c < JOS_NCPU" "pc c = Mcs_link p"
  shows "mcs_rel (ml\<lparr>ml_next := (ml_next ml)(p := Some c)\<rparr>) (pc(c := Mcs_spin)) q"
proof -
  let ?ml = "ml\<lparr>ml_next := (ml_next ml)(p := Some c)\<rparr>" and ?pc = "pc(c := Mcs_spin)"
  have "c \<in> set q" using assms by (simp add: mcs_rel_def mcs_queued_def)
  then obtain xs a ys where q: "q = xs @ a # c # ys"
    by (rule queue_cases) (use assms in \<open>auto simp: mcs_rel_def mcs_first_def\<close>)
  note w = mcs_rel_waiter [OF assms(1) [unfolded q]]
  have d: "distinct q" using assms(1) by (simp add: mcs_rel_def)
  have p: "p = a" "ml_next ml a = None" "ml_locked ml c" using w(1) assms(3) by (auto simp: mcs_edge_def)
  have "mcs_links ?ml ?pc (xs @ [a]) = mcs_links ml pc (xs @ [a])"
    by (rule mcs_links_cong) (use d q p in \<open>auto dest: in_set_tlD in_set_butlastD\<close>)
  moreover have "mcs_links ?ml ?pc (c # ys) = mcs_links ml pc (c # ys)"
    by (rule mcs_links_cong) (use d q p in \<open>auto dest: in_set_tlD in_set_butlastD\<close>)
  ultimately have "mcs_links ?ml ?pc q"
    using w p d unfolding q mcs_links_append [of ?ml ?pc xs a "c # ys"] by (auto simp: mcs_edge_def)
  moreover have "mcs_first ?ml ?pc q"
    using assms(1) d p unfolding q by (cases xs) (auto simp: mcs_rel_def mcs_first_def split: mcs_pc.splits)
  moreover have "mcs_queued (pc a)" using assms(1) q by (auto simp: mcs_rel_def)
  ultimately show ?thesis using assms p d unfolding q by (auto simp: mcs_rel_def mcs_queued_def)
qed

text \<open>The head of the queue moves on.\<close>

lemma mcs_step_head:
  assumes "mcs_rel ml pc (c # q1)" "c < JOS_NCPU" "mcs_queued p" "mcs_first ml (pc(c := p)) (c # q1)"
  shows "mcs_rel ml (pc(c := p)) (c # q1)"
proof -
  have "mcs_links ml (pc(c := p)) (c # q1) = mcs_links ml pc (c # q1)"
    by (rule mcs_links_cong) (use assms(1) in \<open>auto simp: mcs_rel_def\<close>)
  moreover have "mcs_queued (pc c)" using assms(1) by (auto simp: mcs_rel_def)
  ultimately show ?thesis using assms by (auto simp: mcs_rel_def mcs_queued_def)
qed

lemma mcs_step_hand:
  assumes "mcs_rel ml pc (c # q1)" "c < JOS_NCPU" "pc c = Mcs_hand n"
  shows "mcs_rel (ml\<lparr>ml_locked := (ml_locked ml)(n := False)\<rparr>) (pc(c := Mcs_out)) q1"
proof -
  let ?ml = "ml\<lparr>ml_locked := (ml_locked ml)(n := False)\<rparr>" and ?pc = "pc(c := Mcs_out)"
  have n: "ml_next ml c = Some n" using assms by (auto simp: mcs_rel_def mcs_first_def)
  then obtain b q2 where q: "q1 = b # q2" using assms(1) by (cases q1) (auto simp: mcs_rel_def)
  have e: "mcs_edge ml pc c b" "mcs_links ml pc (b # q2)" and d: "distinct (c # b # q2)" using assms(1) q by (auto simp: mcs_rel_def)
  then have b: "n = b" "pc b = Mcs_spin" using n by (auto simp: mcs_edge_def split: mcs_pc.splits)
  have "mcs_links ?ml ?pc (b # q2) = mcs_links ml pc (b # q2)"
    by (rule mcs_links_cong) (use d b in \<open>auto dest: in_set_tlD\<close>)
  then show ?thesis using assms b d e unfolding q by (auto simp: mcs_rel_def mcs_first_def mcs_queued_def split: if_splits)
qed

lemma mcs_step_cas:
  assumes "mcs_rel ml pc (c # q1)" "c < JOS_NCPU" "pc c = Mcs_cas" "ml_v ml = Some c"
  shows "q1 = [] \<and> mcs_rel (ml\<lparr>ml_v := None\<rparr>) (pc(c := Mcs_out)) []"
proof -
  have "q1 = []" using assms by (auto simp: mcs_rel_def split: if_splits)
  then show ?thesis using assms by (auto simp: mcs_rel_def mcs_queued_def split: if_splits)
qed

lemmas mcs_run_defs = mcs_go_def mcs_unlocking_def mcs_lock_def mcs_unlock_def fetch_and_store_def cmp_and_swap_def mcs_queue_def

lemma mcs_go_rel:
  assumes r: "mcs_rel ml pc q" and c: "c < JOS_NCPU" and g: "mcs_go c (pc c) ml = (p, ml')"
  shows "mcs_rel ml' (pc(c := p)) (mcs_queue c (pc c) ml q)"
proof -
  have head: "\<exists>q1. q = c # q1" if "mcs_unlocking (pc c) \<or> pc c = Mcs_spin \<and> \<not> ml_locked ml c"
  proof -
    have "c \<in> set q" using r that by (auto simp: mcs_rel_def mcs_queued_def mcs_unlocking_def split: mcs_pc.splits)
    then show ?thesis
      by (rule mcs_rel_first [OF r]) (use that in \<open>auto simp: mcs_edge_def mcs_unlocking_def split: mcs_pc.splits\<close>)
  qed
  show ?thesis
  proof (cases "mcs_unlocking (pc c) \<or> pc c = Mcs_spin \<and> \<not> ml_locked ml c")
    case True
    then obtain q1 where q: "q = c # q1" using head by blast
    note r = r [unfolded q]
    have f: "mcs_first ml pc (c # q1)" using r by (simp add: mcs_rel_def)
    have "q1 \<noteq> []" if "ml_v ml \<noteq> Some c" using that r by (auto simp: mcs_rel_def)
    then show ?thesis
      using True g f mcs_step_head [OF r c] mcs_step_hand [OF r c] mcs_step_cas [OF r c] unfolding q
      by (cases "pc c") (auto simp: mcs_run_defs mcs_first_def mcs_queued_def split: if_splits option.splits)
  next
    case False
    moreover have "pc(c := Mcs_spin) = pc" if "pc c = Mcs_spin" using that by (simp add: fun_upd_idem)
    ultimately show ?thesis
      using g mcs_step_outside [OF r c] mcs_step_swap [OF r c] mcs_step_set [OF r c] mcs_step_link [OF r c] r
      by (cases "pc c") (auto simp: mcs_run_defs mcs_queued_def split: if_splits)
  qed
qed

lemma mcs_rel_init: "mcs_rel mcs_init (\<lambda>_. Mcs_out) []"
  by (simp add: mcs_rel_def mcs_init_def mcs_queued_def)

definition mcs_inv :: "mcslock \<Rightarrow> (nat \<Rightarrow> mcs_pc) \<Rightarrow> bool" where
  "mcs_inv ml pc \<longleftrightarrow> (\<exists>q. mcs_rel ml pc q)"

lemma mcs_rel_holder:
  assumes "mcs_rel ml pc q" "mcs_unlocking (pc c)"
  shows "q \<noteq> [] \<and> c = hd q"
proof -
  have "c \<in> set q"
    using assms by (intro mcs_rel_queued) (auto simp: mcs_queued_def mcs_unlocking_def split: mcs_pc.splits)
  then show ?thesis
    by (rule mcs_rel_first [OF assms(1)]) (use assms(2) in \<open>auto simp: mcs_edge_def mcs_unlocking_def split: mcs_pc.splits\<close>)
qed

interpretation mcs: mutex mcs_act "(mcs_init, \<lambda>_. Mcs_out)" mcs_inv mcs_unlocking
proof unfold_locales
  show "mcs_inv (fst (mcs_init, \<lambda>_. Mcs_out)) (snd (mcs_init, \<lambda>_. Mcs_out))"
    using mcs_rel_init by (auto simp: mcs_inv_def)
  show "mcs_inv ml' (pc(c := p))" if "mcs_inv ml pc" "c < JOS_NCPU" "(p, ml') \<in> set (mcs_act c (pc c) ml)" for ml ml' pc c p
    using that mcs_go_rel [of ml pc _ c p ml'] by (auto simp: mcs_inv_def mcs_act_def)
  show "c = d" if "mcs_inv ml pc" "mcs_unlocking (pc c)" "mcs_unlocking (pc d)" for ml pc c d
    using that mcs_rel_holder unfolding mcs_inv_def by metis
qed

section \<open>The lock is a queue\<close>

text \<open>The specification: processors join a queue at its end, once each, and leave it at its head.\<close>

inductive queue_step :: "nat list \<Rightarrow> nat list \<Rightarrow> bool" where
  join: "c \<notin> set q \<Longrightarrow> queue_step q (q @ [c])"
| leave: "queue_step (c # q) q"

lemma mcs_queue_steps:
  assumes "mcs_rel ml pc q"
  shows "rtranclp queue_step q (mcs_queue c (pc c) ml q)"
proof -
  have "queue_step q (tl q)" if "mcs_unlocking (pc c)"
    using mcs_rel_holder [OF assms that] leave [of "hd q" "tl q"] by simp
  moreover have "queue_step q (q @ [c])" if "pc c = Mcs_swap"
    using that assms by (intro join) (simp add: mcs_rel_def mcs_queued_def)
  ultimately show ?thesis by (auto simp: mcs_queue_def mcs_unlocking_def split: mcs_pc.splits)
qed

lemma mcs_reach_queue:
  assumes "reaches mcs_act (mcs_init, \<lambda>_. Mcs_out) s"
  shows "\<exists>q. rtranclp queue_step [] q \<and> mcs_rel (fst s) (snd s) q"
  using assms
proof induction
  case base
  show ?case using mcs_rel_init by auto
next
  case (step s t)
  then obtain q where q: "rtranclp queue_step [] q" "mcs_rel (fst s) (snd s) q" by blast
  from step(2) obtain c p ml ml' pc where t: "s = (ml, pc)" "t = (ml', pc(c := p))" "c < JOS_NCPU" "mcs_go c (pc c) ml = (p, ml')"
    by (auto simp: mcs_act_def elim!: interleaveE)
  have r: "mcs_rel ml' (pc(c := p)) (mcs_queue c (pc c) ml q)" using mcs_go_rel [of ml pc q c p ml'] q(2) t by simp
  moreover have "rtranclp queue_step [] (mcs_queue c (pc c) ml q)"
    using rtranclp_trans [OF q(1) mcs_queue_steps [of ml pc q c]] q(2) t by simp
  ultimately show ?case unfolding t(2) fst_conv snd_conv by blast
qed



section \<open>Waiting processors are served\<close>

lemma mcs_go_reaches: "c < JOS_NCPU \<Longrightarrow> mcs_go c (pc c) ml = (p, ml') \<Longrightarrow> reaches mcs_act (ml, pc) (ml', pc(c := p))"
  by (auto simp: mcs_act_def intro!: access)

lemma mcs_advance:
  assumes "mcs_rel ml pc q" "c < JOS_NCPU" "mcs_go c (pc c) ml = (p, ml')" "mcs_queue c (pc c) ml q = q'"
  shows "reaches mcs_act (ml, pc) (ml', pc(c := p)) \<and> mcs_rel ml' (pc(c := p)) q'"
  using mcs_go_reaches [of c pc ml p ml', OF assms(2,3)] mcs_go_rel [OF assms(1-3)] assms(4) by simp

lemma mcs_rel_cpu: "mcs_rel ml pc q \<Longrightarrow> c \<in> set q \<Longrightarrow> c < JOS_NCPU"
  unfolding mcs_rel_def mcs_queued_def by (metis insertI1 leI)

text \<open>The second of the queue can link itself to the first.\<close>

lemma mcs_link_up:
  assumes "mcs_rel ml pc (h # b # q)"
  shows "\<exists>ml' pc'. reaches mcs_act (ml, pc) (ml', pc') \<and> mcs_rel ml' pc' (h # b # q) \<and> ml_next ml' h = Some b"
proof -
  have b: "b < JOS_NCPU" using mcs_rel_cpu [OF assms] by simp
  have link: "\<exists>ml' pc'. reaches mcs_act (ml, pc) (ml', pc') \<and> mcs_rel ml' pc' (h # b # q) \<and> ml_next ml' h = Some b"
    if r: "mcs_rel ml pc (h # b # q)" and l: "pc b = Mcs_link h" for ml pc
    using mcs_advance [OF r b, of Mcs_spin "ml\<lparr>ml_next := (ml_next ml)(h := Some b)\<rparr>" "h # b # q"]
    by (intro exI [of _ "ml\<lparr>ml_next := (ml_next ml)(h := Some b)\<rparr>"] exI [of _ "pc(b := Mcs_spin)"])
      (simp add: l mcs_run_defs)
  have e: "mcs_edge ml pc h b" using assms by (simp add: mcs_rel_def)
  consider "pc b = Mcs_set h" | "pc b = Mcs_link h" | "ml_next ml h = Some b"
    using e by (auto simp: mcs_edge_def split: mcs_pc.splits)
  then show ?thesis
  proof cases
    case 1
    let ?ml = "ml\<lparr>ml_locked := (ml_locked ml)(b := True)\<rparr>"
    have "reaches mcs_act (ml, pc) (?ml, pc(b := Mcs_link h)) \<and> mcs_rel ?ml (pc(b := Mcs_link h)) (h # b # q)"
      by (rule mcs_advance [OF assms b]) (simp_all add: 1 mcs_run_defs)
    then show ?thesis using link [of ?ml "pc(b := Mcs_link h)"] by (meson fun_upd_same rtranclp_trans)
  next
    case 2
    then show ?thesis using link assms by blast
  next
    case 3
    then show ?thesis using assms by blast
  qed
qed

definition mcs_rank :: "mcs_pc \<Rightarrow> nat" where
  "mcs_rank p = (case p of Mcs_spin \<Rightarrow> 5 | Mcs_in \<Rightarrow> 4 | Mcs_cas \<Rightarrow> 3 | Mcs_wait \<Rightarrow> 2 | Mcs_load \<Rightarrow> 1 | _ \<Rightarrow> 0)"

text \<open>The first then hands the lock over to it.\<close>

lemma mcs_head_leaves:
  assumes "mcs_rel ml pc (h # b # q)" "ml_next ml h = Some b"
  shows "\<exists>ml' pc'. reaches mcs_act (ml, pc) (ml', pc') \<and> mcs_rel ml' pc' (b # q) \<and> pc' b = Mcs_spin"
  using assms
proof (induction "mcs_rank (pc h)" arbitrary: ml pc rule: less_induct)
  case less
  note r = less.prems(1) and n = less.prems(2)
  have h: "h < JOS_NCPU" using mcs_rel_cpu [OF r] by simp
  have e: "mcs_edge ml pc h b" and f: "mcs_first ml pc (h # b # q)" and d: "h \<noteq> b" and v: "ml_v ml \<noteq> Some h"
    using r by (auto simp: mcs_rel_def split: if_splits)
  have b: "pc b = Mcs_spin" using e n by (auto simp: mcs_edge_def split: mcs_pc.splits)
  have go: ?case if g: "mcs_go h (pc h) ml = (p, ml)" "mcs_queue h (pc h) ml (h # b # q) = h # b # q" "mcs_rank p < mcs_rank (pc h)" for p
  proof -
    have s: "reaches mcs_act (ml, pc) (ml, pc(h := p)) \<and> mcs_rel ml (pc(h := p)) (h # b # q)"
      by (rule mcs_advance [OF r h g(1,2)])
    then have "\<exists>ml' pc'. reaches mcs_act (ml, pc(h := p)) (ml', pc') \<and> mcs_rel ml' pc' (b # q) \<and> pc' b = Mcs_spin"
      using g(3) n by (intro less.hyps) simp_all
    then show ?thesis using s by (meson rtranclp_trans)
  qed
  show ?case
  proof (cases "pc h")
    case (Mcs_hand m)
    let ?ml = "ml\<lparr>ml_locked := (ml_locked ml)(m := False)\<rparr>"
    have "reaches mcs_act (ml, pc) (?ml, pc(h := Mcs_out)) \<and> mcs_rel ?ml (pc(h := Mcs_out)) (b # q)"
      by (rule mcs_advance [OF r h]) (simp_all add: Mcs_hand mcs_run_defs)
    then show ?thesis using b d by (intro exI [of _ ?ml] exI [of _ "pc(h := Mcs_out)"]) simp
  next
    case Mcs_spin
    show ?thesis by (rule go [of Mcs_in]) (use f Mcs_spin in \<open>simp_all add: mcs_run_defs mcs_rank_def mcs_first_def\<close>)
  next
    case Mcs_in
    show ?thesis by (rule go [of Mcs_load]) (use n Mcs_in in \<open>simp_all add: mcs_run_defs mcs_rank_def\<close>)
  next
    case Mcs_cas
    show ?thesis by (rule go [of Mcs_wait]) (use v Mcs_cas in \<open>simp_all add: mcs_run_defs mcs_rank_def\<close>)
  next
    case Mcs_wait
    show ?thesis by (rule go [of Mcs_load]) (use n Mcs_wait in \<open>simp_all add: mcs_run_defs mcs_rank_def\<close>)
  next
    case Mcs_load
    show ?thesis by (rule go [of "Mcs_hand b"]) (use n Mcs_load in \<open>simp_all add: mcs_run_defs mcs_rank_def\<close>)
  qed (use f in \<open>simp_all add: mcs_first_def\<close>)
qed

lemma mcs_reach_head:
  assumes "mcs_rel ml pc (xs @ c # ys)" "xs = [] \<longrightarrow> pc c = Mcs_spin"
  shows "\<exists>ml' pc'. reaches mcs_act (ml, pc) (ml', pc') \<and> mcs_rel ml' pc' (c # ys) \<and> pc' c = Mcs_spin"
  using assms
proof (induction xs arbitrary: ml pc)
  case Nil
  then show ?case by auto
next
  case (Cons h xs)
  obtain b q where q: "xs @ c # ys = b # q" "xs = [] \<longrightarrow> b = c" by (cases xs) auto
  obtain ml1 pc1 where 1: "reaches mcs_act (ml, pc) (ml1, pc1)" "mcs_rel ml1 pc1 (h # b # q)" "ml_next ml1 h = Some b"
    using mcs_link_up [of ml pc h b q] Cons.prems q by auto
  obtain ml2 pc2 where 2: "reaches mcs_act (ml1, pc1) (ml2, pc2)" "mcs_rel ml2 pc2 (b # q)" "pc2 b = Mcs_spin"
    using mcs_head_leaves [OF 1(2,3)] by blast
  show ?case using Cons.IH [of ml2 pc2] 1(1) 2 q by (metis rtranclp_trans)
qed

lemma mcs_queued_served:
  assumes "mcs_rel ml pc q" "mcs_queued (pc c)" "mcs_locking (pc c)"
  shows "\<exists>ml' pc'. reaches mcs_act (ml, pc) (ml', pc') \<and> pc' c = Mcs_in"
proof -
  obtain xs ys where q: "q = xs @ c # ys" using mcs_rel_queued [OF assms(1,2)] by (auto dest: split_list)
  have "xs = [] \<longrightarrow> pc c = Mcs_spin"
    using assms(1,3) q by (auto simp: mcs_rel_def mcs_first_def mcs_locking_def split: mcs_pc.splits)
  then obtain ml1 pc1 where 1: "reaches mcs_act (ml, pc) (ml1, pc1)" "mcs_rel ml1 pc1 (c # ys)" "pc1 c = Mcs_spin"
    using mcs_reach_head assms(1) q by blast
  then have "mcs_go c (pc1 c) ml1 = (Mcs_in, ml1)" by (auto simp: mcs_run_defs mcs_rel_def mcs_first_def)
  then have "reaches mcs_act (ml1, pc1) (ml1, pc1(c := Mcs_in))" using mcs_go_reaches mcs_rel_cpu [OF 1(2)] by simp
  then show ?thesis using 1(1) by (meson fun_upd_same rtranclp_trans)
qed

lemma mcs_swap_served:
  assumes "mcs_rel ml pc q" "c < JOS_NCPU" "pc c = Mcs_swap"
  shows "\<exists>ml' pc'. reaches mcs_act (ml, pc) (ml', pc') \<and> pc' c = Mcs_in"
proof -
  obtain p ml1 where g: "mcs_go c (pc c) ml = (p, ml1)" "p = Mcs_in \<or> mcs_queued p \<and> mcs_locking p"
    by (cases "ml_v ml") (simp_all add: assms(3) mcs_run_defs mcs_queued_def mcs_locking_def)
  note s = mcs_go_reaches [of c pc ml p ml1, OF assms(2) g(1)] mcs_go_rel [OF assms(1,2) g(1)]
  from g(2) show ?thesis
  proof
    assume "p = Mcs_in"
    then show ?thesis using s(1) by (intro exI [of _ ml1] exI [of _ "pc(c := Mcs_in)"]) simp
  next
    assume "mcs_queued p \<and> mcs_locking p"
    then show ?thesis using mcs_queued_served [OF s(2), of c] s(1) by (auto intro: rtranclp_trans)
  qed
qed

text \<open>
  C33: a processor that has called \<open>mcs_lock\<close> can always still get the lock: from every state that the
  processors reach, with the processor anywhere in \<open>mcs_lock\<close>, some continuation of the run has it
  return.  No order of the accesses that link, test and hand over loses a waiting processor.
\<close>

theorem mcs_waiter_served:
  assumes "reaches mcs_act (mcs_init, \<lambda>_. Mcs_out) (ml, pc)" "mcs_locking (pc c)"
  shows "\<exists>ml' pc'. reaches mcs_act (ml, pc) (ml', pc') \<and> pc' c = Mcs_in"
proof -
  obtain q where r: "mcs_rel ml pc q" using mcs_reach_queue [OF assms(1)] by auto
  have c: "c < JOS_NCPU" using r assms(2) by (auto simp: mcs_rel_def mcs_locking_def not_less [symmetric])
  show ?thesis
  proof (cases "pc c")
    case Mcs_next
    let ?ml = "ml\<lparr>ml_next := (ml_next ml)(c := None)\<rparr>"
    have s: "reaches mcs_act (ml, pc) (?ml, pc(c := Mcs_swap)) \<and> mcs_rel ?ml (pc(c := Mcs_swap)) q"
      by (rule mcs_advance [OF r c]) (simp_all add: Mcs_next mcs_run_defs)
    then show ?thesis using mcs_swap_served [of ?ml "pc(c := Mcs_swap)" q c] c by (auto intro: rtranclp_trans)
  next
    case Mcs_swap
    then show ?thesis using mcs_swap_served [OF r c] by simp
  qed (use mcs_queued_served [OF r, of c] assms(2) in \<open>simp_all add: mcs_queued_def mcs_locking_def\<close>)
qed

text \<open>Processor 9 has taken a place in the queue behind processor 1, which is about to release the lock.\<close>

theorem mcs_waiter_served_witness:
  "\<exists>ml pc. reaches mcs_act (mcs_init, \<lambda>_. Mcs_out) (ml, pc) \<and> pc 1 = Mcs_cas \<and> pc 9 = Mcs_set 1 \<and>
    (\<exists>ml' pc'. reaches mcs_act (ml, pc) (ml', pc') \<and> pc' 9 = Mcs_in)"
proof -
  let ?ml = "\<lparr>ml_v = Some 9, ml_next = (\<lambda>_. None), ml_locked = (\<lambda>_. False)\<rparr>"
  let ?pc = "(\<lambda>_. Mcs_out)(1 := Mcs_cas, 9 := Mcs_set 1) :: nat \<Rightarrow> mcs_pc"
  have r: "reaches mcs_act (mcs_init, \<lambda>_. Mcs_out) (?ml, ?pc)"
    by (rule run_reaches [of _ "[(1, 0), (1, 0), (1, 0), (1, 0), (9, 0), (9, 0), (9, 0)]"])
      (simp add: JOS_NCPU_def mcs_act_def mcs_run_defs mcs_init_def fun_upd_idem)
  have "\<exists>ml' pc'. reaches mcs_act (?ml, ?pc) (ml', pc') \<and> pc' 9 = Mcs_in"
    by (rule mcs_waiter_served [OF r]) (simp add: mcs_locking_def)
  then show ?thesis using r by (intro exI [of _ ?ml] exI [of _ ?pc]) simp
qed

end
