(* ===== verification/Mcsrw.thy ===== *)
theory Mcsrw
  imports Mcs
begin

text \<open>
  The reader/writer lock of \<^verbatim>\<open>kern/arch/amd64/mcs.h\<close>, which guards the shares: writers queue
  at an MCS lock and the first of them waits for the readers, which count in a word.  Its invariant
  rests on that of the MCS lock, whose steps the writers take.
\<close>

record mcsrwlock =
  rwl_ml :: mcslock
  rwl_x :: u32

datatype mcsrw_pc =
    Mrw_out
  | Mrd_sub
  | Mrd_inc
  | Mrd_cmp
  | Mrd_in
  | Mwr_mcs mcs_pc
  | Mwr_sub
  | Mwr_wait
  | Mwr_in
  | Mwr_rel mcs_pc

definition MCSRW_BIAS :: int where
  "MCSRW_BIAS = 0x01000000"

definition mcsrw_init :: mcsrwlock where
  "mcsrw_init = \<lparr>rwl_ml = mcs_init, rwl_x = word_of_int MCSRW_BIAS\<rparr>"

definition mcsrw_read_lock :: "mcsrw_pc \<Rightarrow> mcsrwlock \<Rightarrow> mcsrw_pc \<times> mcsrwlock" where
  "mcsrw_read_lock p l =
     (let x = rwl_x l in
      case p of
        Mrw_out \<Rightarrow> (Mrd_sub, l)
      | Mrd_sub \<Rightarrow> (if sint (x - 1) < 0 then Mrd_inc else Mrd_in, l\<lparr>rwl_x := x - 1\<rparr>)
      | Mrd_inc \<Rightarrow> (Mrd_cmp, l\<lparr>rwl_x := x + 1\<rparr>)
      | Mrd_cmp \<Rightarrow> (if sint (x - 1) < 0 then Mrd_cmp else Mrd_sub, l)
      | _ \<Rightarrow> (p, l))"

definition mcsrw_read_unlock :: "mcsrwlock \<Rightarrow> mcsrw_pc \<times> mcsrwlock" where
  "mcsrw_read_unlock l = (Mrw_out, l\<lparr>rwl_x := rwl_x l + 1\<rparr>)"

definition mcsrw_write_lock :: "nat \<Rightarrow> mcsrw_pc \<Rightarrow> mcsrwlock \<Rightarrow> mcsrw_pc \<times> mcsrwlock" where
  "mcsrw_write_lock cpu p l =
     (case p of
        Mrw_out \<Rightarrow> (Mwr_mcs Mcs_next, l)
      | Mwr_mcs q \<Rightarrow>
          (let (q, ml) = mcs_lock cpu q (rwl_ml l) in (if q = Mcs_in then Mwr_sub else Mwr_mcs q, l\<lparr>rwl_ml := ml\<rparr>))
      | Mwr_sub \<Rightarrow>
          (let x = rwl_x l - word_of_int MCSRW_BIAS in (if x = 0 then Mwr_in else Mwr_wait, l\<lparr>rwl_x := x\<rparr>))
      | Mwr_wait \<Rightarrow> (if rwl_x l \<noteq> 0 then Mwr_wait else Mwr_in, l)
      | _ \<Rightarrow> (p, l))"

definition mcsrw_write_unlock :: "nat \<Rightarrow> mcsrw_pc \<Rightarrow> mcsrwlock \<Rightarrow> mcsrw_pc \<times> mcsrwlock" where
  "mcsrw_write_unlock cpu p l =
     (case p of
        Mwr_in \<Rightarrow> (Mwr_rel Mcs_in, l\<lparr>rwl_x := rwl_x l + word_of_int MCSRW_BIAS\<rparr>)
      | Mwr_rel q \<Rightarrow>
          (let (q, ml) = mcs_unlock cpu q (rwl_ml l) in (if q = Mcs_out then Mrw_out else Mwr_rel q, l\<lparr>rwl_ml := ml\<rparr>))
      | _ \<Rightarrow> (p, l))"

definition mcsrw_act :: "(mcsrw_pc, mcsrwlock) act" where
  "mcsrw_act c p l =
     (case p of
        Mrw_out \<Rightarrow> [mcsrw_read_lock p l, mcsrw_write_lock c p l]
      | Mrd_sub \<Rightarrow> [mcsrw_read_lock p l]
      | Mrd_inc \<Rightarrow> [mcsrw_read_lock p l]
      | Mrd_cmp \<Rightarrow> [mcsrw_read_lock p l]
      | Mrd_in \<Rightarrow> [mcsrw_read_unlock l]
      | Mwr_in \<Rightarrow> [mcsrw_write_unlock c p l]
      | Mwr_rel q \<Rightarrow> [mcsrw_write_unlock c p l]
      | _ \<Rightarrow> [mcsrw_write_lock c p l])"

lemmas mcsrw_defs = mcsrw_act_def mcsrw_read_lock_def mcsrw_read_unlock_def mcsrw_write_lock_def mcsrw_write_unlock_def

section \<open>Invariant\<close>

text \<open>Where a processor stands in the code of the MCS lock.\<close>

definition mcs_of :: "mcsrw_pc \<Rightarrow> mcs_pc" where
  "mcs_of p =
     (case p of Mwr_mcs q \<Rightarrow> q | Mwr_sub \<Rightarrow> Mcs_in | Mwr_wait \<Rightarrow> Mcs_in | Mwr_in \<Rightarrow> Mcs_in | Mwr_rel q \<Rightarrow> q | _ \<Rightarrow> Mcs_out)"

definition mcsrw_pc_ok :: "mcsrw_pc \<Rightarrow> bool" where
  "mcsrw_pc_ok p = (case p of Mwr_mcs q \<Rightarrow> mcs_locking q | Mwr_rel q \<Rightarrow> mcs_unlocking q | _ \<Rightarrow> True)"

definition mrd_weight :: "mcsrw_pc \<Rightarrow> int" where
  "mrd_weight p = (if p = Mrd_inc \<or> p = Mrd_in then 1 else 0)"

definition mwr_weight :: "mcsrw_pc \<Rightarrow> int" where
  "mwr_weight p = (if p = Mwr_wait \<or> p = Mwr_in then 1 else 0)"

definition mcsrw_count :: "(nat \<Rightarrow> mcsrw_pc) \<Rightarrow> int" where
  "mcsrw_count pc = MCSRW_BIAS - total mrd_weight pc - MCSRW_BIAS * total mwr_weight pc"

definition mcsrw_inv :: "mcsrwlock \<Rightarrow> (nat \<Rightarrow> mcsrw_pc) \<Rightarrow> bool" where
  "mcsrw_inv l pc \<longleftrightarrow>
     mcs_inv (rwl_ml l) (mcs_of \<circ> pc) \<and> (\<forall>c. mcsrw_pc_ok (pc c)) \<and> (\<forall>c\<ge>JOS_NCPU. pc c = Mrw_out) \<and>
     rwl_x l = word_of_int (mcsrw_count pc) \<and> rw_excl (\<lambda>p. p = Mrd_in) (\<lambda>p. p = Mwr_in) pc"

lemma mcsrw_invD:
  assumes "mcsrw_inv l pc"
  shows "rwl_x l = word_of_int (mcsrw_count pc)" "mcsrw_pc_ok (pc c)" "mcs_inv (rwl_ml l) (mcs_of \<circ> pc)"
    "rw_excl (\<lambda>p. p = Mrd_in) (\<lambda>p. p = Mwr_in) pc"
  using assms unfolding mcsrw_inv_def by blast+

lemma mcsrw_weights: "0 \<le> mrd_weight p" "0 \<le> mwr_weight p" "mrd_weight p \<le> 1" "mwr_weight p \<le> 1"
  by (auto simp: mrd_weight_def mwr_weight_def)

lemma mcsrw_totals:
  "0 \<le> total mrd_weight pc" "total mrd_weight pc \<le> 16" "0 \<le> total mwr_weight pc" "total mwr_weight pc \<le> 16"
  using total_nonneg [of mrd_weight pc] total_nonneg [of mwr_weight pc] total_le [of mrd_weight pc] total_le [of mwr_weight pc]
  by (auto simp: mcsrw_weights JOS_NCPU_def)

lemma mcsrw_sint: "sint (word_of_int (mcsrw_count pc) - 1 :: u32) = mcsrw_count pc - 1" "sint (word_of_int (mcsrw_count pc) :: u32) = mcsrw_count pc"
  using sint_small [of "mcsrw_count pc - 1"] sint_small [of "mcsrw_count pc"] mcsrw_totals [of pc]
  by (auto simp: mcsrw_count_def MCSRW_BIAS_def)

text \<open>The writer that has the MCS lock is the only one that counts.\<close>

lemma mcs_inv_one: "mcs_inv ml pc \<Longrightarrow> mcs_unlocking (pc c) \<Longrightarrow> mcs_unlocking (pc d) \<Longrightarrow> c = d"
  by (rule mcs.one)

lemma mcsrw_one_writer:
  assumes "mcsrw_inv l pc" "mcs_unlocking (mcs_of (pc c))" "d \<noteq> c"
  shows "mwr_weight (pc d) = 0"
proof -
  have "\<not> mcs_unlocking (mcs_of (pc d))" using assms mcs_inv_one [of "rwl_ml l" "mcs_of \<circ> pc" c d] by (auto simp: mcsrw_inv_def)
  then show ?thesis by (auto simp: mwr_weight_def mcs_of_def mcs_unlocking_def)
qed

lemma total_only:
  assumes "\<forall>d. d \<noteq> c \<longrightarrow> w (pc d) = 0" "c < JOS_NCPU"
  shows "total w pc = w (pc c)"
  unfolding total_def using assms by (subst sum.mono_neutral_right [of _ "{c}"]) auto

lemma mcsrw_no_writer:
  assumes "mcsrw_inv l pc" "1 \<le> mcsrw_count pc"
  shows "pc d \<noteq> Mwr_in"
proof
  assume w: "pc d = Mwr_in"
  then have "d < JOS_NCPU" using assms(1) unfolding mcsrw_inv_def by (metis leI mcsrw_pc.distinct(15))
  from total_ge [of mwr_weight, OF mcsrw_weights(2) this, of pc] w have "1 \<le> total mwr_weight pc" by (simp add: mwr_weight_def)
  then show False using assms(2) mcsrw_totals [of pc] by (simp add: mcsrw_count_def MCSRW_BIAS_def)
qed

lemma mcsrw_no_reader:
  assumes "mcsrw_inv l pc" "total mrd_weight pc = 0"
  shows "pc d \<noteq> Mrd_in"
proof
  assume w: "pc d = Mrd_in"
  then have "d < JOS_NCPU" using assms(1) unfolding mcsrw_inv_def by (metis leI mcsrw_pc.distinct(7))
  from total_ge [of mrd_weight, OF mcsrw_weights(1) this, of pc] w assms(2) show False by (simp add: mrd_weight_def)
qed

text \<open>The steps of the writers in the MCS lock.\<close>

lemma mcs_go_inv:
  assumes "mcs_inv ml (mcs_of \<circ> pc)" "c < JOS_NCPU" "mcs_go c (mcs_of (pc c)) ml = (mcs_of p, ml')"
  shows "mcs_inv ml' (mcs_of \<circ> pc(c := p))"
proof -
  have "mcs_inv ml' ((mcs_of \<circ> pc)(c := mcs_of p))"
    by (rule mcs.act_inv [OF assms(1,2)]) (simp add: mcs_act_def assms(3))
  then show ?thesis by (simp add: fun_upd_comp)
qed

lemma mcs_lock_stays: "mcs_locking q \<Longrightarrow> mcs_lock c q ml = (q', ml') \<Longrightarrow> mcs_locking q' \<or> q' = Mcs_in"
  by (cases q) (auto simp: mcs_lock_def mcs_locking_def fetch_and_store_def split: option.splits if_splits)

lemma mcs_unlock_stays: "mcs_unlocking q \<Longrightarrow> mcs_unlock c q ml = (q', ml') \<Longrightarrow> mcs_unlocking q' \<or> q' = Mcs_out"
  by (cases q) (auto simp: mcs_unlock_def mcs_unlocking_def cmp_and_swap_def split: option.splits if_splits)

lemma mcs_locking_not_unlocking: "mcs_locking q \<Longrightarrow> \<not> mcs_unlocking q"
  by (cases q) (auto simp: mcs_locking_def mcs_unlocking_def)

lemma mcsrw_upd:
  assumes i: "mcsrw_inv l pc" and c: "c < JOS_NCPU"
    and m: "(mcs_of p = mcs_of (pc c) \<and> rwl_ml l' = rwl_ml l) \<or> mcs_go c (mcs_of (pc c)) (rwl_ml l) = (mcs_of p, rwl_ml l')"
    and ok: "mcsrw_pc_ok p"
    and x: "rwl_x l' = rwl_x l + word_of_int (mrd_weight (pc c) - mrd_weight p + MCSRW_BIAS * (mwr_weight (pc c) - mwr_weight p))"
    and rd: "p = Mrd_in \<Longrightarrow> 1 \<le> mcsrw_count pc"
    and wr: "p = Mwr_in \<Longrightarrow> mcs_of (pc c) = Mcs_in \<and> total mrd_weight pc = 0"
  shows "mcsrw_inv l' (pc(c := p))"
proof -
  note inv = mcsrw_invD(3) [OF i]
  have "mcs_inv (rwl_ml l') (mcs_of \<circ> pc(c := p))"
    using m
  proof
    assume s: "mcs_of p = mcs_of (pc c) \<and> rwl_ml l' = rwl_ml l"
    then have "mcs_of \<circ> pc(c := p) = mcs_of \<circ> pc" by auto
    then show ?thesis using inv s by simp
  qed (rule mcs_go_inv [OF inv c])
  moreover have "rwl_x l' = word_of_int (mcsrw_count (pc(c := p)))"
  proof -
    have "mcsrw_count (pc(c := p)) =
        mcsrw_count pc + (mrd_weight (pc c) - mrd_weight p + MCSRW_BIAS * (mwr_weight (pc c) - mwr_weight p))"
      by (simp add: mcsrw_count_def total_upd [OF c] algebra_simps)
    then show ?thesis using x mcsrw_invD(1) [OF i] by (simp only: of_int_add)
  qed
  moreover have "rw_excl (\<lambda>p. p = Mrd_in) (\<lambda>p. p = Mwr_in) (pc(c := p))"
  proof (rule rw_excl_upd)
    show "pc d \<noteq> Mwr_in" if "p = Mrd_in" for d using mcsrw_no_writer [OF i rd [OF that]] .
    show "pc d \<noteq> Mwr_in \<and> pc d \<noteq> Mrd_in" if "p = Mwr_in" "d \<noteq> c" for d
      using mcsrw_no_reader [OF i] mcsrw_one_writer [OF i _ that(2)] wr [OF that(1)]
      by (auto simp: mwr_weight_def mcs_unlocking_def split: if_splits)
  qed (use mcsrw_invD(4) [OF i] in simp_all)
  moreover have "\<forall>d. mcsrw_pc_ok ((pc(c := p)) d)" "\<forall>d\<ge>JOS_NCPU. (pc(c := p)) d = Mrw_out"
    using i ok c by (auto simp: mcsrw_inv_def)
  ultimately show ?thesis unfolding mcsrw_inv_def by (intro conjI)
qed

lemma mcsrw_writer_sees_zero:
  assumes i: "mcsrw_inv l pc" and c: "c < JOS_NCPU" and p: "mcs_of (pc c) = Mcs_in"
    and z: "rwl_x l = word_of_int (MCSRW_BIAS * (1 - mwr_weight (pc c)))"
  shows "total mrd_weight pc = 0"
proof -
  have "total mwr_weight pc = mwr_weight (pc c)"
    by (rule total_only [OF _ c]) (use mcsrw_one_writer [OF i, of c] p in \<open>simp add: mcs_unlocking_def\<close>)
  moreover have "mcsrw_count pc = MCSRW_BIAS * (1 - mwr_weight (pc c))"
  proof -
    have "sint (word_of_int (MCSRW_BIAS * (1 - mwr_weight (pc c))) :: u32) = MCSRW_BIAS * (1 - mwr_weight (pc c))"
      using mcsrw_weights [of "pc c"] by (intro sint_small) (simp_all add: MCSRW_BIAS_def)
    then show ?thesis using z mcsrw_sint(2) [of pc] mcsrw_invD(1) [OF i] by argo
  qed
  ultimately show ?thesis by (simp add: mcsrw_count_def algebra_simps)
qed

lemma mcsrw_act_inv:
  assumes i: "mcsrw_inv l pc" and c: "c < JOS_NCPU" and a: "(p, l') \<in> set (mcsrw_act c (pc c) l)"
  shows "mcsrw_inv l' (pc(c := p))"
proof -
  have x: "sint (rwl_x l - 1) = mcsrw_count pc - 1" and ok: "mcsrw_pc_ok (pc c)"
    using mcsrw_sint(1) [of pc] mcsrw_invD(1,2) [OF i] by simp_all
  note upd = mcsrw_upd [OF i c] and zero = mcsrw_writer_sees_zero [OF i c]
  note simps = mcsrw_defs mcs_of_def mcsrw_pc_ok_def mrd_weight_def mwr_weight_def
  show ?thesis
  proof (cases "pc c")
    case Mrw_out
    show ?thesis by (rule upd) (use a Mrw_out in \<open>auto simp: simps mcs_run_defs mcs_locking_def\<close>)
  next
    case (Mwr_mcs q)
    obtain q' ml' where g: "mcs_lock c q (rwl_ml l) = (q', ml')" by fastforce
    have "mcs_locking q" using ok Mwr_mcs by (simp add: mcsrw_pc_ok_def)
    then have "mcs_go c q (rwl_ml l) = (q', ml')" "mcs_locking q' \<or> q' = Mcs_in"
      using g mcs_lock_stays mcs_locking_not_unlocking by (auto simp: mcs_go_def)
    then show ?thesis by (intro upd) (use a g Mwr_mcs in \<open>auto simp: simps split: if_splits\<close>)
  next
    case (Mwr_rel q)
    obtain q' ml' where g: "mcs_unlock c q (rwl_ml l) = (q', ml')" by fastforce
    have "mcs_unlocking q" using ok Mwr_rel by (simp add: mcsrw_pc_ok_def)
    then have "mcs_go c q (rwl_ml l) = (q', ml')" "mcs_unlocking q' \<or> q' = Mcs_out"
      using g mcs_unlock_stays by (auto simp: mcs_go_def)
    then show ?thesis by (intro upd) (use a g Mwr_rel in \<open>auto simp: simps split: if_splits\<close>)
  next
    case Mwr_sub
    show ?thesis by (rule upd) (use a Mwr_sub zero in \<open>auto simp: simps Let_def mcs_unlocking_def split: if_splits\<close>)
  next
    case Mwr_wait
    show ?thesis by (rule upd) (use a Mwr_wait zero in \<open>auto simp: simps mcs_unlocking_def split: if_splits\<close>)
  next
    case Mwr_in
    show ?thesis by (rule upd) (use a Mwr_in in \<open>auto simp: simps mcs_unlocking_def\<close>)
  qed (rule upd; use a x in \<open>auto simp: simps split: if_splits\<close>)+
qed

interpretation mcsrw: rw_mutex mcsrw_act "(mcsrw_init, \<lambda>_. Mrw_out)" mcsrw_inv "\<lambda>p. p = Mrd_in" "\<lambda>p. p = Mwr_in"
proof unfold_locales
  have "mcs_of \<circ> (\<lambda>_. Mrw_out) = (\<lambda>_ :: nat. Mcs_out)" by (auto simp: mcs_of_def)
  then show "mcsrw_inv (fst (mcsrw_init, \<lambda>_. Mrw_out)) (snd (mcsrw_init, \<lambda>_. Mrw_out))"
    using mcs.init_inv
    by (simp add: mcsrw_inv_def mcsrw_init_def mcsrw_count_def rw_excl_def total_def mcsrw_pc_ok_def mrd_weight_def mwr_weight_def)
  show "mcsrw_inv l' (pc(c := p))" if "mcsrw_inv l pc" "c < JOS_NCPU" "(p, l') \<in> set (mcsrw_act c (pc c) l)" for l l' pc c p
    using that by (rule mcsrw_act_inv)
qed (simp add: mcsrw_inv_def)

text \<open>
  C34: the lock of the shares admits one writer and no reader beside it: it holds in every state that
  processors reach which call \<open>mcsrw_read_lock\<close>, \<open>mcsrw_write_lock\<close> and the matching release
  functions in any order and whose accesses to the MCS queue and to the count interleave in any way.
\<close>

theorem mcsrw_lock_exclusion:
  assumes "reaches mcsrw_act (mcsrw_init, \<lambda>_. Mrw_out) (l, pc)" "pc c = Mwr_in"
  shows "(pc d = Mwr_in \<longrightarrow> c = d) \<and> pc d \<noteq> Mrd_in"
  using mcsrw.rw_exclusion [OF assms] .

text \<open>Processor 1 writes, processor 2 waits for it in the queue and processor 3 has failed to read.\<close>

theorem mcsrw_lock_exclusion_witness:
  "\<exists>l pc. reaches mcsrw_act (mcsrw_init, \<lambda>_. Mrw_out) (l, pc) \<and> pc 1 = Mwr_in \<and> pc 2 = Mwr_mcs (Mcs_set 1) \<and> pc 3 = Mrd_inc \<and>
    (\<forall>d. (pc d = Mwr_in \<longrightarrow> 1 = d) \<and> pc d \<noteq> Mrd_in)"
proof (intro exI conjI allI)
  let ?l = "\<lparr>rwl_ml = \<lparr>ml_v = Some 2, ml_next = (\<lambda>_. None), ml_locked = (\<lambda>_. False)\<rparr>, rwl_x = - 1\<rparr>"
  let ?pc = "(\<lambda>_. Mrw_out)(1 := Mwr_in, 2 := Mwr_mcs (Mcs_set 1), 3 := Mrd_inc) :: nat \<Rightarrow> mcsrw_pc"
  show r: "reaches mcsrw_act (mcsrw_init, \<lambda>_. Mrw_out) (?l, ?pc)"
    by (rule run_reaches [of _ "[(1, 1), (1, 0), (1, 0), (1, 0), (2, 1), (2, 0), (2, 0), (3, 0), (3, 0)]"])
      (simp add: JOS_NCPU_def mcsrw_defs mcs_run_defs mcsrw_init_def mcs_init_def MCSRW_BIAS_def fun_upd_idem Let_def)
  show "?pc d = Mwr_in \<longrightarrow> 1 = d" "?pc d \<noteq> Mrd_in" for d using mcsrw_lock_exclusion [OF r, of 1 d] by simp_all
qed simp_all

end
