(* ===== verification/Numfmt.thy ===== *)
theory Numfmt
  imports Corey_Prelude
begin

text \<open>
  Formatted output of \<^verbatim>\<open>lib/printfmt.c\<close>, which the kernel and the user programs share, and
  \<open>strtou64\<close> of \<^verbatim>\<open>lib/string.c\<close>.  A C string is a list of characters without the
  terminating zero.  A function that is given a \<open>putch\<close> callback returns the characters it passes to
  it.  Reading past the end of a format, or an argument of the wrong kind, is undefined in C and
  is \<open>Panic\<close> here.  Field widths stay below \<open>2 ^ 31\<close>.
\<close>

section \<open>Parsing a number\<close>

definition digit_val :: "char \<Rightarrow> nat option" where
  "digit_val c =
     (let n = of_char c in
      if 48 \<le> n \<and> n \<le> 57 then Some (n - 48)
      else if 97 \<le> n \<and> n \<le> 122 then Some (n - 97 + 10)
      else if 65 \<le> n \<and> n \<le> 90 then Some (n - 65 + 10)
      else None)"

definition unsigned64_overflow_vals :: "u64 list" where
  "unsigned64_overflow_vals =
     [0, 0, 9223372036854775807, 6148914691236517205, 4611686018427387903, 3689348814741910323, 3074457345618258602,
      2635249153387078802, 2305843009213693951, 2049638230412172401, 1844674407370955161, 1676976733973595601,
      1537228672809129301, 1418980313362273201, 1317624576693539401, 1229782938247303441, 1152921504606846975,
      1085102592571150095, 1024819115206086200, 970881267037344821, 922337203685477580, 878416384462359600,
      838488366986797800, 802032351030850070, 768614336404564650, 737869762948382064, 709490156681136600,
      683212743470724133, 658812288346769700, 636094623231363848, 614891469123651720, 595056260442243600,
      576460752303423487, 558992244657865200, 542551296285575047, 527049830677415760]"

text \<open>The loop over the digits: the result so far, the value so far and the text that is left.\<close>

fun strtou64_loop :: "nat \<Rightarrow> u64 \<Rightarrow> nat \<Rightarrow> string \<Rightarrow> unit result \<Rightarrow> u64 \<Rightarrow> unit result \<times> u64 \<times> string" where
  "strtou64_loop base overflow_val overflow_digit [] r val = (r, val, [])"
| "strtou64_loop base overflow_val overflow_digit (c # s) r val =
     (case digit_val c of
        None \<Rightarrow> (r, val, c # s)
      | Some dig \<Rightarrow>
          if base \<le> dig then (r, val, c # s)
          else
            (let r = (if r = Err E_INVAL then Ok () else r);
                 r = (if overflow_val < val \<or> val = overflow_val \<and> overflow_digit < dig then Err E_RANGE else r)
             in strtou64_loop base overflow_val overflow_digit s r (val * of_nat base + of_nat dig)))"

text \<open>The prefix of a number that sets its base, and the base that is used.\<close>

definition strtou64_base :: "string \<Rightarrow> int \<Rightarrow> (string \<times> nat) option" where
  "strtou64_base s base =
     (if (base = 0 \<or> base = 16) \<and> (take 2 s = ''0x'' \<or> take 2 s = ''0X'') then Some (drop 2 s, 16)
      else if base = 0 \<and> take 1 s = ''0'' then Some (s, 8)
      else if base = 0 then Some (s, 10)
      else if base < 2 \<or> 36 < base then None
      else Some (s, nat base))"

text \<open>
  \<open>strtou64\<close> returns its result, the pointer stored to \<open>endptr\<close> and the value stored to
  \<open>return_value\<close>, if one is.  A base of 36 is accepted but lies outside the table.
\<close>

definition strtou64 :: "string option \<Rightarrow> int \<Rightarrow> unit result \<times> string option \<times> u64 option" where
  "strtou64 begin base =
     (case begin of
        None \<Rightarrow> (Err E_INVAL, None, None)
      | Some b \<Rightarrow>
          (let s = dropWhile (\<lambda>c. c = CHR '' '' \<or> c = CHR 0x09) b;
               s = (if take 1 s = ''+'' then tl s else s)
           in case strtou64_base s base of
                None \<Rightarrow> (Err E_INVAL, Some s, None)
              | Some (s, base) \<Rightarrow>
                  if length unsigned64_overflow_vals \<le> base then (Panic, None, None)
                  else
                    (let overflow_val = unsigned64_overflow_vals ! base;
                         overflow_digit = unat (- 1 - overflow_val * of_nat base)
                     in case strtou64_loop base overflow_val overflow_digit s (Err E_INVAL) 0 of
                          (Err E_INVAL, _, _) \<Rightarrow> (Err E_INVAL, Some b, None)
                        | (Err E_RANGE, _, s) \<Rightarrow> (Err E_RANGE, Some s, Some (- 1))
                        | (r, val, s) \<Rightarrow> (r, Some s, Some val))))"

section \<open>Printing a number\<close>

definition hexdigit :: "nat \<Rightarrow> char" where
  "hexdigit d = ''0123456789abcdef'' ! d"

text \<open>The digits in the order in which they enter the buffer; the bases are 2, 8, 10 and 16.\<close>

function printnum_buf :: "nat \<Rightarrow> nat \<Rightarrow> string" where
  "printnum_buf base num =
     (if num = 0 \<or> base < 2 then [] else hexdigit (num mod base) # printnum_buf base (num div base))"
  by auto
termination
  by (relation "measure snd") auto

declare printnum_buf.simps [simp del]

definition printnum :: "u64 \<Rightarrow> nat \<Rightarrow> int \<Rightarrow> char \<Rightarrow> string" where
  "printnum num base width padc =
     (let buf = printnum_buf base (unat num); buf = (if buf = [] then ''0'' else buf); n = int (length buf) in
      (if padc \<noteq> CHR ''-'' then replicate (nat (width - n)) padc else []) @ rev buf @
      (if padc = CHR ''-'' then replicate (nat (width - n)) CHR '' '' else []))"

section \<open>Formats\<close>

datatype fmt_arg = Arg_word u64 | Arg_str "string option"

record fmt_state =
  padc :: char
  fwidth :: int
  precision :: int
  lflag :: nat
  altflag :: bool

definition getuint :: "nat \<Rightarrow> u64 \<Rightarrow> u64" where
  "getuint lf w = (if 0 < lf then w else ucast (ucast w :: u32))"

definition getint :: "nat \<Rightarrow> u64 \<Rightarrow> u64" where
  "getint lf w = (if 0 < lf then w else scast (ucast w :: u32))"

definition emit :: "string \<Rightarrow> string result \<Rightarrow> string result" where
  "emit out r = (case r of Ok o' \<Rightarrow> Ok (out @ o') | Err e \<Rightarrow> Err e | Panic \<Rightarrow> Panic)"

definition process_precision :: "int \<Rightarrow> fmt_state \<Rightarrow> fmt_state" where
  "process_precision n st = (if fwidth st < 0 then st\<lparr>fwidth := n, precision := - 1\<rparr> else st\<lparr>precision := n\<rparr>)"

definition print_str :: "fmt_state \<Rightarrow> string option \<Rightarrow> string" where
  "print_str st arg =
     (let p = (case arg of None \<Rightarrow> ''(null)'' | Some p \<Rightarrow> p);
          pads = 0 < fwidth st \<and> padc st \<noteq> CHR ''-'';
          w = (if pads then fwidth st - int (length p) else fwidth st);
          pad = (if pads then replicate (nat w) (padc st) else []);
          w = (if pads \<and> 0 < w then 0 else w);
          q = (if precision st < 0 then p else take (nat (precision st)) p);
          out = map (\<lambda>c. if altflag st \<and> (of_char c < (32::nat) \<or> of_char c > (126::nat)) then CHR ''?'' else c) q
      in pad @ out @ replicate (nat (w - int (length q))) CHR '' '')"

definition fmt_number :: "fmt_state \<Rightarrow> u64 \<Rightarrow> nat \<Rightarrow> string" where
  "fmt_number st num base = printnum num base (max (fwidth st) 0) (padc st)"

definition is_dec :: "char \<Rightarrow> bool" where
  "is_dec c \<longleftrightarrow> 48 \<le> (of_char c :: nat) \<and> (of_char c :: nat) \<le> 57"

definition dec_value :: "string \<Rightarrow> int" where
  "dec_value s = foldl (\<lambda>n c. n * 10 + of_char c - 48) 0 s"

definition fmt_start :: fmt_state where
  "fmt_start = \<lparr>padc = CHR '' '', fwidth = - 1, precision = - 1, lflag = 0, altflag = False\<rparr>"

text \<open>
  \<open>vprintfmt\<close> copies the format up to a percent sign; \<open>fmt_escape\<close> is its switch, which flags and
  widths enter again.
\<close>

function vprintfmt :: "string \<Rightarrow> fmt_arg list \<Rightarrow> string result"
  and fmt_escape :: "fmt_state \<Rightarrow> string \<Rightarrow> fmt_arg list \<Rightarrow> string result" where
  "vprintfmt [] args = Ok []"
| "vprintfmt (ch # fmt) args =
     (if ch = CHR ''%'' then fmt_escape fmt_start fmt args else emit [ch] (vprintfmt fmt args))"
| "fmt_escape st [] args = Panic"
| "fmt_escape st (ch # fmt) args =
     (if ch = CHR ''-'' then fmt_escape (st\<lparr>padc := CHR ''-''\<rparr>) fmt args
      else if ch = CHR ''0'' then fmt_escape (st\<lparr>padc := CHR ''0''\<rparr>) fmt args
      else if is_dec ch then
        fmt_escape (process_precision (dec_value (ch # takeWhile is_dec fmt)) st) (dropWhile is_dec fmt) args
      else if ch = CHR ''*'' then
        (case args of
           Arg_word w # as \<Rightarrow> fmt_escape (process_precision (sint (ucast w :: u32)) st) fmt as
         | _ \<Rightarrow> Panic)
      else if ch = CHR ''.'' then fmt_escape (if fwidth st < 0 then st\<lparr>fwidth := 0\<rparr> else st) fmt args
      else if ch = CHR ''#'' then fmt_escape (st\<lparr>altflag := True\<rparr>) fmt args
      else if ch = CHR ''l'' then fmt_escape (st\<lparr>lflag := lflag st + 1\<rparr>) fmt args
      else if ch = CHR ''z'' then fmt_escape (st\<lparr>lflag := 1\<rparr>) fmt args
      else if ch = CHR ''s'' then
        (case args of Arg_str p # as \<Rightarrow> emit (print_str st p) (vprintfmt fmt as) | _ \<Rightarrow> Panic)
      else if ch \<in> {CHR ''c'', CHR ''b'', CHR ''d'', CHR ''u'', CHR ''o'', CHR ''p'', CHR ''x''} then
        (case args of
           Arg_word w # as \<Rightarrow>
             emit (if ch = CHR ''c'' then [char_of (unat w)]
                   else if ch = CHR ''b'' then fmt_number st (getint (lflag st) w) 2
                   else if ch = CHR ''d'' then
                     (let num = getint (lflag st) w in
                      if sint num < 0 then CHR ''-'' # fmt_number st (- num) 10 else fmt_number st num 10)
                   else if ch = CHR ''u'' then fmt_number st (getuint (lflag st) w) 10
                   else if ch = CHR ''o'' then fmt_number st (getuint (lflag st) w) 8
                   else if ch = CHR ''p'' then ''0x'' @ fmt_number st w 16
                   else fmt_number st (getuint (lflag st) w) 16) (vprintfmt fmt as)
         | _ \<Rightarrow> Panic)
      else if ch = CHR ''%'' then emit [ch] (vprintfmt fmt args)
      else emit (CHR ''%'' # replicate (lflag st) CHR ''l'' @ [ch]) (vprintfmt fmt args))"
  by pat_completeness auto
termination
  by (relation "measure (\<lambda>x. case x of Inl (f, _) \<Rightarrow> length f | Inr (_, f, _) \<Rightarrow> length f)")
    (auto simp: less_Suc_eq_le length_dropWhile_le)

declare vprintfmt.simps [simp del] fmt_escape.simps [simp del]

section \<open>Printing into a buffer\<close>

text \<open>The end of the buffer is the number of characters that may still be stored.\<close>

record sprintbuf =
  sb_buf :: string
  sb_room :: nat
  sb_cnt :: nat

definition sprintputch :: "char \<Rightarrow> sprintbuf \<Rightarrow> sprintbuf" where
  "sprintputch ch b =
     (let b = b\<lparr>sb_cnt := sb_cnt b + 1\<rparr> in
      if 0 < sb_room b then b\<lparr>sb_buf := sb_buf b @ [ch], sb_room := sb_room b - 1\<rparr> else b)"

definition vsnprintf :: "bool \<Rightarrow> nat \<Rightarrow> string \<Rightarrow> fmt_arg list \<Rightarrow> (string \<times> nat) result" where
  "vsnprintf buf_null n fmt args =
     (if buf_null \<or> n < 1 then Err E_INVAL
      else
        (case vprintfmt fmt args of
           Ok out \<Rightarrow>
             (let b = fold sprintputch out \<lparr>sb_buf = [], sb_room = n - 1, sb_cnt = 0\<rparr>
              in Ok (sb_buf b @ [CHR 0x00], sb_cnt b))
         | Err e \<Rightarrow> Err e
         | Panic \<Rightarrow> Panic))"

lemma sprintputch_fold:
  "fold sprintputch out b = b\<lparr>sb_buf := sb_buf b @ take (sb_room b) out, sb_room := sb_room b - length out, sb_cnt := sb_cnt b + length out\<rparr>"
proof (induction out arbitrary: b)
  case (Cons c out)
  then show ?case by (cases "sb_room b") (auto simp: sprintputch_def Let_def)
qed simp

text \<open>
  \<open>vsnprintf\<close> stores what fits before the last byte of the buffer, terminates it, and returns the
  number of characters that the format makes.
\<close>

lemma vsnprintf_bounded:
  assumes "vsnprintf False n fmt args = Ok (buf, cnt)"
  shows "length buf \<le> n \<and> last buf = CHR 0x00 \<and> (\<exists>out. vprintfmt fmt args = Ok out \<and> cnt = length out \<and> butlast buf = take (n - 1) out)"
  using assms by (auto simp: vsnprintf_def sprintputch_fold Let_def split: if_splits result.splits)

section \<open>What \<open>strtou64\<close> computes\<close>

lemma overflow_table:
  "map unat (drop 2 unsigned64_overflow_vals) = map (\<lambda>b. (2 ^ 64 - 1) div b) [2..<36]"
  by (simp add: unsigned64_overflow_vals_def upt_rec)

lemma overflow_length: "length unsigned64_overflow_vals = 36"
  by (simp add: unsigned64_overflow_vals_def)

lemma overflow_val:
  assumes "2 \<le> b" "b < 36"
  shows "unat (unsigned64_overflow_vals ! b) = (2 ^ 64 - 1) div b"
proof -
  obtain k where k: "b = 2 + k" using assms(1) le_Suc_ex by blast
  have "unat (unsigned64_overflow_vals ! b) = map unat (drop 2 unsigned64_overflow_vals) ! k"
    using assms k by (simp add: overflow_length)
  also have "\<dots> = (2 ^ 64 - 1) div (2 + k)"
    unfolding overflow_table by (rule nth_map_upt) (use assms k in simp)
  finally show ?thesis using k by simp
qed

lemma overflow_digit:
  assumes "2 \<le> b" "b < 36"
  shows "unat (- 1 - unsigned64_overflow_vals ! b * of_nat b) = (2 ^ 64 - 1) mod b"
proof -
  have "(- 1 - unsigned64_overflow_vals ! b * of_nat b :: u64) = of_nat (2 ^ 64 - 1 - (2 ^ 64 - 1) div b * b)"
  proof -
    have "unsigned64_overflow_vals ! b = of_nat ((2 ^ 64 - 1) div b)" by (subst overflow_val [OF assms, symmetric]) simp
    moreover have "(- 1 :: u64) = of_nat (2 ^ 64 - 1)" by simp
    ultimately show ?thesis by (simp add: of_nat_diff)
  qed
  then show ?thesis by (simp add: minus_div_mult_eq_mod unat_of_nat le_less_trans [OF mod_less_eq_dividend])
qed

lemma overflow_test:
  fixes M n b d :: nat
  assumes "d < b"
  shows "M div b < n \<or> n = M div b \<and> M mod b < d \<longleftrightarrow> M < n * b + d"
proof -
  have m: "M = M div b * b + M mod b" "M mod b < b" using assms by (simp_all add: div_mult_mod_eq)
  consider "n < M div b" | "n = M div b" | "M div b < n" by linarith
  then show ?thesis
  proof cases
    case 1
    then have "n * b + b \<le> M div b * b" by (metis Suc_leI add.commute mult_Suc mult_le_mono1)
    then show ?thesis using 1 m assms by linarith
  next
    case 2
    then show ?thesis using m by (metis add_less_cancel_left less_irrefl_nat)
  next
    case 3
    then have "M div b * b + b \<le> n * b" by (metis Suc_leI add.commute mult_Suc mult_le_mono1)
    then show ?thesis using 3 m by linarith
  qed
qed

text \<open>The digits at the start of a text, and the number they stand for.\<close>

fun digits_of :: "nat \<Rightarrow> string \<Rightarrow> nat list" where
  "digits_of b [] = []"
| "digits_of b (c # s) = (case digit_val c of Some d \<Rightarrow> if d < b then d # digits_of b s else [] | None \<Rightarrow> [])"

definition number :: "nat \<Rightarrow> nat \<Rightarrow> nat list \<Rightarrow> nat" where
  "number b n ds = foldl (\<lambda>n d. n * b + d) n ds"

lemma number_simps [simp]: "number b n [] = n" "number b n (d # ds) = number b (n * b + d) ds"
  by (simp_all add: number_def)

lemma number_ge: "2 \<le> b \<Longrightarrow> n \<le> number b n ds"
proof (induction ds arbitrary: n)
  case (Cons d ds)
  have "n \<le> n * b + d" using Cons.prems by (simp add: trans_le_add1)
  then show ?case using Cons.IH [OF Cons.prems, of "n * b + d"] by simp
qed simp

lemma strtou64_loop_range:
  "strtou64_loop b ov od s (Err E_RANGE) v = (r, v', s') \<Longrightarrow> r = Err E_RANGE \<and> s' = drop (length (digits_of b s)) s"
  by (induction b ov od s "Err E_RANGE :: unit result" v rule: strtou64_loop.induct)
    (auto simp: Let_def split: option.splits if_splits)

lemma unat_u64_of_nat: "n < 2 ^ 64 \<Longrightarrow> unat (of_nat n :: u64) = n"
  by (simp add: unat_of_nat)

lemma strtou64_loop_ok:
  assumes "unat ov = (2 ^ 64 - 1) div b" "od = (2 ^ 64 - 1) mod b" "2 \<le> b"
    and "r = Ok () \<or> r = Err E_INVAL" "unat v = n"
  shows "case strtou64_loop b ov od s r v of (r', v', s') \<Rightarrow>
    s' = drop (length (digits_of b s)) s \<and>
    (if digits_of b s = [] then r' = r \<and> v' = v
     else if number b n (digits_of b s) < 2 ^ 64 then r' = Ok () \<and> unat v' = number b n (digits_of b s)
     else r' = Err E_RANGE)"
  using assms(4,5)
proof (induction s arbitrary: r v n)
  case (Cons c s)
  show ?case
  proof (cases "\<exists>d. digit_val c = Some d \<and> d < b")
    case False
    then show ?thesis by (auto split: option.splits)
  next
    case True
    then obtain d where d: "digit_val c = Some d" "d < b" by blast
    let ?v = "v * of_nat b + of_nat d" and ?n = "n * b + d"
    have t: "(ov < v \<or> v = ov \<and> od < d) \<longleftrightarrow> 2 ^ 64 \<le> ?n"
    proof -
      have "(ov < v \<or> v = ov \<and> od < d) \<longleftrightarrow> 2 ^ 64 - 1 < ?n"
        using overflow_test [OF d(2), of "2 ^ 64 - 1" n] Cons.prems(2) assms(1,2) by (metis word_less_nat_alt word_unat_eq_iff)
      moreover have "2 ^ 64 - 1 < ?n \<longleftrightarrow> 2 ^ 64 \<le> ?n" by auto
      ultimately show ?thesis by blast
    qed
    show ?thesis
    proof (cases "2 ^ 64 \<le> ?n")
      case True
      have g: "2 ^ 64 \<le> number b ?n (digits_of b s)" using True number_ge [OF assms(3), of ?n "digits_of b s"] by linarith
      obtain r' v' s' where l: "strtou64_loop b ov od s (Err E_RANGE) ?v = (r', v', s')" by (metis prod_cases3)
      have "strtou64_loop b ov od (c # s) r v = (r', v', s')" using d t True l by (simp add: Let_def)
      then show ?thesis using strtou64_loop_range [OF l] d g by simp
    next
      case False
      have u: "unat ?v = ?n"
      proof -
        have "?v = of_nat ?n" using Cons.prems(2) by auto
        then show ?thesis using unat_u64_of_nat [of ?n] False by simp
      qed
      have "strtou64_loop b ov od (c # s) r v = strtou64_loop b ov od s (Ok ()) ?v"
        using d t False Cons.prems(1) by (auto simp: Let_def)
      then show ?thesis using Cons.IH [of "Ok ()" ?v ?n] u d False by (auto split: prod.splits if_splits)
    qed
  qed
qed simp

definition blank :: "char \<Rightarrow> bool" where
  "blank c \<longleftrightarrow> c = CHR '' '' \<or> c = CHR 0x09"

text \<open>What is made of the digits of a text.\<close>

definition parsed :: "nat \<Rightarrow> string \<Rightarrow> string \<Rightarrow> unit result \<times> string option \<times> u64 option" where
  "parsed b s begin =
     (let ds = digits_of b s; rest = drop (length ds) s in
      if ds = [] then (Err E_INVAL, Some begin, None)
      else if number b 0 ds < 2 ^ 64 then (Ok (), Some rest, Some (of_nat (number b 0 ds)))
      else (Err E_RANGE, Some rest, Some (- 1)))"

lemma unat_eqD: "unat (v :: u64) = n \<Longrightarrow> v = of_nat n"
  by auto

lemma strtou64_digits:
  assumes "strtou64_base s base = Some (t, b)" "2 \<le> b" "b < 36" "list_all blank ws" "s = [] \<or> \<not> blank (hd s) \<and> hd s \<noteq> CHR ''+''"
  shows "strtou64 (Some (ws @ s)) base = parsed b t (ws @ s)"
proof -
  have d: "dropWhile (\<lambda>c. c = CHR '' '' \<or> c = CHR 0x09) (ws @ s) = s"
    using assms(4,5) by (induction ws) (cases s; auto simp: blank_def)+
  have p: "take 1 s \<noteq> ''+''" using assms(5) by (cases s) auto
  obtain r v u where l: "strtou64_loop b (unsigned64_overflow_vals ! b)
      (unat (- 1 - unsigned64_overflow_vals ! b * of_nat b)) t (Err E_INVAL) 0 = (r, v, u)"
    by (metis prod_cases3)
  have "u = drop (length (digits_of b t)) t \<and>
      (if digits_of b t = [] then r = Err E_INVAL \<and> v = 0
       else if number b 0 (digits_of b t) < 2 ^ 64 then r = Ok () \<and> unat v = number b 0 (digits_of b t) else r = Err E_RANGE)"
    using strtou64_loop_ok [OF overflow_val overflow_digit, OF assms(2,3) assms(2,3) assms(2), of "Err E_INVAL" 0 0 t] l by simp
  then show ?thesis
    using l d p assms(1,3) by (auto simp: strtou64_def parsed_def overflow_length Let_def dest: unat_eqD split: if_splits)
qed



section \<open>Round trip\<close>

lemma hexdigit_val:
  assumes "d < 16"
  shows "digit_val (hexdigit d) = Some d"
proof -
  have "\<forall>d\<in>set [0..<16]. digit_val (hexdigit d) = Some d" by code_simp
  then show ?thesis using assms by simp
qed

lemma hexdigit_plain:
  assumes "d < 16"
  shows "\<not> blank (hexdigit d) \<and> hexdigit d \<noteq> CHR ''+'' \<and> hexdigit d \<noteq> CHR ''x'' \<and> hexdigit d \<noteq> CHR ''X''"
proof -
  have "\<forall>d\<in>set [0..<16]. \<not> blank (hexdigit d) \<and> hexdigit d \<noteq> CHR ''+'' \<and> hexdigit d \<noteq> CHR ''x'' \<and> hexdigit d \<noteq> CHR ''X''"
    by code_simp
  then show ?thesis using assms by simp
qed

lemma digits_of_hex: "b \<le> 16 \<Longrightarrow> list_all (\<lambda>d. d < b) ds \<Longrightarrow> digits_of b (map hexdigit ds) = ds"
  by (induction ds) (auto simp: hexdigit_val)

lemma printnum_buf_digits:
  assumes "2 \<le> b" "b \<le> 16"
  shows "\<exists>ds. printnum_buf b n = map hexdigit ds \<and> list_all (\<lambda>d. d < b) ds \<and> number b 0 (rev ds) = n"
  using assms
proof (induction b n rule: printnum_buf.induct)
  case (1 b n)
  show ?case
  proof (cases "n = 0")
    case True
    then show ?thesis by (intro exI [of _ "[]"]) (simp add: printnum_buf.simps)
  next
    case False
    then obtain ds where "printnum_buf b (n div b) = map hexdigit ds" "list_all (\<lambda>d. d < b) ds" "number b 0 (rev ds) = n div b"
      using 1 by auto
    then show ?thesis
      using False 1(2) by (intro exI [of _ "n mod b # ds"]) (simp add: printnum_buf.simps [of b n] number_def)
  qed
qed

lemma printnum_digits:
  assumes "2 \<le> b" "b \<le> 16"
  obtains ds where "printnum w b 0 CHR '' '' = map hexdigit ds" "ds \<noteq> []" "list_all (\<lambda>d. d < b) ds" "number b 0 ds = unat w"
proof -
  obtain ds where ds: "printnum_buf b (unat w) = map hexdigit ds" "list_all (\<lambda>d. d < b) ds" "number b 0 (rev ds) = unat w"
    using printnum_buf_digits [OF assms] by blast
  show thesis
  proof (cases "ds = []")
    case True
    then show ?thesis using ds that [of "[0]"] assms by (simp add: printnum_def hexdigit_def)
  next
    case False
    then show ?thesis using ds that [of "rev ds"] by (simp add: printnum_def rev_map)
  qed
qed

lemma printed_parsed:
  assumes "2 \<le> b" "b \<le> 16"
  shows "parsed b (printnum w b 0 CHR '' '') begin = (Ok (), Some [], Some w)"
proof -
  obtain ds where ds: "printnum w b 0 CHR '' '' = map hexdigit ds" "ds \<noteq> []" "list_all (\<lambda>d. d < b) ds" "number b 0 ds = unat w"
    by (rule printnum_digits [OF assms])
  then show ?thesis using unat_less64 [of w] by (simp add: parsed_def digits_of_hex [OF assms(2)])
qed

lemma printed_plain:
  assumes "2 \<le> b" "b \<le> 16"
  shows "\<not> blank (hd (printnum w b 0 CHR '' '')) \<and> hd (printnum w b 0 CHR '' '') \<noteq> CHR ''+'' \<and>
    take 2 (printnum w b 0 CHR '' '') \<noteq> ''0x'' \<and> take 2 (printnum w b 0 CHR '' '') \<noteq> ''0X''"
proof -
  obtain ds where ds: "printnum w b 0 CHR '' '' = map hexdigit ds" "ds \<noteq> []" "list_all (\<lambda>d. d < b) ds"
    by (rule printnum_digits [OF assms])
  then obtain d es where d: "ds = d # es" "d < 16" "\<forall>e\<in>set es. e < 16"
    using assms(2) by (cases ds) (auto simp: list_all_iff dest: order.strict_trans2)
  then show ?thesis using ds(1) hexdigit_plain by (cases es) auto
qed

text \<open>
  C40: a 64-bit number that is printed by \<open>%lu\<close>, \<open>%lo\<close>, \<open>%lx\<close>, \<open>%lb\<close> or \<open>%p\<close> is read back
  unchanged by \<open>strtou64\<close> in the base of the conversion, with no text left over.
\<close>

theorem printed_number_parses:
  assumes "(fmt, base) \<in> {(''%lu'', 10), (''%lo'', 8), (''%lx'', 16), (''%lb'', 2), (''%p'', 16), (''%p'', 0)}"
  shows "\<exists>out. vprintfmt fmt [Arg_word w] = Ok out \<and> strtou64 (Some out) base = (Ok (), Some [], Some w)"
proof -
  have plain: "strtou64 (Some (printnum w b 0 CHR '' '')) (int b) = (Ok (), Some [], Some w)" if "2 \<le> b" "b \<le> 16" for b
    using strtou64_digits [of "printnum w b 0 CHR '' ''" "int b" "printnum w b 0 CHR '' ''" b "[]"] printed_plain [OF that, of w]
      printed_parsed [OF that, of w] that by (simp add: strtou64_base_def)
  have hex: "strtou64 (Some (''0x'' @ printnum w 16 0 CHR '' '')) base = (Ok (), Some [], Some w)" if "base = 16 \<or> base = 0" for base
    using strtou64_digits [of "''0x'' @ printnum w 16 0 CHR '' ''" base "printnum w 16 0 CHR '' ''" 16 "[]"]
      printed_parsed [of 16 w] that by (auto simp: strtou64_base_def blank_def)
  show ?thesis
    using assms plain [of 10] plain [of 8] plain [of 16] plain [of 2] hex [of 16] hex [of 0]
    by (auto simp: vprintfmt.simps fmt_escape.simps is_dec_def of_char_def fmt_start_def fmt_number_def getuint_def getint_def emit_def)
qed

theorem printed_number_parses_witness:
  "\<exists>out. vprintfmt ''%lx'' [Arg_word 0xdeadbeef] = Ok out \<and> strtou64 (Some out) 16 = (Ok (), Some [], Some 0xdeadbeef)"
  by (rule printed_number_parses) simp

text \<open>
  A base of 36 passes the test of \<open>strtou64\<close>, but the table of the overflow values ends at 35 and is
  read outside.
\<close>

lemma strtou64_base_36: "fst (strtou64 (Some s) 36) = Panic"
  by (simp add: strtou64_def strtou64_base_def overflow_length Let_def)

text \<open>A format that ends within an escape is read past its end.\<close>

lemma vprintfmt_open_escape: "vprintfmt ''100%'' [] = Panic"
  by (simp add: vprintfmt.simps fmt_escape.simps emit_def)

end
