(* ===== verification/Arc4.thy ===== *)
theory Arc4
  imports Corey_Prelude
begin

text \<open>
  The stream of random bytes of \<^verbatim>\<open>lib/arc4.c\<close>, \<^verbatim>\<open>inc/arc4.h\<close> and \<^verbatim>\<open>lib/rand.c\<close>.
  The state table stays a permutation of the bytes.  Reading a key behind its end is \<open>Panic\<close>.
\<close>

record arc4 =
  a_i :: u8
  a_j :: u8
  a_s :: "u8 list"

definition all_bytes :: "u8 list" where
  "all_bytes = map of_nat [0..<256]"

definition arc4_reset :: arc4 where
  "arc4_reset = \<lparr>a_i = 0xff, a_j = 0, a_s = all_bytes\<rparr>"

text \<open>One round of the key setup, and the exchange that it shares with the making of a byte.\<close>

definition arc4_swap :: "u8 \<Rightarrow> u8 \<Rightarrow> arc4 \<Rightarrow> arc4" where
  "arc4_swap i j a =
     (let si = a_s a ! unat i; sj = a_s a ! unat j
      in \<lparr>a_i = i, a_j = j, a_s = (a_s a)[unat i := sj, unat j := si]\<rparr>)"

fun arc4_setkey_loop :: "nat \<Rightarrow> nat \<Rightarrow> u8 list \<Rightarrow> nat \<Rightarrow> arc4 \<Rightarrow> arc4 result" where
  "arc4_setkey_loop 0 keypos key keylen a = Ok a"
| "arc4_setkey_loop (Suc n) keypos key keylen a =
     (let keypos = (if keylen \<le> keypos then 0 else keypos) in
      if length key \<le> keypos then Panic
      else
        (let i = a_i a + 1; j = a_j a + a_s a ! unat i + key ! keypos
         in arc4_setkey_loop n (keypos + 1) key keylen (arc4_swap i j a)))"

definition arc4_setkey_part :: "arc4 \<Rightarrow> u8 list \<Rightarrow> nat \<Rightarrow> arc4 result" where
  "arc4_setkey_part a key keylen = arc4_setkey_loop 256 0 key keylen a"

definition then_r :: "'a result \<Rightarrow> ('a \<Rightarrow> 'b result) \<Rightarrow> 'b result" where
  "then_r r f = (case r of Ok x \<Rightarrow> f x | Err e \<Rightarrow> Err e | Panic \<Rightarrow> Panic)"

text \<open>The key is the memory from its start on, of which \<open>len\<close> bytes are left.\<close>

function arc4_setkey_all :: "arc4 \<Rightarrow> u8 list \<Rightarrow> nat \<Rightarrow> arc4 result" where
  "arc4_setkey_all a key len =
     (if 128 < len
      then then_r (arc4_setkey_part a (drop 128 key) 128) (\<lambda>a. arc4_setkey_all a (drop 128 key) (len - 128))
      else then_r (if 0 < len then arc4_setkey_part a key len else Ok a) (\<lambda>a. Ok (a\<lparr>a_j := a_i a\<rparr>)))"
  by auto
termination
  by (relation "measure (\<lambda>(a, key, len). len)") auto

declare arc4_setkey_all.simps [simp del]

definition arc4_setkey :: "u8 list \<Rightarrow> arc4 result" where
  "arc4_setkey key = arc4_setkey_all arc4_reset key (length key)"

definition arc4_getbyte :: "arc4 \<Rightarrow> u8 \<times> arc4" where
  "arc4_getbyte a =
     (let i = a_i a + 1; si = a_s a ! unat i; j = a_j a + si; sj = a_s a ! unat j; a = arc4_swap i j a
      in (a_s a ! unat (si + sj), a))"

fun arc4_bytes :: "nat \<Rightarrow> arc4 \<Rightarrow> u8 list \<times> arc4" where
  "arc4_bytes 0 a = ([], a)"
| "arc4_bytes (Suc n) a = (let (b, a) = arc4_getbyte a; (bs, a) = arc4_bytes n a in (b # bs, a))"

definition bytes_of_word :: "u64 \<Rightarrow> u8 list" where
  "bytes_of_word w = map (\<lambda>i. ucast (drop_bit (8 * i) w)) [0..<8]"

definition word_of_bytes :: "u8 list \<Rightarrow> u64" where
  "word_of_bytes bs = foldr (\<lambda>b w. push_bit 8 w OR ucast b) bs 0"

definition jrand_seed :: "u64 list \<Rightarrow> arc4 result" where
  "jrand_seed seed = arc4_setkey (concat (map bytes_of_word seed))"

definition jrand :: "arc4 \<Rightarrow> u64 \<times> arc4" where
  "jrand a = (let (bs, a) = arc4_bytes 8 a in (word_of_bytes bs, a))"

section \<open>The table is a permutation\<close>

definition arc4_ok :: "arc4 \<Rightarrow> bool" where
  "arc4_ok a \<longleftrightarrow> mset (a_s a) = mset all_bytes"

lemma arc4_ok_length: "arc4_ok a \<Longrightarrow> length (a_s a) = 256"
  unfolding arc4_ok_def by (metis all_bytes_def length_map length_upt mset_eq_length diff_zero)

lemma unat_byte: "unat (i :: u8) < 256"
  using unsigned_less [of i] by simp

lemma arc4_swap_ok: "arc4_ok a \<Longrightarrow> arc4_ok (arc4_swap i j a)"
  using arc4_ok_length [of a] mset_swap [of "unat j" "a_s a" "unat i"] unat_byte [of i] unat_byte [of j]
  by (simp add: arc4_swap_def arc4_ok_def Let_def)

lemma arc4_reset_ok: "arc4_ok arc4_reset"
  by (simp add: arc4_ok_def arc4_reset_def)

lemma setkey_loop_ok: "arc4_ok a \<Longrightarrow> arc4_setkey_loop n p key len a = Ok a' \<Longrightarrow> arc4_ok a'"
  by (induction n p key len a rule: arc4_setkey_loop.induct) (auto simp: Let_def arc4_swap_ok split: if_splits)

lemma then_r_Ok: "then_r r f = Ok y \<longleftrightarrow> (\<exists>x. r = Ok x \<and> f x = Ok y)"
  by (cases r) (auto simp: then_r_def)

lemma setkey_all_ok: "arc4_ok a \<Longrightarrow> arc4_setkey_all a key len = Ok a' \<Longrightarrow> arc4_ok a'"
proof (induction a key len rule: arc4_setkey_all.induct)
  case (1 a key len)
  show ?case
  proof (cases "128 < len")
    case True
    then show ?thesis
      using 1 by (subst (asm) arc4_setkey_all.simps) (auto simp: then_r_Ok arc4_setkey_part_def dest!: setkey_loop_ok [OF 1(2)])
  next
    case False
    then show ?thesis
      using 1(2,3) setkey_loop_ok [OF 1(2)]
      by (subst (asm) arc4_setkey_all.simps) (auto simp: then_r_Ok arc4_setkey_part_def arc4_ok_def split: if_splits)
  qed
qed

lemma getbyte_ok: "arc4_ok a \<Longrightarrow> arc4_ok (snd (arc4_getbyte a))"
  by (simp add: arc4_getbyte_def Let_def arc4_swap_ok)

lemma arc4_bytes_ok: "arc4_ok a \<Longrightarrow> arc4_ok (snd (arc4_bytes n a)) \<and> length (fst (arc4_bytes n a)) = n"
proof (induction n arbitrary: a)
  case (Suc n)
  obtain b a1 where b: "arc4_getbyte a = (b, a1)" by fastforce
  obtain bs a2 where bs: "arc4_bytes n a1 = (bs, a2)" by fastforce
  show ?case using Suc.IH [of a1] getbyte_ok [OF Suc.prems] by (simp add: b bs)
qed simp

text \<open>
  However often the generator is seeded and used, its table holds every byte once.
\<close>

lemma jrand_table_permutation:
  assumes "jrand_seed seed = Ok a"
  shows "mset (a_s (((\<lambda>a. snd (jrand a)) ^^ n) a)) = mset all_bytes"
proof -
  have "arc4_ok (((\<lambda>a. snd (jrand a)) ^^ n) a)"
  proof (induction n)
    case 0
    show ?case using assms setkey_all_ok [OF arc4_reset_ok] by (simp add: jrand_seed_def arc4_setkey_def)
  next
    case (Suc n)
    then show ?case using arc4_bytes_ok by (simp add: jrand_def split: prod.split) (metis snd_conv)
  qed
  then show ?thesis by (simp add: arc4_ok_def)
qed

text \<open>
  A key of more than 128 bytes that is no multiple of 128 is read behind its end: the loop advances the
  key before it uses a part.  The kernel's own seeds have 32 bytes.
\<close>

lemma setkey_loop_short:
  "keypos \<le> length key \<Longrightarrow> length key < keypos + n \<Longrightarrow> length key < keylen \<Longrightarrow> arc4_setkey_loop n keypos key keylen a = Panic"
  by (induction n keypos key keylen a rule: arc4_setkey_loop.induct) (auto simp: Let_def)

lemma arc4_setkey_overruns:
  assumes "128 < length key" "length key < 256"
  shows "arc4_setkey key = Panic"
proof -
  have "arc4_setkey_part arc4_reset (drop 128 key) 128 = Panic"
    unfolding arc4_setkey_part_def by (rule setkey_loop_short) (use assms in auto)
  then show ?thesis using assms by (simp add: arc4_setkey_def arc4_setkey_all.simps then_r_def)
qed

end
