(* ===== verification/Datatree.thy ===== *)
theory Datatree
  imports Corey_Prelude "HOL-Library.Multiset"
begin

text \<open>
  The tree of data blocks of \<^verbatim>\<open>fs/datatree.c\<close>, which maps the blocks of a file to addresses.  A
  block holds 256 entries; the entries of the blocks at the bottom are addresses, zero for none, those
  above point to blocks.  The functions that allocate and free a block belong to the user of the tree and
  are arguments.  The locks of the entries are taken by one thread at a time here.  It is shown that the
  operations are those of a map.
\<close>

section \<open>The tree\<close>

datatype dtree = Null | Leaf u64 "u64 list" | Node u64 "dtree list"

definition DATA_ENTRIES_PER_BLOCK :: nat where
  "DATA_ENTRIES_PER_BLOCK = 256"

definition DATATREE_HEIGHT :: nat where
  "DATATREE_HEIGHT = 2"

type_synonym 'm block_alloc = "'m \<Rightarrow> u64 option \<times> 'm"
type_synonym 'm block_free = "u64 \<Rightarrow> 'm \<Rightarrow> 'm"

text \<open>A missing block is allocated and cleared.\<close>

definition dt_fill :: "'m block_alloc \<Rightarrow> nat \<Rightarrow> dtree \<times> 'm \<Rightarrow> unit result \<times> dtree \<times> 'm" where
  "dt_fill dalloc level s =
     (case s of
        (Null, m) \<Rightarrow>
          (case dalloc m of
             (None, m) \<Rightarrow> (Err E_NO_MEM, Null, m)
           | (Some va, m) \<Rightarrow>
               (Ok (), if level = 0 then Leaf va (replicate DATA_ENTRIES_PER_BLOCK 0)
                       else Node va (replicate DATA_ENTRIES_PER_BLOCK Null), m))
      | (t, m) \<Rightarrow> (Ok (), t, m))"

text \<open>The loop that looks for the branch of an entry: \<open>n\<close> branches are left, the next is \<open>i\<close>.\<close>

fun dt_branch :: "nat \<Rightarrow> nat \<Rightarrow> nat \<Rightarrow> nat \<Rightarrow> (nat \<times> nat) option" where
  "dt_branch nb i 0 ient = None"
| "dt_branch nb i (Suc n) ient = (if ient < nb then Some (i, ient) else dt_branch nb (Suc i) n (ient - nb))"

definition nbranch :: "nat \<Rightarrow> nat" where
  "nbranch level = DATA_ENTRIES_PER_BLOCK ^ level"

text \<open>The entry that is found is named by the indices on the way to it.\<close>

fun datatree_get_ent :: "'m block_alloc \<Rightarrow> nat \<Rightarrow> nat \<Rightarrow> dtree \<times> 'm \<Rightarrow> nat list result \<times> dtree \<times> 'm" where
  "datatree_get_ent dalloc 0 ient s =
     bind_r (dt_fill dalloc 0 s) (\<lambda>_ (t, m). if DATA_ENTRIES_PER_BLOCK \<le> ient then (Panic, t, m) else (Ok [ient], t, m))"
| "datatree_get_ent dalloc (Suc level) ient s =
     bind_r (dt_fill dalloc (Suc level) s) (\<lambda>_ (t, m).
       case t of
         Node va ts \<Rightarrow>
           (case dt_branch (nbranch (Suc level)) 0 DATA_ENTRIES_PER_BLOCK ient of
              None \<Rightarrow> (Panic, t, m)
            | Some (i, ient) \<Rightarrow>
                (case datatree_get_ent dalloc level ient (ts ! i, m) of
                   (r, t', m) \<Rightarrow> bind_r (r, Node va (ts[i := t']), m) (\<lambda>p s. (Ok (i # p), s))))
       | _ \<Rightarrow> (Panic, t, m))"

fun ent_va :: "dtree \<Rightarrow> nat list \<Rightarrow> u64" where
  "ent_va (Leaf va vs) [i] = vs ! i"
| "ent_va (Node va ts) (i # p) = ent_va (ts ! i) p"
| "ent_va t p = 0"

fun set_ent_va :: "dtree \<Rightarrow> nat list \<Rightarrow> u64 \<Rightarrow> dtree" where
  "set_ent_va (Leaf va vs) [i] v = Leaf va (vs[i := v])"
| "set_ent_va (Node va ts) (i # p) v = Node va (ts[i := set_ent_va (ts ! i) p v])"
| "set_ent_va t p v = t"

definition datatree_put :: "'m block_alloc \<Rightarrow> u64 \<Rightarrow> u64 \<Rightarrow> dtree \<times> 'm \<Rightarrow> unit result \<times> dtree \<times> 'm" where
  "datatree_put dalloc ient va s =
     bind_r (datatree_get_ent dalloc DATATREE_HEIGHT (unat ient) s) (\<lambda>ent (t, m).
       if ent_va t ent \<noteq> 0 then (Err E_EXISTS, t, m) else (Ok (), set_ent_va t ent va, m))"

definition datatree_get :: "'m block_alloc \<Rightarrow> u64 \<Rightarrow> dtree \<times> 'm \<Rightarrow> u64 result \<times> dtree \<times> 'm" where
  "datatree_get dalloc ient s =
     bind_r (datatree_get_ent dalloc DATATREE_HEIGHT (unat ient) s) (\<lambda>ent (t, m).
       if ent_va t ent = 0 then (Err E_NOT_FOUND, t, m) else (Ok (ent_va t ent), t, m))"

record datatree_overwrite_arg =
  oa_oldva :: u64
  oa_ent :: "nat list option"
  oa_force :: bool

text \<open>
  An overwrite looks the entry up once and exchanges the address if it is the expected one.  With the
  flag it goes on with the address that it found, which nobody changes in between.
\<close>

definition datatree_overwrite ::
  "'m block_alloc \<Rightarrow> 'm block_free \<Rightarrow> u64 \<Rightarrow> u64 \<Rightarrow> datatree_overwrite_arg \<times> dtree \<times> 'm
     \<Rightarrow> unit result \<times> datatree_overwrite_arg \<times> dtree \<times> 'm"
where
  "datatree_overwrite dalloc dfree ient newva s =
     (case s of (arg, s) \<Rightarrow>
       bind_r (case oa_ent arg of
                 Some ent \<Rightarrow> (Ok ent, arg, s)
               | None \<Rightarrow>
                   (case datatree_get_ent dalloc DATATREE_HEIGHT (unat ient) s of
                      (Ok ent, s) \<Rightarrow> (Ok ent, arg\<lparr>oa_ent := Some ent\<rparr>, s)
                    | (r, s) \<Rightarrow> (r, arg, s))) (\<lambda>ent (arg, t, m).
         let old = ent_va t ent in
         if old = 0 then (Err E_INVAL, arg, t, m)
         else if old \<noteq> oa_oldva arg \<and> \<not> oa_force arg then (Err E_AGAIN, arg\<lparr>oa_oldva := old\<rparr>, t, m)
         else (Ok (), arg\<lparr>oa_oldva := old\<rparr>, set_ent_va t ent newva, dfree old m)))"

fun datatree_free_ents :: "'m block_free \<Rightarrow> nat \<Rightarrow> dtree \<Rightarrow> 'm \<Rightarrow> 'm" where
  "datatree_free_ents dfree 0 (Leaf va vs) m = dfree va (fold (\<lambda>v m. if v \<noteq> 0 then dfree v m else m) vs m)"
| "datatree_free_ents dfree (Suc level) (Node va ts) m = dfree va (fold (datatree_free_ents dfree level) ts m)"
| "datatree_free_ents dfree level t m = m"

definition datatree_free :: "'m block_free \<Rightarrow> dtree \<times> 'm \<Rightarrow> 'm" where
  "datatree_free dfree s = datatree_free_ents dfree DATATREE_HEIGHT (fst s) (snd s)"

definition datatree_init :: dtree where
  "datatree_init = Null"

section \<open>The tree as a map\<close>

fun dt_ok :: "nat \<Rightarrow> dtree \<Rightarrow> bool" where
  "dt_ok level Null = True"
| "dt_ok 0 (Leaf va vs) = (length vs = DATA_ENTRIES_PER_BLOCK)"
| "dt_ok (Suc level) (Node va ts) = (length ts = DATA_ENTRIES_PER_BLOCK \<and> (\<forall>t\<in>set ts. dt_ok level t))"
| "dt_ok level t = False"

fun dt_map :: "nat \<Rightarrow> dtree \<Rightarrow> nat \<Rightarrow> u64 option" where
  "dt_map 0 (Leaf va vs) k = (if k < DATA_ENTRIES_PER_BLOCK \<and> vs ! k \<noteq> 0 then Some (vs ! k) else None)"
| "dt_map (Suc level) (Node va ts) k =
     (let n = nbranch (Suc level) in
      if k div n < DATA_ENTRIES_PER_BLOCK then dt_map level (ts ! (k div n)) (k mod n) else None)"
| "dt_map level t k = None"

lemma dt_branch_div:
  assumes "0 < nb"
  shows "dt_branch nb i n ient = (if ient div nb < n then Some (i + ient div nb, ient mod nb) else None)"
proof (induction n arbitrary: i ient)
  case (Suc n)
  show ?case
  proof (cases "ient < nb")
    case False
    then have "ient div nb = Suc ((ient - nb) div nb)" "ient mod nb = (ient - nb) mod nb"
      using assms by (simp_all add: le_div_geq le_mod_geq)
    then show ?thesis using Suc False by simp
  qed (use assms in simp)
qed simp

lemma entries_pos [simp]: "0 < DATA_ENTRIES_PER_BLOCK"
  by (simp add: DATA_ENTRIES_PER_BLOCK_def)

lemma div_entries_iff:
  "k div nbranch (Suc l) < DATA_ENTRIES_PER_BLOCK \<longleftrightarrow> k < nbranch (Suc (Suc l))"
  by (simp add: nbranch_def div_less_iff_less_mult)

lemma nbranch_pos [simp]: "0 < nbranch l"
  by (simp add: nbranch_def)

lemma nbranch_1 [simp]: "nbranch (Suc 0) = DATA_ENTRIES_PER_BLOCK"
  by (simp add: nbranch_def)

text \<open>The entry number that a sequence of indices leads to.\<close>

fun leads :: "nat \<Rightarrow> dtree \<Rightarrow> nat list \<Rightarrow> nat \<Rightarrow> bool" where
  "leads 0 (Leaf va vs) [i] k = (i = k \<and> k < DATA_ENTRIES_PER_BLOCK)"
| "leads (Suc level) (Node va ts) (i # p) k =
     (i = k div nbranch (Suc level) \<and> i < DATA_ENTRIES_PER_BLOCK \<and>
      leads level (ts ! i) p (k mod nbranch (Suc level)))"
| "leads level t p k = False"

definition ent_option :: "u64 \<Rightarrow> u64 option" where
  "ent_option v = (if v = 0 then None else Some v)"

lemma leads_get: "leads l t p k \<Longrightarrow> dt_map l t k = ent_option (ent_va t p)"
  by (induction l t p k rule: leads.induct) (auto simp: ent_option_def Let_def)

lemma leads_set_ok: "leads l t p k \<Longrightarrow> dt_ok l t \<Longrightarrow> dt_ok l (set_ent_va t p v) \<and> leads l (set_ent_va t p v) p k"
proof (induction l t p k rule: leads.induct)
  case (2 level va ts i p k)
  then show ?case by (auto dest!: set_update_subset_insert [THEN subsetD])
qed auto

lemma leads_set_map: "leads l t p k \<Longrightarrow> dt_ok l t \<Longrightarrow> dt_map l (set_ent_va t p v) = (dt_map l t)(k := ent_option v)"
proof (induction l t p k rule: leads.induct)
  case (2 level va ts i p k)
  define n where "n = nbranch (Suc level)"
  have IH: "dt_map level (set_ent_va (ts ! i) p v) = (dt_map level (ts ! i))(k mod n := ent_option v)"
    unfolding n_def by (rule "2.IH") (use 2(2,3) in auto)
  have i: "i = k div n" "i < length ts" using 2 by (simp_all add: n_def)
  have same: "j = k \<longleftrightarrow> j div n = i \<and> j mod n = k mod n" for j
    unfolding i(1) by (metis div_mult_mod_eq)
  show ?case
  proof
    fix j
    have "dt_map (Suc level) (set_ent_va (Node va ts) (i # p) v) j =
      (if j div n < DATA_ENTRIES_PER_BLOCK
       then (if j div n = i then ((dt_map level (ts ! i))(k mod n := ent_option v)) (j mod n)
             else dt_map level (ts ! (j div n)) (j mod n)) else None)"
      using i IH by (simp add: n_def [symmetric] Let_def)
    also have "\<dots> = ((dt_map (Suc level) (Node va ts))(k := ent_option v)) j"
      using same [of j] 2(2) i by (auto simp: n_def [symmetric] Let_def)
    finally show "dt_map (Suc level) (set_ent_va (Node va ts) (i # p) v) j =
      ((dt_map (Suc level) (Node va ts))(k := ent_option v)) j" .
  qed
qed (auto simp: ent_option_def)

lemma dt_fill_cases:
  assumes "dt_fill dalloc l (t, m) = (r, t', m')" and "dt_ok l t"
  shows "dt_ok l t' \<and> dt_map l t' = dt_map l t \<and>
    (r = Ok () \<and> t' \<noteq> Null \<or> r = Err E_NO_MEM \<and> dalloc m = (None, m') \<and> t' = t)"
  using assms
  by (cases l) (auto simp: dt_fill_def Let_def fun_eq_iff split: dtree.splits prod.splits option.splits)

text \<open>What a lookup of an entry leaves and returns.\<close>

definition found :: "'m block_alloc \<Rightarrow> nat \<Rightarrow> nat \<Rightarrow> dtree \<Rightarrow> nat list result \<times> dtree \<times> 'm \<Rightarrow> bool" where
  "found dalloc l k t out =
     (case out of (r, t', m') \<Rightarrow>
       dt_ok l t' \<and> dt_map l t' = dt_map l t \<and>
       (case r of
          Ok p \<Rightarrow> leads l t' p k
        | Err e \<Rightarrow> e = E_NO_MEM \<and> (\<exists>m. fst (dalloc m) = None)
        | Panic \<Rightarrow> nbranch (Suc l) \<le> k))"

lemma leads_bound: "leads l t p k \<Longrightarrow> k < nbranch (Suc l)"
  by (induction l t p k rule: leads.induct) (auto simp: div_entries_iff)

lemma foundI:
  assumes "dt_ok l t'" and "dt_map l t' = dt_map l t"
    and "case r of Ok p \<Rightarrow> leads l t' p k | Err e \<Rightarrow> e = E_NO_MEM \<and> (\<exists>m. fst (dalloc m) = None) | Panic \<Rightarrow> nbranch (Suc l) \<le> k"
  shows "found dalloc l k t (r, t', m')"
  unfolding found_def using assms by blast

lemma foundD:
  assumes "found dalloc l k t (r, t', m')"
  shows "dt_ok l t'" and "dt_map l t' = dt_map l t"
    and "case r of Ok p \<Rightarrow> leads l t' p k | Err e \<Rightarrow> e = E_NO_MEM \<and> (\<exists>m. fst (dalloc m) = None) | Panic \<Rightarrow> nbranch (Suc l) \<le> k"
  using assms unfolding found_def by blast+

lemma found_node:
  assumes h: "found dalloc l (k mod nbranch (Suc l)) (ts ! i) (r, t', m')"
    and i: "i = k div nbranch (Suc l)" "i < DATA_ENTRIES_PER_BLOCK"
    and ok: "dt_ok (Suc l) (Node va ts)" and same: "dt_map (Suc l) (Node va ts) = dt_map (Suc l) t"
  shows "found dalloc (Suc l) k t (bind_r (r, Node va (ts[i := t']), m') (\<lambda>p s. (Ok (i # p), s)))"
proof -
  note h1 = foundD [OF h]
  have len: "length ts = DATA_ENTRIES_PER_BLOCK" using ok by simp
  have "dt_map (Suc l) (Node va (ts[i := t'])) = dt_map (Suc l) (Node va ts)"
    using i(2) by (intro ext) (simp add: Let_def nth_list_update len h1(2))
  then have m: "dt_map (Suc l) (Node va (ts[i := t'])) = dt_map (Suc l) t" using same by (rule trans)
  have o: "dt_ok (Suc l) (Node va (ts[i := t']))"
    using h1(1) ok by (auto dest!: set_update_subset_insert [THEN subsetD])
  have "\<not> nbranch (Suc l) \<le> k mod nbranch (Suc l)" by (simp add: not_le)
  then have c: "case map_result (Cons i) r of
      Ok p \<Rightarrow> leads (Suc l) (Node va (ts[i := t'])) p k
    | Err e \<Rightarrow> e = E_NO_MEM \<and> (\<exists>m. fst (dalloc m) = None)
    | Panic \<Rightarrow> nbranch (Suc (Suc l)) \<le> k"
    using h1(3) i len by (cases r) auto
  have "bind_r (r, s) (\<lambda>p s. (Ok (i # p), s)) = (map_result (Cons i) r, s)" for s :: "dtree \<times> 'a"
    by (cases r) auto
  then show ?thesis using foundI [OF o m c] by simp
qed

lemma get_ent_found: "dt_ok l t \<Longrightarrow> found dalloc l k t (datatree_get_ent dalloc l k (t, m))"
proof (induction l arbitrary: k t m)
  case 0
  obtain r t1 m1 where f: "dt_fill dalloc 0 (t, m) = (r, t1, m1)" by (cases "dt_fill dalloc 0 (t, m)") auto
  note c = dt_fill_cases [OF f 0]
  have ok: "dt_ok 0 t1" and same: "dt_map 0 t1 = dt_map 0 t" using c by blast+
  have r: "r = Ok () \<and> t1 \<noteq> Null \<or> r = Err E_NO_MEM \<and> fst (dalloc m) = None" using c by auto
  let ?r = "case r of Ok _ \<Rightarrow> if DATA_ENTRIES_PER_BLOCK \<le> k then Panic else Ok [k] | Err e \<Rightarrow> Err e | Panic \<Rightarrow> Panic"
  have "datatree_get_ent dalloc 0 k (t, m) = (?r, t1, m1)" using f by (cases r) auto
  moreover have "found dalloc 0 k t (?r, t1, m1)"
    by (rule foundI [OF ok same]) (use r ok in \<open>cases t1; auto\<close>)
  ultimately show ?case by (simp only:)
next
  case (Suc l)
  obtain r t1 m1 where f: "dt_fill dalloc (Suc l) (t, m) = (r, t1, m1)"
    by (cases "dt_fill dalloc (Suc l) (t, m)") auto
  note c = dt_fill_cases [OF f Suc.prems]
  have ok: "dt_ok (Suc l) t1" and same: "dt_map (Suc l) t1 = dt_map (Suc l) t" using c by blast+
  consider "r = Err E_NO_MEM" "fst (dalloc m) = None" | va ts where "r = Ok ()" "t1 = Node va ts"
    using c ok by (cases t1) auto
  then show ?case
  proof cases
    case 1
    have "datatree_get_ent dalloc (Suc l) k (t, m) = (Err E_NO_MEM, t1, m1)" using f 1 by simp
    moreover have "found dalloc (Suc l) k t (Err E_NO_MEM, t1, m1)"
      by (rule foundI [OF ok same]) (use 1 in auto)
    ultimately show ?thesis by (simp only:)
  next
    case (2 va ts)
    let ?i = "k div nbranch (Suc l)"
    show ?thesis
    proof (cases "?i < DATA_ENTRIES_PER_BLOCK")
      case False
      then have "datatree_get_ent dalloc (Suc l) k (t, m) = (Panic, t1, m1)"
        using f 2 by (simp add: dt_branch_div)
      moreover have "found dalloc (Suc l) k t (Panic, t1, m1)"
        by (rule foundI [OF ok same]) (use False div_entries_iff [of k l] in auto)
      ultimately show ?thesis by (simp only:)
    next
      case True
      then have "dt_ok l (ts ! ?i)" using ok 2 by simp
      note h = Suc.IH [OF this, of "k mod nbranch (Suc l)" m1]
      obtain r2 t2 m2 where g: "datatree_get_ent dalloc l (k mod nbranch (Suc l)) (ts ! ?i, m1) = (r2, t2, m2)"
        by (cases "datatree_get_ent dalloc l (k mod nbranch (Suc l)) (ts ! ?i, m1)") auto
      have "datatree_get_ent dalloc (Suc l) k (t, m) =
          bind_r (r2, Node va (ts[?i := t2]), m2) (\<lambda>p s. (Ok (?i # p), s))"
        using f 2 True g by (simp add: dt_branch_div)
      then show ?thesis
        using found_node [OF h [unfolded g] refl True] ok same 2 by simp
    qed
  qed
qed

section \<open>The operations on the map\<close>

abbreviation dt_abs :: "dtree \<Rightarrow> nat \<Rightarrow> u64 option" where
  "dt_abs \<equiv> dt_map DATATREE_HEIGHT"

text \<open>How an operation that fails leaves the tree: only a failed allocation and an entry that the tree cannot hold stop it early.\<close>

definition dt_failed :: "'m block_alloc \<Rightarrow> nat \<Rightarrow> jos_error option \<Rightarrow> bool" where
  "dt_failed dalloc k e =
     (case e of None \<Rightarrow> 2 ^ 24 \<le> k | Some e \<Rightarrow> e = E_NO_MEM \<and> (\<exists>m. fst (dalloc m) = None))"

lemma get_ent_cases:
  assumes "dt_ok DATATREE_HEIGHT t"
  obtains p t' m' where "datatree_get_ent dalloc DATATREE_HEIGHT k (t, m) = (Ok p, t', m')"
      "dt_ok DATATREE_HEIGHT t'" "dt_abs t' = dt_abs t" "leads DATATREE_HEIGHT t' p k"
  | t' m' where "datatree_get_ent dalloc DATATREE_HEIGHT k (t, m) = (Err E_NO_MEM, t', m')"
      "dt_ok DATATREE_HEIGHT t'" "dt_abs t' = dt_abs t" "dt_failed dalloc k (Some E_NO_MEM)"
  | t' m' where "datatree_get_ent dalloc DATATREE_HEIGHT k (t, m) = (Panic, t', m')"
      "dt_ok DATATREE_HEIGHT t'" "dt_abs t' = dt_abs t" "dt_failed dalloc k None"
proof -
  obtain r t' m' where g: "datatree_get_ent dalloc DATATREE_HEIGHT k (t, m) = (r, t', m')"
    by (cases "datatree_get_ent dalloc DATATREE_HEIGHT k (t, m)") auto
  note h = foundD [OF get_ent_found [OF assms, of dalloc k m, unfolded g]]
  have n: "nbranch (Suc DATATREE_HEIGHT) = 2 ^ 24"
    by (simp add: nbranch_def DATATREE_HEIGHT_def DATA_ENTRIES_PER_BLOCK_def)
  show thesis
    using h(3) that g h(1,2) by (cases r) (auto simp: dt_failed_def n)
qed

lemma leads_none: "leads l t p k \<Longrightarrow> dt_map l t k = None \<longleftrightarrow> ent_va t p = 0"
  by (simp add: leads_get ent_option_def)

lemma leads_some: "leads l t p k \<Longrightarrow> ent_va t p \<noteq> 0 \<Longrightarrow> dt_map l t k = Some (ent_va t p)"
  by (simp add: leads_get ent_option_def)

definition put_refines :: "'m block_alloc \<Rightarrow> nat \<Rightarrow> u64 \<Rightarrow> dtree \<Rightarrow> unit result \<times> dtree \<times> 'm \<Rightarrow> bool" where
  "put_refines dalloc k va t out =
     (case out of (r, t', m') \<Rightarrow>
       dt_ok DATATREE_HEIGHT t' \<and>
       (case r of
          Ok _ \<Rightarrow> dt_abs t k = None \<and> dt_abs t' = (dt_abs t)(k := ent_option va)
        | Err e \<Rightarrow> dt_abs t' = dt_abs t \<and> (e = E_EXISTS \<and> dt_abs t k \<noteq> None \<or> dt_failed dalloc k (Some e))
        | Panic \<Rightarrow> dt_abs t' = dt_abs t \<and> dt_failed dalloc k None))"

definition get_refines :: "'m block_alloc \<Rightarrow> nat \<Rightarrow> dtree \<Rightarrow> u64 result \<times> dtree \<times> 'm \<Rightarrow> bool" where
  "get_refines dalloc k t out =
     (case out of (r, t', m') \<Rightarrow>
       dt_ok DATATREE_HEIGHT t' \<and> dt_abs t' = dt_abs t \<and>
       (case r of
          Ok va \<Rightarrow> dt_abs t k = Some va
        | Err e \<Rightarrow> e = E_NOT_FOUND \<and> dt_abs t k = None \<or> dt_failed dalloc k (Some e)
        | Panic \<Rightarrow> dt_failed dalloc k None))"

lemma datatree_put_refines:
  assumes "dt_ok DATATREE_HEIGHT t"
  shows "put_refines dalloc (unat ient) va t (datatree_put dalloc ient va (t, m))"
proof (rule get_ent_cases [OF assms, of dalloc "unat ient" m])
  fix p t' m'
  assume g: "datatree_get_ent dalloc DATATREE_HEIGHT (unat ient) (t, m) = (Ok p, t', m')"
    and ok: "dt_ok DATATREE_HEIGHT t'" and same: "dt_abs t' = dt_abs t"
    and l: "leads DATATREE_HEIGHT t' p (unat ient)"
  show ?thesis
    using leads_none [OF l] leads_set_ok [OF l ok] leads_set_map [OF l ok] ok
    unfolding same by (simp add: put_refines_def datatree_put_def g same)
qed (simp_all add: put_refines_def datatree_put_def)

lemma datatree_get_refines:
  assumes "dt_ok DATATREE_HEIGHT t"
  shows "get_refines dalloc (unat ient) t (datatree_get dalloc ient (t, m))"
proof (rule get_ent_cases [OF assms, of dalloc "unat ient" m])
  fix p t' m'
  assume g: "datatree_get_ent dalloc DATATREE_HEIGHT (unat ient) (t, m) = (Ok p, t', m')"
    and ok: "dt_ok DATATREE_HEIGHT t'" and same: "dt_abs t' = dt_abs t"
    and l: "leads DATATREE_HEIGHT t' p (unat ient)"
  show ?thesis
    using leads_none [OF l] leads_some [OF l] ok
    unfolding same by (simp add: get_refines_def datatree_get_def g same)
qed (simp_all add: get_refines_def datatree_get_def)

text \<open>
  An overwrite replaces an address and frees the one it replaced, exactly once, and does so only if the
  caller expected that address or asked for it to be replaced whatever it is.
\<close>

lemma datatree_overwrite_ok:
  assumes "dt_ok DATATREE_HEIGHT t" and "oa_ent arg = None"
    and "datatree_overwrite dalloc dfree ient newva (arg, t, m) = (Ok (), arg', t', m')"
  shows "\<exists>old m1. dt_abs t (unat ient) = Some old \<and> (old = oa_oldva arg \<or> oa_force arg) \<and>
    dt_ok DATATREE_HEIGHT t' \<and> dt_abs t' = (dt_abs t)(unat ient := ent_option newva) \<and>
    m' = dfree old m1 \<and> oa_oldva arg' = old"
proof (rule get_ent_cases [OF assms(1), of dalloc "unat ient" m])
  fix p t1 m1
  assume g: "datatree_get_ent dalloc DATATREE_HEIGHT (unat ient) (t, m) = (Ok p, t1, m1)"
    and ok: "dt_ok DATATREE_HEIGHT t1" and same: "dt_abs t1 = dt_abs t"
    and l: "leads DATATREE_HEIGHT t1 p (unat ient)"
  show ?thesis
    using assms(2,3) leads_some [OF l] leads_set_ok [OF l ok] leads_set_map [OF l ok]
    unfolding same by (auto simp: datatree_overwrite_def g Let_def split: if_splits)
qed (use assms in \<open>simp_all add: datatree_overwrite_def\<close>)

section \<open>What is freed\<close>

fun dt_blocks :: "nat \<Rightarrow> dtree \<Rightarrow> u64 list" where
  "dt_blocks 0 (Leaf va vs) = [va]"
| "dt_blocks (Suc level) (Node va ts) = concat (map (dt_blocks level) ts) @ [va]"
| "dt_blocks level t = []"

fun dt_freed :: "nat \<Rightarrow> dtree \<Rightarrow> u64 list" where
  "dt_freed 0 (Leaf va vs) = filter (\<lambda>v. v \<noteq> 0) vs @ [va]"
| "dt_freed (Suc level) (Node va ts) = concat (map (dt_freed level) ts) @ [va]"
| "dt_freed level t = []"

definition dt_values :: "nat \<Rightarrow> dtree \<Rightarrow> u64 list" where
  "dt_values level t = List.map_filter (dt_map level t) [0..<nbranch (Suc level)]"

lemma fold_filter: "fold (\<lambda>v m. if P v then f v m else m) vs m = fold f (filter P vs) m"
  by (induction vs arbitrary: m) auto

lemma fold_concat_map: "(\<And>t m. t \<in> set ts \<Longrightarrow> g t m = fold f (h t) m) \<Longrightarrow> fold g ts m = fold f (concat (map h ts)) m"
  by (induction ts arbitrary: m) auto

lemma free_ents_freed: "datatree_free_ents dfree l t m = fold dfree (dt_freed l t) m"
proof (induction dfree l t m rule: datatree_free_ents.induct)
  case (2 dfree level va ts m)
  show ?case using fold_concat_map [of ts "datatree_free_ents dfree level" dfree "dt_freed level"] 2 by simp
qed (simp_all add: fold_filter)

lemma upt_blocks: "[0..<n * c] = concat (map (\<lambda>i. map (\<lambda>j. i * c + j) [0..<c]) [0..<n])"
proof (induction n)
  case (Suc n)
  have "[0..<Suc n * c] = [0..<n * c] @ map (\<lambda>j. n * c + j) [0..<c]"
    using upt_add_eq_append [of 0 "n * c" c] map_add_upt [of "n * c" c] by (simp add: ac_simps)
  then show ?case using Suc by simp
qed simp

lemma map_filter_concat: "List.map_filter f (concat xss) = concat (map (List.map_filter f) xss)"
  by (induction xss) (simp_all add: List.map_filter_def)

lemma map_filter_map_cong:
  "(\<And>x. x \<in> set xs \<Longrightarrow> f (g x) = h x) \<Longrightarrow> List.map_filter f (map g xs) = List.map_filter h xs"
  by (induction xs) (simp_all add: List.map_filter_def)

lemma dt_values_Null [simp]: "dt_values l Null = []"
  by (cases l) (auto simp: dt_values_def List.map_filter_def)

lemma dt_values_Leaf:
  assumes "length vs = DATA_ENTRIES_PER_BLOCK"
  shows "dt_values 0 (Leaf va vs) = filter (\<lambda>v. v \<noteq> 0) vs"
proof -
  have "dt_values 0 (Leaf va vs) = List.map_filter ent_option (map ((!) vs) [0..<length vs])"
    unfolding assms dt_values_def nbranch_1 by (rule map_filter_map_cong [symmetric]) (use assms in \<open>auto simp: ent_option_def\<close>)
  also have "\<dots> = filter (\<lambda>v. v \<noteq> 0) vs"
    unfolding map_nth by (induction vs) (simp_all add: List.map_filter_def ent_option_def)
  finally show ?thesis .
qed

lemma dt_values_Node:
  assumes "length ts = DATA_ENTRIES_PER_BLOCK"
  shows "dt_values (Suc l) (Node va ts) = concat (map (dt_values l) ts)"
proof -
  let ?n = "nbranch (Suc l)"
  have n: "nbranch (Suc (Suc l)) = DATA_ENTRIES_PER_BLOCK * ?n" by (simp add: nbranch_def)
  have part: "List.map_filter (dt_map (Suc l) (Node va ts)) (map (\<lambda>j. i * ?n + j) [0..<?n]) = dt_values l (ts ! i)"
    if "i < DATA_ENTRIES_PER_BLOCK" for i
  proof -
    have "dt_map (Suc l) (Node va ts) (i * ?n + j) = dt_map l (ts ! i) j" if "j < ?n" for j
      using that \<open>i < DATA_ENTRIES_PER_BLOCK\<close> by (simp add: Let_def)
    then show ?thesis
      unfolding dt_values_def by (intro map_filter_map_cong) simp
  qed
  have "dt_values (Suc l) (Node va ts) = concat (map (\<lambda>i. dt_values l (ts ! i)) [0..<DATA_ENTRIES_PER_BLOCK])"
    unfolding dt_values_def [of "Suc l"] n upt_blocks map_filter_concat
    unfolding map_map o_def by (intro arg_cong [of _ _ concat] map_cong refl part) simp
  also have "map (\<lambda>i. dt_values l (ts ! i)) [0..<DATA_ENTRIES_PER_BLOCK] = map (dt_values l) ts"
    unfolding assms [symmetric] by (rule nth_equalityI) simp_all
  finally show ?thesis .
qed

lemma mset_concat_add: "(\<And>t. t \<in> set ts \<Longrightarrow> mset (f t) = mset (g t) + mset (h t)) \<Longrightarrow>
    mset (concat (map f ts)) = mset (concat (map g ts)) + mset (concat (map h ts))"
  by (induction ts) auto

lemma dt_freed_split: "dt_ok l t \<Longrightarrow> mset (dt_freed l t) = mset (dt_values l t) + mset (dt_blocks l t)"
proof (induction l t rule: dt_freed.induct)
  case (2 level va ts)
  then show ?case
    using mset_concat_add [of ts "dt_freed level" "dt_values level" "dt_blocks level"]
    by (simp add: dt_values_Node)
qed (simp_all add: dt_values_Leaf)

text \<open>
  C36: the tree of data blocks is a map from the numbers below \<open>2 ^ 24\<close> to addresses.  A put adds an entry,
  or fails and changes none, with \<open>E_EXISTS\<close> exactly for an entry that is there; a get returns the entry and
  changes none, though both may allocate blocks.  Only a failed allocation of a block and a number that is
  too large, on which the code panics, come in between.
\<close>

theorem datatree_refines_map:
  assumes "dt_ok DATATREE_HEIGHT t"
  shows "put_refines dalloc (unat ient) va t (datatree_put dalloc ient va (t, m)) \<and>
    get_refines dalloc (unat ient) t (datatree_get dalloc ient (t, m))"
  by (intro conjI datatree_put_refines datatree_get_refines assms)

theorem datatree_refines_map_witness:
  "put_refines (\<lambda>m. (Some m, m + 4096)) 70000 5 datatree_init (datatree_put (\<lambda>m. (Some m, m + 4096)) 70000 5 (datatree_init, 4096)) \<and>
    get_refines (\<lambda>m. (Some m, m + 4096)) 70000 datatree_init (datatree_get (\<lambda>m. (Some m, m + 4096)) 70000 (datatree_init, 4096))"
  using datatree_refines_map [of datatree_init "\<lambda>m. (Some m, m + 4096)" 70000 5 4096] by (simp add: datatree_init_def)

text \<open>
  Freeing a tree calls the free function exactly once for every address that the tree maps to and once
  for every block of the tree, and for nothing else.
\<close>

theorem datatree_free_releases:
  assumes "dt_ok DATATREE_HEIGHT t"
  shows "\<exists>order. datatree_free dfree (t, m) = fold dfree order m \<and>
    mset order = mset (List.map_filter (dt_abs t) [0..<2 ^ 24]) + mset (dt_blocks DATATREE_HEIGHT t)"
proof (intro exI conjI)
  show "datatree_free dfree (t, m) = fold dfree (dt_freed DATATREE_HEIGHT t) m"
    by (simp add: datatree_free_def free_ents_freed)
  have "nbranch (Suc DATATREE_HEIGHT) = 2 ^ 24"
    by (simp add: nbranch_def DATATREE_HEIGHT_def DATA_ENTRIES_PER_BLOCK_def)
  then show "mset (dt_freed DATATREE_HEIGHT t) = mset (List.map_filter (dt_abs t) [0..<2 ^ 24]) + mset (dt_blocks DATATREE_HEIGHT t)"
    using dt_freed_split [OF assms] unfolding dt_values_def by simp
qed

definition dt_example :: dtree where
  "dt_example = Node 1 (Node 2 (Leaf 3 (7 # replicate 255 0) # replicate 255 Null) # replicate 255 Null)"

lemma dt_example_ok: "dt_ok DATATREE_HEIGHT dt_example"
  by (simp add: dt_example_def DATATREE_HEIGHT_def DATA_ENTRIES_PER_BLOCK_def numeral_2_eq_2)

theorem datatree_free_releases_witness:
  "\<exists>order. datatree_free (\<lambda>va m. va # m) (dt_example, []) = fold (\<lambda>va m. va # m) order [] \<and>
    mset order = mset (List.map_filter (dt_abs dt_example) [0..<2 ^ 24]) + mset (dt_blocks DATATREE_HEIGHT dt_example)"
  using datatree_free_releases [OF dt_example_ok] by (simp del: upt_Suc)

end
