(* ===== verification/Uthread.thy ===== *)
theory Uthread
  imports Kobject
begin

text \<open>
  The user-level threads of \<^verbatim>\<open>lib/thread.c\<close> and their queue of \<^verbatim>\<open>inc/threadq.h\<close>.  The
  threads of one processor are cooperative, so the operations of that processor are one sequence.  A
  thread context lives at the address of its map slot and is named by the number of the slot; the links
  of the queue are fields of the contexts.  Whether a call of \<open>segment_alloc\<close> succeeds is an argument
  of the operations that make it.  The functions that threads start with and run when they halt are code
  numbers.
\<close>

section \<open>State\<close>

datatype code = Code nat

record thread_context =
  tc_id :: u64
  tc_name :: string
  tc_rip :: "code option"
  tc_entry :: code
  tc_entry_arg :: u64
  tc_wait_addr :: u64
  tc_wakeup :: bool
  tc_queue_link :: "nat option"
  tc_onhalt :: "code list"

record thread_queue =
  tq_first :: "nat option"
  tq_last :: "nat option"

text \<open>
  \<open>ut_mapped\<close> tells the slots whose context and stack are mapped, \<open>ut_cached\<close> is the field of the
  slot.
\<close>

record uthreads =
  ut_tc :: "nat \<Rightarrow> thread_context"
  ut_mapped :: "nat \<Rightarrow> bool"
  ut_cached :: "nat \<Rightarrow> bool"
  ut_free :: "nat list"
  ut_queue :: "thread_queue option"
  ut_cur :: "nat option"
  ut_cache :: "nat option"
  ut_count :: u64
  ut_idc :: u64

definition name_size :: nat where
  "name_size = 32"

definition max_threads :: nat where
  "max_threads = 1024"

definition null_tc :: thread_context where
  "null_tc = \<lparr>tc_id = 0, tc_name = [], tc_rip = None, tc_entry = Code 0, tc_entry_arg = 0, tc_wait_addr = 0, tc_wakeup = False,
     tc_queue_link = None, tc_onhalt = []\<rparr>"

section \<open>The queue\<close>

definition threadq_init :: thread_queue where
  "threadq_init = \<lparr>tq_first = None, tq_last = None\<rparr>"

definition set_link :: "nat \<Rightarrow> nat option \<Rightarrow> (nat \<Rightarrow> thread_context) \<Rightarrow> nat \<Rightarrow> thread_context" where
  "set_link tc l h = h(tc := (h tc)\<lparr>tc_queue_link := l\<rparr>)"

definition threadq_push ::
  "thread_queue \<Rightarrow> nat \<Rightarrow> (nat \<Rightarrow> thread_context) \<Rightarrow> thread_queue result \<times> (nat \<Rightarrow> thread_context)"
where
  "threadq_push tq tc h =
     (let h = set_link tc None h in
      if tq_first tq = None then (Ok \<lparr>tq_first = Some tc, tq_last = Some tc\<rparr>, h)
      else
        (case tq_last tq of
           None \<Rightarrow> (Panic, h)
         | Some l \<Rightarrow> (Ok (tq\<lparr>tq_last := Some tc\<rparr>), set_link l (Some tc) h)))"

definition threadq_pop ::
  "thread_queue \<Rightarrow> (nat \<Rightarrow> thread_context) \<Rightarrow> nat option \<times> thread_queue \<times> (nat \<Rightarrow> thread_context)"
where
  "threadq_pop tq h =
     (case tq_first tq of
        None \<Rightarrow> (None, tq, h)
      | Some tc \<Rightarrow> (Some tc, tq\<lparr>tq_first := tc_queue_link (h tc)\<rparr>, set_link tc None h))"

section \<open>Slots and identifiers\<close>

definition map_slot_alloc :: "uthreads \<Rightarrow> nat option \<times> uthreads" where
  "map_slot_alloc s = (case ut_free s of [] \<Rightarrow> (None, s) | slot # f \<Rightarrow> (Some slot, s\<lparr>ut_free := f\<rparr>))"

definition map_slot_free :: "nat \<Rightarrow> uthreads \<Rightarrow> uthreads" where
  "map_slot_free slot s = s\<lparr>ut_cached := (ut_cached s)(slot := True), ut_free := slot # ut_free s\<rparr>"

definition thread_id_alloc :: "nat \<Rightarrow> uthreads \<Rightarrow> u64 result \<times> uthreads" where
  "thread_id_alloc pid s =
     (let ret = ut_idc s + 1; s = s\<lparr>ut_idc := ret\<rparr> in
      if ret AND 0xFF00000000000000 \<noteq> 0 then (Panic, s) else (Ok (ret OR push_bit 56 (of_nat pid)), s))"

text \<open>With the cache of threads, which is on, a freed thread stays mapped.\<close>

definition thread_free_unmap :: "nat \<Rightarrow> uthreads \<Rightarrow> uthreads" where
  "thread_free_unmap tc s = map_slot_free tc s"

definition thread_alloc_map :: "unit result \<Rightarrow> unit result \<Rightarrow> uthreads \<Rightarrow> nat result \<times> uthreads" where
  "thread_alloc_map seg_tc seg_stack s =
     (case map_slot_alloc s of
        (None, s) \<Rightarrow> (Err E_NO_SPACE, s)
      | (Some slot, s) \<Rightarrow>
          if ut_cached s slot then (Ok slot, s)
          else
            (case seg_tc of
               Ok _ \<Rightarrow>
                 (let s = s\<lparr>ut_tc := (ut_tc s)(slot := null_tc)\<rparr> in
                  case seg_stack of
                    Ok _ \<Rightarrow> (Ok slot, s\<lparr>ut_mapped := (ut_mapped s)(slot := True)\<rparr>)
                  | Err e \<Rightarrow> (Err e, map_slot_free slot s)
                  | Panic \<Rightarrow> (Panic, s))
             | Err e \<Rightarrow> (Err e, map_slot_free slot s)
             | Panic \<Rightarrow> (Panic, s)))"

section \<open>Threads\<close>

definition thread_entry :: code where
  "thread_entry = Code 0"

text \<open>A new thread starts in \<open>thread_entry\<close>; writing to a context that is not mapped is a fatal fault.\<close>

definition thread_create ::
  "nat \<Rightarrow> unit result \<Rightarrow> unit result \<Rightarrow> string \<Rightarrow> code \<Rightarrow> u64 \<Rightarrow> uthreads \<Rightarrow> u64 result \<times> uthreads"
where
  "thread_create pid seg_tc seg_stack name entry arg s =
     bind_r (thread_alloc_map seg_tc seg_stack s) (\<lambda>tc s.
       if \<not> ut_mapped s tc then (Panic, s)
       else
         bind_r (thread_id_alloc pid (s\<lparr>ut_tc := (ut_tc s)(tc := (ut_tc s tc)\<lparr>tc_name := take (name_size - 1) name\<rparr>)\<rparr>)) (\<lambda>id s.
           let s = s\<lparr>ut_tc := (ut_tc s)(tc := (ut_tc s tc)
                 \<lparr>tc_id := id, tc_rip := Some thread_entry, tc_entry := entry, tc_entry_arg := arg\<rparr>), ut_count := ut_count s + 1\<rparr>
           in case ut_queue s of
                None \<Rightarrow> (Panic, s)
              | Some tq \<Rightarrow>
                  (case threadq_push tq tc (ut_tc s) of
                     (Ok tq, h) \<Rightarrow> (Ok id, s\<lparr>ut_queue := Some tq, ut_tc := h\<rparr>)
                   | (_, h) \<Rightarrow> (Panic, s\<lparr>ut_tc := h\<rparr>))))"

text \<open>
  \<open>thread_yield\<close> saves the running thread, if there is one, at the end of the queue and jumps to the
  first: the state it returns is that in which the first thread goes on.
\<close>

definition thread_yield :: "uthreads \<Rightarrow> unit result \<times> uthreads" where
  "thread_yield s =
     (case ut_queue s of
        None \<Rightarrow> (Ok (), s)
      | Some tq \<Rightarrow>
          (case threadq_pop tq (ut_tc s) of
             (None, tq, h) \<Rightarrow> (Ok (), s)
           | (Some nxt, tq, h) \<Rightarrow>
               (case ut_cur s of
                  None \<Rightarrow> (Ok (), s\<lparr>ut_queue := Some tq, ut_tc := h, ut_cur := Some nxt\<rparr>)
                | Some cur \<Rightarrow>
                    (case threadq_push tq cur h of
                       (Ok tq, h) \<Rightarrow> (Ok (), s\<lparr>ut_queue := Some tq, ut_tc := h, ut_cur := Some nxt\<rparr>)
                     | (_, h) \<Rightarrow> (Panic, s\<lparr>ut_tc := h\<rparr>)))))"

definition thread_onhalt :: "code \<Rightarrow> uthreads \<Rightarrow> unit result \<times> uthreads" where
  "thread_onhalt f s =
     (case ut_cur s of
        None \<Rightarrow> (Panic, s)
      | Some c \<Rightarrow>
          if length (tc_onhalt (ut_tc s c)) = 4 then (Err E_NO_SPACE, s)
          else (Ok (), s\<lparr>ut_tc := (ut_tc s)(c := (ut_tc s c)\<lparr>tc_onhalt := tc_onhalt (ut_tc s c) @ [f]\<rparr>)\<rparr>))"

text \<open>
  \<open>thread_halt\<close> does not return to its caller: it ends when another thread runs.  It yields until the
  count of threads is zero, and no thread runs any more when it is, or when the queue stays empty.
\<close>

definition thread_halt :: "(code \<Rightarrow> uthreads \<Rightarrow> uthreads) \<Rightarrow> uthreads \<Rightarrow> (unit result \<times> uthreads) option" where
  "thread_halt call s =
     (case ut_cur s of
        None \<Rightarrow> Some (Panic, s)
      | Some c \<Rightarrow>
          (let s = s\<lparr>ut_count := ut_count s - 1\<rparr>;
               s = fold call (tc_onhalt (ut_tc s c)) s;
               s = s\<lparr>ut_tc := (ut_tc s)(c := (ut_tc s c)\<lparr>tc_onhalt := []\<rparr>)\<rparr>;
               s = (case ut_cache s of None \<Rightarrow> s | Some tc \<Rightarrow> thread_free_unmap tc s);
               s = s\<lparr>ut_cache := Some c, ut_cur := None\<rparr>
           in if ut_count s = 0 then None
              else (case thread_yield s of (r, s) \<Rightarrow> if r = Ok () \<and> ut_cur s = None then None else Some (r, s))))"

text \<open>The walk along the links of the queue, which holds at most one entry per slot.\<close>

fun wake_from :: "nat \<Rightarrow> u64 \<Rightarrow> nat option \<Rightarrow> (nat \<Rightarrow> thread_context) \<Rightarrow> nat \<Rightarrow> thread_context" where
  "wake_from (Suc n) addr (Some tc) h =
     wake_from n addr (tc_queue_link (h tc)) (if tc_wait_addr (h tc) = addr then h(tc := (h tc)\<lparr>tc_wakeup := True\<rparr>) else h)"
| "wake_from n addr p h = h"

definition thread_wakeup :: "u64 \<Rightarrow> uthreads \<Rightarrow> unit result \<times> uthreads" where
  "thread_wakeup addr s =
     (case ut_queue s of
        None \<Rightarrow> (Panic, s)
      | Some tq \<Rightarrow> (Ok (), s\<lparr>ut_tc := wake_from max_threads addr (tq_first tq) (ut_tc s)\<rparr>))"

text \<open>The table that \<open>thread_init\<close> sets up: every slot is free, the last first.\<close>

definition thread_table_init :: uthreads where
  "thread_table_init = \<lparr>ut_tc = (\<lambda>_. null_tc), ut_mapped = (\<lambda>_. False), ut_cached = (\<lambda>_. False), ut_free = rev [0..<max_threads],
     ut_queue = Some threadq_init, ut_cur = None, ut_cache = None, ut_count = 0, ut_idc = 0\<rparr>"

section \<open>The queue is a list\<close>

fun tq_path :: "(nat \<Rightarrow> thread_context) \<Rightarrow> nat option \<Rightarrow> nat list \<Rightarrow> bool" where
  "tq_path h p [] \<longleftrightarrow> p = None"
| "tq_path h p (x # xs) \<longleftrightarrow> p = Some x \<and> tq_path h (tc_queue_link (h x)) xs"

definition tq_rel :: "(nat \<Rightarrow> thread_context) \<Rightarrow> thread_queue \<Rightarrow> nat list \<Rightarrow> bool" where
  "tq_rel h tq xs \<longleftrightarrow> distinct xs \<and> tq_path h (tq_first tq) xs \<and> (xs \<noteq> [] \<longrightarrow> tq_last tq = Some (last xs))"

lemma tq_path_cong: "(\<And>x. x \<in> set xs \<Longrightarrow> tc_queue_link (h' x) = tc_queue_link (h x)) \<Longrightarrow> tq_path h' p xs = tq_path h p xs"
  by (induction xs arbitrary: p) auto

lemma tq_rel_cong: "(\<And>x. x \<in> set xs \<Longrightarrow> tc_queue_link (h' x) = tc_queue_link (h x)) \<Longrightarrow> tq_rel h' tq xs = tq_rel h tq xs"
  by (simp add: tq_rel_def tq_path_cong [of xs h' h])

lemma tq_path_snoc:
  "tq_path h p xs \<Longrightarrow> distinct xs \<Longrightarrow> tc \<notin> set xs \<Longrightarrow> xs \<noteq> [] \<Longrightarrow>
    tq_path (set_link (last xs) (Some tc) (set_link tc None h)) p (xs @ [tc])"
proof (induction xs arbitrary: p)
  case (Cons x xs)
  show ?case
  proof (cases "xs = []")
    case True
    then show ?thesis using Cons.prems by (auto simp: set_link_def)
  next
    case False
    then have "tc_queue_link (set_link (last xs) (Some tc) (set_link tc None h) x) = tc_queue_link (h x)"
      using Cons.prems by (auto simp: set_link_def)
    then show ?thesis using Cons False by simp
  qed
qed simp

lemma threadq_push_rel:
  assumes "tq_rel h tq xs" "tc \<notin> set xs"
  shows "\<exists>tq' h'. threadq_push tq tc h = (Ok tq', h') \<and> tq_rel h' tq' (xs @ [tc]) \<and>
    (\<forall>x. h' x = (h x)\<lparr>tc_queue_link := tc_queue_link (h' x)\<rparr>)"
proof (cases "xs = []")
  case True
  then show ?thesis using assms by (auto simp: tq_rel_def threadq_push_def set_link_def)
next
  case False
  then obtain x where "tq_first tq = Some x" using assms by (cases xs) (auto simp: tq_rel_def)
  then show ?thesis
    using assms False tq_path_snoc [of h "tq_first tq" xs tc] by (auto simp: tq_rel_def threadq_push_def Let_def set_link_def)
qed

lemma threadq_pop_rel:
  assumes "tq_rel h tq (x # xs)"
  shows "threadq_pop tq h = (Some x, tq\<lparr>tq_first := tc_queue_link (h x)\<rparr>, set_link x None h) \<and>
    tq_rel (set_link x None h) (tq\<lparr>tq_first := tc_queue_link (h x)\<rparr>) xs"
proof -
  have "tq_path (set_link x None h) p xs = tq_path h p xs" for p
    by (rule tq_path_cong) (use assms in \<open>auto simp: tq_rel_def set_link_def\<close>)
  then show ?thesis using assms by (auto simp: tq_rel_def threadq_pop_def)
qed

section \<open>Threads run in turn\<close>

text \<open>
  The queue is \<open>q\<close>, no thread stands in it that runs or has halted, and free slots are those of no
  thread.  A slot that is marked as cached is mapped.
\<close>

definition ut_inv :: "uthreads \<Rightarrow> nat list \<Rightarrow> bool" where
  "ut_inv s q \<longleftrightarrow>
     (\<exists>tq. ut_queue s = Some tq \<and> tq_rel (ut_tc s) tq q) \<and>
     distinct (ut_free s @ q @ (case ut_cur s of None \<Rightarrow> [] | Some c \<Rightarrow> [c]) @ (case ut_cache s of None \<Rightarrow> [] | Some c \<Rightarrow> [c])) \<and>
     (\<forall>x\<in>set q \<union> set_option (ut_cur s) \<union> set_option (ut_cache s). ut_mapped s x) \<and>
     (\<forall>x\<in>set (ut_free s). ut_cached s x \<longrightarrow> ut_mapped s x)"

lemma thread_yield_rotates:
  assumes i: "ut_inv s (n # q)" and c: "ut_cur s = Some c"
  shows "\<exists>s'. thread_yield s = (Ok (), s') \<and> ut_inv s' (q @ [c]) \<and> ut_cur s' = Some n \<and>
    (\<forall>x. ut_tc s' x = (ut_tc s x)\<lparr>tc_queue_link := tc_queue_link (ut_tc s' x)\<rparr>)"
proof -
  obtain tq where tq: "ut_queue s = Some tq" "tq_rel (ut_tc s) tq (n # q)" using i by (auto simp: ut_inv_def)
  note p = threadq_pop_rel [OF tq(2)]
  have "c \<notin> set q" using i c by (auto simp: ut_inv_def)
  then obtain tq' h' where r: "threadq_push (tq\<lparr>tq_first := tc_queue_link (ut_tc s n)\<rparr>) c (set_link n None (ut_tc s)) = (Ok tq', h')"
    "tq_rel h' tq' (q @ [c])" "\<forall>x. h' x = (set_link n None (ut_tc s) x)\<lparr>tc_queue_link := tc_queue_link (h' x)\<rparr>"
    using threadq_push_rel p by blast
  have "h' x = (ut_tc s x)\<lparr>tc_queue_link := tc_queue_link (h' x)\<rparr>" for x
    using r(3) [rule_format, of x] by (auto simp: set_link_def split: if_splits)
  then show ?thesis
    using i c tq p r(1,2) by (auto simp: thread_yield_def ut_inv_def)
qed

primrec yields :: "nat \<Rightarrow> uthreads \<Rightarrow> unit result \<times> uthreads" where
  "yields 0 s = (Ok (), s)"
| "yields (Suc k) s = bind_r (yields k s) (\<lambda>_. thread_yield)"


text \<open>A table with five threads: that of slot 1 runs, the threads of slots 4, 2 and 3 wait in this order and slot 0 has halted.\<close>

definition five_threads :: uthreads where
  "five_threads = thread_table_init\<lparr>ut_free := rev [5..<max_threads], ut_mapped := (\<lambda>x. x < 5), ut_cur := Some 1, ut_cache := Some 0,
     ut_queue := Some \<lparr>tq_first = Some 4, tq_last = Some 3\<rparr>,
     ut_tc := (\<lambda>_. null_tc)(4 := null_tc\<lparr>tc_queue_link := Some 2\<rparr>, 2 := null_tc\<lparr>tc_queue_link := Some 3\<rparr>)\<rparr>"

lemma five_threads_inv: "ut_inv five_threads [4, 2, 3]"
  by (auto simp: ut_inv_def five_threads_def thread_table_init_def tq_rel_def null_tc_def)


section \<open>Creating and halting threads\<close>

lemma thread_alloc_map_ok:
  assumes "ut_inv s q" "ut_free s = slot # f"
  shows "\<exists>tc. thread_alloc_map (Ok ()) (Ok ()) s =
    (Ok slot, s\<lparr>ut_free := f, ut_mapped := (ut_mapped s)(slot := True), ut_tc := (ut_tc s)(slot := tc)\<rparr>)"
proof (cases "ut_cached s slot")
  case True
  then have "ut_mapped s slot" using assms by (simp add: ut_inv_def)
  then show ?thesis
    using assms True by (intro exI [of _ "ut_tc s slot"]) (simp add: thread_alloc_map_def map_slot_alloc_def fun_upd_idem)
next
  case False
  then show ?thesis
    using assms by (intro exI [of _ null_tc]) (simp add: thread_alloc_map_def map_slot_alloc_def)
qed

lemma ut_inv_new:
  assumes "ut_inv s q" "ut_free s = slot # f"
  shows "slot \<notin> set q \<and> (\<exists>tq. ut_queue s = Some tq \<and> tq_rel ((ut_tc s)(slot := tc)) tq q)"
proof -
  obtain tq where tq: "ut_queue s = Some tq" "tq_rel (ut_tc s) tq q" and n: "slot \<notin> set q" using assms by (auto simp: ut_inv_def)
  have "tq_rel ((ut_tc s)(slot := tc)) tq q = tq_rel (ut_tc s) tq q" by (rule tq_rel_cong) (use n in auto)
  then show ?thesis using tq n by simp
qed

lemma relinked: "x = y\<lparr>tc_queue_link := l\<rparr> \<Longrightarrow> tc_id x = tc_id y \<and> tc_entry x = tc_entry y \<and> tc_entry_arg x = tc_entry_arg y \<and> tc_rip x = tc_rip y"
  by simp

lemma thread_id_alloc_state: "thread_id_alloc pid s = (Ok tid, s') \<Longrightarrow> s' = s\<lparr>ut_idc := ut_idc s + 1\<rparr>"
  by (auto simp: thread_id_alloc_def Let_def split: if_splits)

text \<open>
  A thread that is created enters the queue last, with its own identifier, and starts with its entry
  function.
\<close>

lemma thread_create_inv:
  assumes i: "ut_inv s q" and f: "ut_free s = slot # f" and r: "thread_create pid (Ok ()) (Ok ()) name entry arg s = (Ok tid, s')"
  shows "ut_inv s' (q @ [slot]) \<and> ut_cur s' = ut_cur s \<and> tc_id (ut_tc s' slot) = tid \<and> tc_entry (ut_tc s' slot) = entry \<and>
    tc_entry_arg (ut_tc s' slot) = arg \<and> tc_rip (ut_tc s' slot) = Some thread_entry"
proof -
  obtain tc where a: "thread_alloc_map (Ok ()) (Ok ()) s =
      (Ok slot, s\<lparr>ut_free := f, ut_mapped := (ut_mapped s)(slot := True), ut_tc := (ut_tc s)(slot := tc)\<rparr>)"
    using thread_alloc_map_ok [OF i f] by blast
  let ?tc = "tc\<lparr>tc_name := take (name_size - 1) name, tc_id := tid, tc_rip := Some thread_entry, tc_entry := entry, tc_entry_arg := arg\<rparr>"
  obtain tq where tq: "slot \<notin> set q" "ut_queue s = Some tq" "tq_rel ((ut_tc s)(slot := ?tc)) tq q"
    using ut_inv_new [OF i f, of ?tc] by blast
  obtain tq' h' where p: "threadq_push tq slot ((ut_tc s)(slot := ?tc)) = (Ok tq', h')" "tq_rel h' tq' (q @ [slot])"
    "\<forall>x. h' x = (((ut_tc s)(slot := ?tc)) x)\<lparr>tc_queue_link := tc_queue_link (h' x)\<rparr>"
    using threadq_push_rel [OF tq(3,1)] by blast
  have "h' slot = ?tc\<lparr>tc_queue_link := tc_queue_link (h' slot)\<rparr>" using p(3) [rule_format, of slot] by simp
  from relinked [OF this] have h: "tc_id (h' slot) = tid" "tc_entry (h' slot) = entry" "tc_entry_arg (h' slot) = arg"
    "tc_rip (h' slot) = Some thread_entry"
    by simp_all
  let ?s1 = "s\<lparr>ut_free := f, ut_mapped := (ut_mapped s)(slot := True),
      ut_tc := (ut_tc s)(slot := tc\<lparr>tc_name := take (name_size - 1) name\<rparr>)\<rparr>"
  obtain id0 s2 where d: "thread_id_alloc pid ?s1 = (Ok id0, s2)"
    using r unfolding thread_create_def a by (cases "thread_id_alloc pid ?s1"; cases "fst (thread_id_alloc pid ?s1)") auto
  note s2 = thread_id_alloc_state [OF d]
  have "(let s = s2\<lparr>ut_tc := (ut_tc s2)(slot := (ut_tc s2 slot)
          \<lparr>tc_id := id0, tc_rip := Some thread_entry, tc_entry := entry, tc_entry_arg := arg\<rparr>), ut_count := ut_count s2 + 1\<rparr>
      in case ut_queue s of None \<Rightarrow> (Panic, s)
         | Some tq \<Rightarrow> (case threadq_push tq slot (ut_tc s) of (Ok tq, h) \<Rightarrow> (Ok id0, s\<lparr>ut_queue := Some tq, ut_tc := h\<rparr>)
             | (_, h) \<Rightarrow> (Panic, s\<lparr>ut_tc := h\<rparr>))) = (Ok tid, s')"
    using r unfolding thread_create_def a by (simp add: d [simplified])
  then have s': "ut_tc s' = h'" "ut_queue s' = Some tq'" "ut_free s' = f" "ut_mapped s' = (ut_mapped s)(slot := True)"
    "ut_cached s' = ut_cached s" "ut_cur s' = ut_cur s" "ut_cache s' = ut_cache s"
    using p(1) tq(2) by (auto simp: s2 Let_def split: result.splits prod.splits)
  show ?thesis
  proof (intro conjI)
    have "\<exists>tq. ut_queue s' = Some tq \<and> tq_rel (ut_tc s') tq (q @ [slot])" using s' p(2) by simp
    then show "ut_inv s' (q @ [slot])" using i f unfolding ut_inv_def s'(3-7) by auto
  qed (simp_all add: s' h)
qed

text \<open>
  A thread that cannot be created for want of memory breaks the next one: the slot is put back
  on the free list marked as cached although nothing is mapped there, so the next \<open>thread_create\<close>
  writes to the missing context and faults, even when memory is there again.
\<close>

theorem failed_create_poisons_slot:
  assumes "ut_free s = slot # f" "\<not> ut_cached s slot" "\<not> ut_mapped s slot"
    and "seg_tc = Err e \<or> seg_tc = Ok () \<and> seg_stack = Err e"
  shows "\<exists>s'. thread_create pid seg_tc seg_stack name entry arg s = (Err e, s') \<and>
    fst (thread_create pid' (Ok ()) (Ok ()) name' entry' arg' s') = Panic"
  using assms by (auto simp: thread_create_def thread_alloc_map_def map_slot_alloc_def map_slot_free_def)

theorem failed_create_poisons_slot_witness:
  "\<exists>s'. thread_create 0 (Err E_NO_MEM) (Ok ()) ''a'' (Code 1) 0 thread_table_init = (Err E_NO_MEM, s') \<and>
    fst (thread_create 0 (Ok ()) (Ok ()) ''b'' (Code 1) 0 s') = Panic"
proof -
  have "rev [0..<max_threads] = 1023 # rev [0..<1023]"
    using upt_Suc_append [of 0 1023] by (simp add: max_threads_def)
  then show ?thesis
    by (intro failed_create_poisons_slot [of thread_table_init 1023 "rev [0..<1023]"]) (simp_all add: thread_table_init_def del: rev.simps)
qed

end
