(* ===== verification/Cpuman.thy ===== *)
theory Cpuman
  imports Kobject
begin

text \<open>
  The allocation of processors of \<^verbatim>\<open>lib/cpuman.c\<close>: which processors of the machine are idle, and
  the strategies that pick one, any, near to or at a distance from another, or on a die or chip that is
  idle.  An access outside the table of processors is \<open>Panic\<close>.  The locale \<open>cpu_alloc\<close> is what all
  strategies promise; the groups rest on it.
\<close>

section \<open>State and strategies\<close>

datatype cpu_use = idle | allocated

record cpu_state =
  cm_state :: "cpu_use list"
  cm_nhops :: "nat \<Rightarrow> nat \<Rightarrow> nat"

definition INVALID_PROCID :: nat where
  "INVALID_PROCID = JOS_NCPU"

definition nchips :: nat where
  "nchips = 4"

definition ncores_pc :: nat where
  "ncores_pc = 4"

definition ncores_pd :: nat where
  "ncores_pd = 2"

definition mark :: "nat \<Rightarrow> cpu_use \<Rightarrow> cpu_state \<Rightarrow> cpu_state" where
  "mark i u cs = cs\<lparr>cm_state := (cm_state cs)[i := u]\<rparr>"

text \<open>The scan of \<open>cpu_man_alloc\<close> from the processor \<open>i\<close> on, with \<open>n\<close> processors left.\<close>

fun cpu_man_alloc :: "cpu_state \<Rightarrow> nat \<Rightarrow> nat \<Rightarrow> nat result \<times> cpu_state" where
  "cpu_man_alloc cs i 0 = (Ok INVALID_PROCID, cs)"
| "cpu_man_alloc cs i (Suc n) =
     (if length (cm_state cs) \<le> i then (Panic, cs)
      else if cm_state cs ! i = idle then (Ok i, mark i allocated cs)
      else cpu_man_alloc cs (Suc i) n)"

definition set_nhop :: "nat \<Rightarrow> nat \<Rightarrow> nat \<Rightarrow> (nat \<Rightarrow> nat \<Rightarrow> nat) \<Rightarrow> nat \<Rightarrow> nat \<Rightarrow> nat" where
  "set_nhop a b n h = (let h = h(a := (h a)(b := n)) in h(b := (h b)(a := n)))"

definition cpu_man_init :: "nat \<Rightarrow> (nat \<Rightarrow> nat \<Rightarrow> nat) \<Rightarrow> cpu_state result" where
  "cpu_man_init pid nhops =
     (if JOS_NCPU \<le> pid then Panic
      else
        Ok \<lparr>cm_state = (replicate JOS_NCPU idle)[pid := allocated],
            cm_nhops = set_nhop 2 3 1 (set_nhop 1 3 1 (set_nhop 1 2 2 (set_nhop 0 3 1 (set_nhop 0 2 1 (set_nhop 0 1 1
              (fold (\<lambda>i h. h(i := (h i)(i := 0))) [0..<nchips] nhops))))))\<rparr>)"

definition cpu_man_any :: "cpu_state \<Rightarrow> nat result \<times> cpu_state" where
  "cpu_man_any cs = cpu_man_alloc cs 0 JOS_NCPU"

text \<open>Where a strategy finds no processor it falls back on another.\<close>

definition or_else :: "nat result \<times> cpu_state \<Rightarrow> (cpu_state \<Rightarrow> nat result \<times> cpu_state) \<Rightarrow> nat result \<times> cpu_state" where
  "or_else r f = bind_r r (\<lambda>i cs. if i = INVALID_PROCID then f cs else (Ok i, cs))"

definition cpu_man_nearby :: "cpu_state \<Rightarrow> nat \<Rightarrow> nat result \<times> cpu_state" where
  "cpu_man_nearby cs pid =
     or_else (cpu_man_alloc cs (pid - pid mod ncores_pd) ncores_pd) (\<lambda>cs.
       or_else (cpu_man_alloc cs (pid - pid mod ncores_pc) ncores_pc) cpu_man_any)"

fun remote_chips :: "cpu_state \<Rightarrow> nat \<Rightarrow> nat \<Rightarrow> nat list \<Rightarrow> nat result \<times> cpu_state" where
  "remote_chips cs cid nhop [] = (Ok INVALID_PROCID, cs)"
| "remote_chips cs cid nhop (i # is) =
     (if cm_nhops cs cid i = nhop
      then or_else (cpu_man_alloc cs (i * ncores_pc) ncores_pc) (\<lambda>cs. remote_chips cs cid nhop is)
      else remote_chips cs cid nhop is)"

definition cpu_man_remote :: "cpu_state \<Rightarrow> nat \<Rightarrow> nat \<Rightarrow> nat result \<times> cpu_state" where
  "cpu_man_remote cs pid nhop =
     (let cid = pid div ncores_pc in
      if nchips \<le> cid then (Panic, cs) else or_else (remote_chips cs cid nhop [0..<nchips]) cpu_man_any)"

text \<open>The first of the blocks of \<open>w\<close> processors in the list that is idle.\<close>

fun free_block :: "nat \<Rightarrow> cpu_state \<Rightarrow> nat list \<Rightarrow> nat result \<times> cpu_state" where
  "free_block w cs [] = (Ok INVALID_PROCID, cs)"
| "free_block w cs (i # is) =
     (if \<forall>j\<in>set [0..<w]. cm_state cs ! (i * w + j) \<noteq> allocated then (Ok (i * w), mark (i * w) allocated cs)
      else free_block w cs is)"

definition cpu_man_freedie :: "cpu_state \<Rightarrow> nat result \<times> cpu_state" where
  "cpu_man_freedie cs = or_else (free_block ncores_pd cs [0..<JOS_NCPU div ncores_pd]) cpu_man_any"

definition cpu_man_freechip :: "cpu_state \<Rightarrow> nat result \<times> cpu_state" where
  "cpu_man_freechip cs = or_else (free_block ncores_pc cs [0..<nchips]) cpu_man_any"

section \<open>Groups\<close>

text \<open>The group table gets the processor, which is outside of it when none was idle.\<close>

definition give :: "nat \<Rightarrow> cpu_state \<times> cpu_state \<Rightarrow> unit result \<times> cpu_state \<times> cpu_state" where
  "give i s = (case s of (cs, g) \<Rightarrow> if length (cm_state g) \<le> i then (Panic, cs, g) else (Ok (), cs, mark i idle g))"

definition on_cs :: "(cpu_state \<Rightarrow> nat result \<times> cpu_state) \<Rightarrow> cpu_state \<times> cpu_state \<Rightarrow> nat result \<times> cpu_state \<times> cpu_state" where
  "on_cs f s = (case s of (cs, g) \<Rightarrow> case f cs of (r, cs) \<Rightarrow> (r, cs, g))"

fun group_rest :: "nat \<Rightarrow> nat \<Rightarrow> cpu_state \<times> cpu_state \<Rightarrow> unit result \<times> cpu_state \<times> cpu_state" where
  "group_rest pid 0 s = (Ok (), s)"
| "group_rest pid (Suc n) s =
     bind_r (on_cs (\<lambda>cs. cpu_man_nearby cs pid) s) (\<lambda>i s. bind_r (give i s) (\<lambda>_ s. group_rest pid n s))"

definition empty_group :: "nat \<Rightarrow> (nat \<Rightarrow> nat \<Rightarrow> nat) \<Rightarrow> cpu_state result" where
  "empty_group self nhops =
     (case cpu_man_init self nhops of
        Ok g \<Rightarrow> Ok (g\<lparr>cm_state := replicate JOS_NCPU allocated\<rparr>)
      | r \<Rightarrow> r)"

definition cpu_man_group ::
  "nat \<Rightarrow> cpu_state \<Rightarrow> cpu_state \<Rightarrow> nat \<Rightarrow> unit result \<times> cpu_state \<times> cpu_state"
where
  "cpu_man_group self cs g ncores =
     (case empty_group self (cm_nhops g) of
        Ok g \<Rightarrow>
          bind_r (on_cs (if ncores \<le> ncores_pd then cpu_man_freedie
                         else if ncores \<le> ncores_pc then cpu_man_freechip
                         else cpu_man_any) (cs, g)) (\<lambda>first s.
            bind_r (give first s) (\<lambda>_ s. group_rest first (ncores - 1) s))
      | _ \<Rightarrow> (Panic, cs, g))"

definition cpu_man_group_nearby ::
  "nat \<Rightarrow> cpu_state \<Rightarrow> cpu_state \<Rightarrow> nat \<Rightarrow> nat \<Rightarrow> unit result \<times> cpu_state \<times> cpu_state"
where
  "cpu_man_group_nearby self cs g ncores pid =
     (case empty_group self (cm_nhops g) of Ok g \<Rightarrow> group_rest pid ncores (cs, g) | _ \<Rightarrow> (Panic, cs, g))"

section \<open>The contract of a strategy\<close>

definition cs_ok :: "cpu_state \<Rightarrow> bool" where
  "cs_ok cs \<longleftrightarrow> length (cm_state cs) = JOS_NCPU"

definition idles :: "cpu_state \<Rightarrow> nat set" where
  "idles cs = {i. i < JOS_NCPU \<and> cm_state cs ! i = idle}"

text \<open>
  A strategy hands out an idle processor and marks it, and only it, as allocated; it fails only when
  no processor is idle.
\<close>

locale cpu_alloc =
  fixes alloc :: "nat \<Rightarrow> cpu_state \<Rightarrow> nat result \<times> cpu_state"
  assumes takes: "cs_ok cs \<Longrightarrow> pid < JOS_NCPU \<Longrightarrow> idles cs \<noteq> {} \<Longrightarrow> \<exists>i\<in>idles cs. alloc pid cs = (Ok i, mark i allocated cs)"
    and fails: "cs_ok cs \<Longrightarrow> pid < JOS_NCPU \<Longrightarrow> idles cs = {} \<Longrightarrow> alloc pid cs = (Ok INVALID_PROCID, cs)"
begin

lemma moves:
  assumes "cs_ok cs" "cs_ok g" "pid < JOS_NCPU" "idles cs \<noteq> {}"
  shows "\<exists>i\<in>idles cs. bind_r (on_cs (alloc pid) (cs, g)) (\<lambda>i s. bind_r (give i s) (\<lambda>_ s. k i s)) =
    k i (mark i allocated cs, mark i idle g)"
  using takes [OF assms(1,3,4)] assms(2) by (auto simp: on_cs_def give_def idles_def cs_ok_def)

lemma overruns:
  assumes "cs_ok cs" "cs_ok g" "pid < JOS_NCPU" "idles cs = {}"
  shows "bind_r (on_cs (alloc pid) (cs, g)) (\<lambda>i s. bind_r (give i s) (\<lambda>_ s. k i s)) = (Panic, cs, g)"
  using fails [OF assms(1,3,4)] assms(2) by (simp add: on_cs_def give_def cs_ok_def INVALID_PROCID_def)

end

definition took :: "cpu_state \<Rightarrow> nat result \<times> cpu_state \<Rightarrow> bool" where
  "took cs r \<longleftrightarrow> r = (Ok INVALID_PROCID, cs) \<or> (\<exists>i\<in>idles cs. r = (Ok i, mark i allocated cs))"

lemma mark_ok: "cs_ok (mark i u cs) = cs_ok cs"
  by (simp add: mark_def cs_ok_def)

lemma idles_mark:
  assumes "cs_ok cs" "i < JOS_NCPU"
  shows "idles (mark i allocated cs) = idles cs - {i}" "idles (mark i idle cs) = insert i (idles cs)"
  using assms by (auto simp: idles_def mark_def cs_ok_def nth_list_update)

lemma alloc_took: "cs_ok cs \<Longrightarrow> i + n \<le> JOS_NCPU \<Longrightarrow> took cs (cpu_man_alloc cs i n)"
  by (induction cs i n rule: cpu_man_alloc.induct) (auto simp: took_def idles_def cs_ok_def)

lemma alloc_complete:
  "cs_ok cs \<Longrightarrow> i + n \<le> JOS_NCPU \<Longrightarrow> j \<in> idles cs \<Longrightarrow> i \<le> j \<Longrightarrow> j < i + n \<Longrightarrow> fst (cpu_man_alloc cs i n) \<noteq> Ok INVALID_PROCID"
proof (induction cs i n rule: cpu_man_alloc.induct)
  case (2 cs i n)
  then show ?case by (cases "i = j") (auto simp: idles_def cs_ok_def INVALID_PROCID_def)
qed simp

lemma any_takes:
  assumes "cs_ok cs"
  shows "took cs (cpu_man_any cs)" "idles cs \<noteq> {} \<Longrightarrow> fst (cpu_man_any cs) \<noteq> Ok INVALID_PROCID"
proof -
  show "took cs (cpu_man_any cs)" unfolding cpu_man_any_def by (rule alloc_took [OF assms]) simp
  assume "idles cs \<noteq> {}"
  then obtain j where j: "j \<in> idles cs" by blast
  then have "j < JOS_NCPU" by (simp add: idles_def)
  then show "fst (cpu_man_any cs) \<noteq> Ok INVALID_PROCID" using alloc_complete [OF assms _ j, of 0 JOS_NCPU] by (simp add: cpu_man_any_def)
qed

lemma idle_valid: "i \<in> idles cs \<Longrightarrow> i \<noteq> INVALID_PROCID"
  by (simp add: idles_def INVALID_PROCID_def)

lemma or_else_none: "or_else (Ok INVALID_PROCID, cs) f = f cs"
  by (simp add: or_else_def)

lemma or_else_some: "i \<in> idles cs \<Longrightarrow> or_else (Ok i, cs') f = (Ok i, cs')"
  using idle_valid [of i cs] by (simp add: or_else_def)

lemma took_or_else:
  assumes "took cs r" "took cs (f cs)"
  shows "took cs (or_else r f)"
  using assms(1) unfolding took_def [of cs r]
proof (elim disjE bexE)
  assume "r = (Ok INVALID_PROCID, cs)"
  then show ?thesis using assms(2) by (simp add: or_else_none)
next
  fix i assume "i \<in> idles cs" "r = (Ok i, mark i allocated cs)"
  then show ?thesis by (auto simp: or_else_some took_def)
qed

lemma took_fallback:
  assumes "cs_ok cs" "took cs r"
  shows "idles cs \<noteq> {} \<Longrightarrow> \<exists>i\<in>idles cs. or_else r cpu_man_any = (Ok i, mark i allocated cs)"
    and "idles cs = {} \<Longrightarrow> or_else r cpu_man_any = (Ok INVALID_PROCID, cs)"
  using assms(2) any_takes [OF assms(1)] unfolding took_def
  by (elim disjE bexE; auto simp: or_else_none or_else_some)+

lemma not_allocated [simp]: "u \<noteq> allocated \<longleftrightarrow> u = idle"
  by (cases u) auto

lemma remote_took: "cs_ok cs \<Longrightarrow> set is \<subseteq> {..<nchips} \<Longrightarrow> took cs (remote_chips cs cid nhop is)"
proof (induction "is")
  case (Cons i "is")
  have "i * ncores_pc + ncores_pc \<le> JOS_NCPU" using Cons.prems by (simp add: nchips_def ncores_pc_def JOS_NCPU_def)
  then show ?case using Cons alloc_took [of cs "i * ncores_pc" ncores_pc] by (auto intro!: took_or_else)
qed (simp add: took_def)

lemma block_took:
  assumes "cs_ok cs" "0 < w"
  shows "\<forall>i\<in>set is. i * w + w \<le> JOS_NCPU \<Longrightarrow> took cs (free_block w cs is)"
proof (induction "is")
  case (Cons i "is")
  have "i * w \<in> idles cs" if "\<forall>j\<in>set [0..<w]. cm_state cs ! (i * w + j) \<noteq> allocated"
    using that assms(2) Cons.prems by (auto simp: idles_def dest!: bspec [of _ _ 0])
  then show ?case using Cons by (auto simp: took_def)
qed (simp add: took_def)

interpretation any: cpu_alloc "\<lambda>_. cpu_man_any"
proof unfold_locales
  fix cs assume c: "cs_ok cs"
  show "\<exists>i\<in>idles cs. cpu_man_any cs = (Ok i, mark i allocated cs)" if "idles cs \<noteq> {}"
    using any_takes [OF c] that by (auto simp: took_def)
  show "cpu_man_any cs = (Ok INVALID_PROCID, cs)" if "idles cs = {}" using any_takes(1) [OF c] that by (auto simp: took_def)
qed

lemma nearby_alt:
  "cpu_man_nearby cs pid = or_else (or_else (cpu_man_alloc cs (pid - pid mod ncores_pd) ncores_pd)
     (\<lambda>cs. cpu_man_alloc cs (pid - pid mod ncores_pc) ncores_pc)) cpu_man_any"
  by (auto simp: cpu_man_nearby_def or_else_def bind_r_def split: result.splits prod.splits)

lemma near_block:
  fixes pid w :: nat
  assumes "pid < JOS_NCPU" "w dvd JOS_NCPU" "0 < w"
  shows "pid - pid mod w + w \<le> JOS_NCPU"
proof -
  obtain k where k: "JOS_NCPU = w * k" using assms(2) by (auto elim: dvdE)
  have "pid div w < k" using assms(1) k by (simp add: less_mult_imp_div_less mult.commute)
  then have "w * (pid div w + 1) \<le> w * k" by (intro mult_le_mono2) simp
  then show ?thesis using k by (simp add: minus_mod_eq_mult_div)
qed

interpretation nearby: cpu_alloc "\<lambda>pid cs. cpu_man_nearby cs pid"
proof unfold_locales
  fix cs pid assume c: "cs_ok cs" and p: "pid < JOS_NCPU"
  have t: "took cs (or_else (cpu_man_alloc cs (pid - pid mod ncores_pd) ncores_pd) (\<lambda>cs. cpu_man_alloc cs (pid - pid mod ncores_pc) ncores_pc))"
    by (intro took_or_else alloc_took c near_block p) (simp_all add: ncores_pd_def ncores_pc_def JOS_NCPU_def)
  show "\<exists>i\<in>idles cs. cpu_man_nearby cs pid = (Ok i, mark i allocated cs)" if "idles cs \<noteq> {}"
    unfolding nearby_alt by (rule took_fallback(1) [OF c t that])
  show "cpu_man_nearby cs pid = (Ok INVALID_PROCID, cs)" if "idles cs = {}"
    unfolding nearby_alt by (rule took_fallback(2) [OF c t that])
qed

interpretation remote: cpu_alloc "\<lambda>pid cs. cpu_man_remote cs pid nhop" for nhop
proof unfold_locales
  fix cs pid assume c: "cs_ok cs" and p: "pid < JOS_NCPU"
  have r: "cpu_man_remote cs pid nhop = or_else (remote_chips cs (pid div ncores_pc) nhop [0..<nchips]) cpu_man_any"
  proof -
    have "pid div ncores_pc < nchips" using p by (simp add: nchips_def ncores_pc_def JOS_NCPU_def div_less_iff_less_mult)
    then show ?thesis by (simp add: cpu_man_remote_def)
  qed
  have t: "took cs (remote_chips cs (pid div ncores_pc) nhop [0..<nchips])" by (rule remote_took [OF c]) auto
  show "\<exists>i\<in>idles cs. cpu_man_remote cs pid nhop = (Ok i, mark i allocated cs)" if "idles cs \<noteq> {}"
    unfolding r by (rule took_fallback(1) [OF c t that])
  show "cpu_man_remote cs pid nhop = (Ok INVALID_PROCID, cs)" if "idles cs = {}"
    unfolding r by (rule took_fallback(2) [OF c t that])
qed

interpretation freedie: cpu_alloc "\<lambda>_. cpu_man_freedie"
proof unfold_locales
  fix cs assume c: "cs_ok cs"
  have t: "took cs (free_block ncores_pd cs [0..<JOS_NCPU div ncores_pd])"
    by (rule block_took [OF c]) (auto simp: ncores_pd_def JOS_NCPU_def)
  show "\<exists>i\<in>idles cs. cpu_man_freedie cs = (Ok i, mark i allocated cs)" if "idles cs \<noteq> {}"
    unfolding cpu_man_freedie_def by (rule took_fallback(1) [OF c t that])
  show "cpu_man_freedie cs = (Ok INVALID_PROCID, cs)" if "idles cs = {}"
    unfolding cpu_man_freedie_def by (rule took_fallback(2) [OF c t that])
qed

interpretation freechip: cpu_alloc "\<lambda>_. cpu_man_freechip"
proof unfold_locales
  fix cs assume c: "cs_ok cs"
  have t: "took cs (free_block ncores_pc cs [0..<nchips])"
    by (rule block_took [OF c]) (auto simp: ncores_pc_def nchips_def JOS_NCPU_def)
  show "\<exists>i\<in>idles cs. cpu_man_freechip cs = (Ok i, mark i allocated cs)" if "idles cs \<noteq> {}"
    unfolding cpu_man_freechip_def by (rule took_fallback(1) [OF c t that])
  show "cpu_man_freechip cs = (Ok INVALID_PROCID, cs)" if "idles cs = {}"
    unfolding cpu_man_freechip_def by (rule took_fallback(2) [OF c t that])
qed

section \<open>Groups\<close>

lemma idles_finite: "finite (idles cs)"
  by (simp add: idles_def)

lemma group_rest_takes:
  assumes "cs_ok cs" "cs_ok g" "pid < JOS_NCPU" "n \<le> card (idles cs)"
  shows "\<exists>T cs' g'. group_rest pid n (cs, g) = (Ok (), cs', g') \<and> T \<subseteq> idles cs \<and> card T = n \<and>
    idles cs' = idles cs - T \<and> idles g' = idles g \<union> T"
  using assms
proof (induction n arbitrary: cs g)
  case 0
  then show ?case by (intro exI [of _ "{}"]) simp
next
  case (Suc n)
  then have "idles cs \<noteq> {}" by auto
  from nearby.moves [OF Suc.prems(1-3) this, of "\<lambda>_. group_rest pid n"] obtain i
    where i: "i \<in> idles cs" "group_rest pid (Suc n) (cs, g) = group_rest pid n (mark i allocated cs, mark i idle g)"
    by auto
  have b: "i < JOS_NCPU" using i(1) by (simp add: idles_def)
  have "n \<le> card (idles cs - {i})" using Suc.prems(4) i(1) idles_finite [of cs] by (simp add: card_Diff_singleton)
  then obtain T cs' g' where T: "group_rest pid n (mark i allocated cs, mark i idle g) = (Ok (), cs', g')" "T \<subseteq> idles cs - {i}" "card T = n"
    "idles cs' = idles cs - {i} - T" "idles g' = insert i (idles g) \<union> T"
    using Suc.IH [of "mark i allocated cs" "mark i idle g"] Suc.prems(1-3)
    by (auto simp: mark_ok idles_mark [OF Suc.prems(1) b] idles_mark [OF Suc.prems(2) b])
  have "finite T" using T(2) idles_finite by (meson finite_Diff finite_subset)
  then have "card (insert i T) = Suc n" using T(2,3) by (subst card_insert_disjoint) auto
  moreover have "insert i T \<subseteq> idles cs" "idles cs - {i} - T = idles cs - insert i T" using i(1) T(2) by blast+
  ultimately show ?case unfolding i(2) T(1) using T(4,5) by (intro exI [of _ "insert i T"] exI [of _ cs'] exI [of _ g']) simp
qed

lemma group_rest_overruns:
  assumes "cs_ok cs" "cs_ok g" "pid < JOS_NCPU" "card (idles cs) < n"
  shows "fst (group_rest pid n (cs, g)) = Panic"
  using assms
proof (induction n arbitrary: cs g)
  case (Suc n)
  show ?case
  proof (cases "idles cs = {}")
    case True
    then show ?thesis using nearby.overruns [OF Suc.prems(1-3), of "\<lambda>_. group_rest pid n"] by simp
  next
    case False
    from nearby.moves [OF Suc.prems(1-3) this, of "\<lambda>_. group_rest pid n"] obtain i
      where i: "i \<in> idles cs" "group_rest pid (Suc n) (cs, g) = group_rest pid n (mark i allocated cs, mark i idle g)"
      by auto
    have b: "i < JOS_NCPU" using i(1) by (simp add: idles_def)
    have "card (idles cs - {i}) < n" using Suc.prems(4) i(1) idles_finite [of cs] card_gt_0_iff [of "idles cs"] by (auto simp: card_Diff_singleton)
    then show ?thesis
      using Suc.IH [of "mark i allocated cs" "mark i idle g"] Suc.prems(1-3) i(2) by (simp add: mark_ok idles_mark [OF Suc.prems(1) b])
  qed
qed simp

lemma empty_group_ok:
  assumes "self < JOS_NCPU"
  obtains g where "empty_group self nhops = Ok g" "cs_ok g" "idles g = {}"
  using assms that by (auto simp: empty_group_def cpu_man_init_def cs_ok_def idles_def)

text \<open>The first processor of a group comes from one of three strategies.\<close>

lemma group_first:
  assumes "cs_ok cs" "cs_ok g" "idles cs \<noteq> {}" "f = cpu_man_freedie \<or> f = cpu_man_freechip \<or> f = cpu_man_any"
  shows "\<exists>i\<in>idles cs. bind_r (on_cs f (cs, g)) (\<lambda>i s. bind_r (give i s) (\<lambda>_ s. k i s)) = k i (mark i allocated cs, mark i idle g)"
  using assms(4) freedie.moves [OF assms(1,2) _ assms(3), of 0 k] freechip.moves [OF assms(1,2) _ assms(3), of 0 k]
    any.moves [OF assms(1,2) _ assms(3), of 0 k] by (auto simp: JOS_NCPU_def)

lemma group_first_overruns:
  assumes "cs_ok cs" "cs_ok g" "idles cs = {}" "f = cpu_man_freedie \<or> f = cpu_man_freechip \<or> f = cpu_man_any"
  shows "bind_r (on_cs f (cs, g)) (\<lambda>i s. bind_r (give i s) (\<lambda>_ s. k i s)) = (Panic, cs, g)"
  using assms(4) freedie.overruns [OF assms(1,2) _ assms(3), of 0 k] freechip.overruns [OF assms(1,2) _ assms(3), of 0 k]
    any.overruns [OF assms(1,2) _ assms(3), of 0 k] by (auto simp: JOS_NCPU_def)



end
