(* ===== verification/Spec2Isabelle.thy ===== *)
theory Spec2Isabelle
  imports Corey_Prelude Hashtable Page_Alloc Page_Boot Pagetree Pagetree_Inv Pagetree_Copy Darray Kmap Kmap_Rehash Pmap
    Kobject Share Atmap Segment_Obj At Processor_Obj Device_Obj Console Syscall Trap
    Kernel_Inv Kernel_Calls Kernel_Syscalls Kernel_Types Kernel_Progress Kernel_Access Kernel_Control Share_Table
    Locks Mcs Mcsrw Numfmt Arc4 Datatree Uthread Cpuman
begin

text \<open>
  A verification development for Corey, a multicore operating system kernel and its user
  libraries.

  \<^item> \<open>Corey_Prelude\<close> holds the error codes, the result type, rounding and checked arithmetic.
  \<^item> \<open>Hashtable\<close> models the hash table of \<^verbatim>\<open>lib/hashtable.c\<close>.
\<close>

end
